(* ===== verification/Prelude.thy ===== *)
theory Prelude
  imports Main "HOL-Library.Word"
begin

text \<open>
  Shared vocabulary of the development: the Go base types at their width, error values,
  gRPC status codes, results with a panic branch, and the generic list and map lemmas the
  components share.

  Conventions used by every other theory:
  \<^item> a Go \<^verbatim>\<open>string\<close> is an Isabelle \<open>string\<close> (a list of 8-bit characters, so its
    length counts bytes as \<^verbatim>\<open>len\<close> does) and a \<^verbatim>\<open>[]byte\<close> is a list of \<open>8 word\<close>;
  \<^item> \<^verbatim>\<open>int64\<close> and \<^verbatim>\<open>int32\<close> are words read with \<open>sint\<close>; a slice length \<^verbatim>\<open>len(x)\<close> is a
    \<open>nat\<close>, converted with \<open>of_nat\<close> where the source converts it to \<^verbatim>\<open>int64\<close>;
  \<^item> an error value is a value of \<open>err\<close>.  A formatted error keeps its format string and its
    operands instead of the rendered text, so two errors are equal when their texts are
    built from the same parts;
  \<^item> a call that can fail returns \<open>res\<close>; \<open>Panic\<close> is a Go run-time panic.
\<close>

subsection \<open>Go base types\<close>

type_synonym byte = "8 word"
type_synonym bytes = "byte list"
type_synonym int64 = "64 word"
type_synonym int32 = "32 word"

lemma sint_of_int64: "- (2 ^ 63) \<le> i \<Longrightarrow> i < 2 ^ 63 \<Longrightarrow> sint (of_int i :: int64) = i"
  by (simp add: signed_of_int signed_take_bit_int_eq_self)

lemma sint_of_nat64: "n < 2 ^ 63 \<Longrightarrow> sint (of_nat n :: int64) = int n"
  by (simp add: signed_of_nat signed_take_bit_int_eq_self)

named_theorems store_laws \<open>what a call to a store preserves and returns\<close>
named_theorems handler_defs \<open>definitions of the gRPC handlers\<close>
named_theorems go_std \<open>facts about the modelled parts of the Go standard library\<close>

subsection \<open>Errors\<close>

text \<open>The gRPC codes the program uses, under the names of \<^verbatim>\<open>google.golang.org/grpc/codes\<close>.\<close>

datatype grpc_code =
    OK
  | Canceled
  | InvalidArgument
  | NotFound
  | FailedPrecondition
  | Unimplemented
  | Internal

text \<open>
  Error values.  \<open>Ext\<close> is an error made outside the modelled code (operating system,
  network, AWS SDK, protobuf).  \<open>Errorf f as\<close> is \<^verbatim>\<open>fmt.Errorf\<close> or \<^verbatim>\<open>errors.New\<close> with no error
  operand, \<open>Wrapf f as e\<close> one whose last operand is an error under \<^verbatim>\<open>%w\<close>, and
  \<open>StatusErr c f as e\<close> is \<^verbatim>\<open>status.Errorf\<close> with an optional last error operand under
  \<^verbatim>\<open>%v\<close>.  The same type serves as the text of a message (\<^verbatim>\<open>err.Error()\<close>, \<^verbatim>\<open>fmt.Sprintf\<close>).
\<close>

datatype err =
    ErrNotFound
  | CtxCanceled
  | CtxDeadlineExceeded
  | EOF
  | Ext string
  | Errorf string "string list"
  | Wrapf string "string list" err
  | StatusErr grpc_code string "string list" "err option"

type_synonym message = err

text \<open>\<^verbatim>\<open>errors.Is\<close>: equality along the chain of \<^verbatim>\<open>%w\<close> operands.\<close>

primrec error_is :: "err \<Rightarrow> err \<Rightarrow> bool" where
  "error_is ErrNotFound t = (t = ErrNotFound)"
| "error_is CtxCanceled t = (t = CtxCanceled)"
| "error_is CtxDeadlineExceeded t = (t = CtxDeadlineExceeded)"
| "error_is EOF t = (t = EOF)"
| "error_is (Ext s) t = (t = Ext s)"
| "error_is (Errorf f as) t = (t = Errorf f as)"
| "error_is (Wrapf f as e) t = (t = Wrapf f as e \<or> error_is e t)"
| "error_is (StatusErr c f as e) t = (t = StatusErr c f as e)"

text \<open>\<^verbatim>\<open>rpcstatus.Status\<close>, and \<^verbatim>\<open>statusProto\<close> of the server package that builds one.\<close>

record rpc_status =
  st_code :: grpc_code
  st_message :: message

definition empty_message :: message where
  "empty_message = Errorf '''' []"

definition status_proto :: "grpc_code \<Rightarrow> message \<Rightarrow> rpc_status" where
  "status_proto c msg = \<lparr>st_code = c, st_message = msg\<rparr>"

lemma status_proto_sel [simp]:
  "st_code (status_proto c m) = c" "st_message (status_proto c m) = m"
  by (simp_all add: status_proto_def)

subsection \<open>Results\<close>

datatype 'a res = Ok 'a | Err err | Panic

primrec is_ok :: "'a res \<Rightarrow> bool" where
  "is_ok (Ok x) = True"
| "is_ok (Err e) = False"
| "is_ok Panic = False"

lemma is_ok_iff: "is_ok r \<longleftrightarrow> (\<exists>x. r = Ok x)"
  by (cases r) auto

text \<open>\<open>not_found r\<close>: the call failed with an error that \<^verbatim>\<open>errors.Is(err, cas.ErrNotFound)\<close>.\<close>

primrec not_found :: "'a res \<Rightarrow> bool" where
  "not_found (Ok x) = False"
| "not_found (Err e) = error_is e ErrNotFound"
| "not_found Panic = False"

text \<open>
  \<open>and_then r k\<close> goes on with \<open>k\<close> when a call over a state \<open>'w\<close> succeeded: the early return of
  \<^verbatim>\<open>if err != nil { return err }\<close>.  \<open>wrap_err\<close> is \<^verbatim>\<open>fmt.Errorf("...: %w", ..., err)\<close> on the way.
\<close>

fun and_then :: "'a res \<times> 'w \<Rightarrow> ('a \<Rightarrow> 'w \<Rightarrow> 'b res \<times> 'w) \<Rightarrow> 'b res \<times> 'w" where
  "and_then (Ok x, w) k = k x w"
| "and_then (Err e, w) k = (Err e, w)"
| "and_then (Panic, w) k = (Panic, w)"

fun wrap_err :: "string \<Rightarrow> string list \<Rightarrow> 'a res \<times> 'w \<Rightarrow> 'a res \<times> 'w" where
  "wrap_err f as (Ok x, w) = (Ok x, w)"
| "wrap_err f as (Err e, w) = (Err (Wrapf f as e), w)"
| "wrap_err f as (Panic, w) = (Panic, w)"

text \<open>A call on one part of a state that is a pair.\<close>

definition on_fst :: "'a res \<times> 'x \<Rightarrow> 'y \<Rightarrow> 'a res \<times> 'x \<times> 'y" where
  "on_fst r y = (fst r, snd r, y)"

definition on_snd :: "'x \<Rightarrow> 'a res \<times> 'y \<Rightarrow> 'a res \<times> 'x \<times> 'y" where
  "on_snd x r = (fst r, x, snd r)"

lemma on_fst_pair [simp]: "on_fst (r, x) y = (r, x, y)" and on_snd_pair [simp]: "on_snd x (r, y) = (r, x, y)"
  by (simp_all add: on_fst_def on_snd_def)

subsection \<open>Chunks of a list\<close>

text \<open>
  Cutting a list into pieces of \<open>n\<close> elements, the last one shorter: the shape of every paged
  or chunked response of the server.
\<close>

function chunks :: "nat \<Rightarrow> 'a list \<Rightarrow> 'a list list" where
  "chunks n xs = (if n = 0 \<or> xs = [] then [] else take n xs # chunks n (drop n xs))"
  by pat_completeness auto
termination
  by (relation "measure (\<lambda>(n, xs). length xs)") auto

declare chunks.simps [simp del]

lemma chunks_Nil [simp]: "chunks n [] = []"
  by (simp add: chunks.simps)

lemma chunks_short: "0 < length xs \<Longrightarrow> length xs \<le> n \<Longrightarrow> chunks n xs = [xs]"
  by (cases n) (auto simp: chunks.simps)

lemma chunks_append:
  assumes "length xs = n" and "0 < n"
  shows "chunks n (xs @ ys) = xs # chunks n ys"
  using assms by (subst chunks.simps) auto

lemma concat_chunks: "0 < n \<Longrightarrow> concat (chunks n xs) = xs"
proof (induction n xs rule: chunks.induct)
  case (1 n xs)
  then show ?case
    by (cases "xs = []") (auto simp: chunks.simps [of n xs])
qed

lemma chunks_bounds: "0 < n \<Longrightarrow> c \<in> set (chunks n xs) \<Longrightarrow> 0 < length c \<and> length c \<le> n"
proof (induction n xs rule: chunks.induct)
  case (1 n xs)
  then show ?case
    by (cases "xs = []") (auto simp: chunks.simps [of n xs])
qed

lemma chunks_butlast_full:
  "0 < n \<Longrightarrow> c \<in> set (butlast (chunks n xs)) \<Longrightarrow> length c = n"
proof (induction n xs rule: chunks.induct)
  case (1 n xs)
  show ?case
  proof (cases "drop n xs = []")
    case True
    with "1.prems" show ?thesis
      by (cases "xs = []") (auto simp: chunks.simps [of n xs])
  next
    case False
    then have "n < length xs" by simp
    with "1.prems" False "1.IH" show ?thesis
      by (auto simp: chunks.simps [of n xs] split: if_splits)
  qed
qed

subsection \<open>Folding over lists and maps\<close>

lemma map_upd_same: "m k = Some v \<Longrightarrow> m(k \<mapsto> v) = m"
  by (auto simp: fun_eq_iff)

lemma card_dom_upd:
  assumes "finite (dom m)" and "m k = None"
  shows "card (dom (m(k \<mapsto> v))) = Suc (card (dom m))"
  using assms by (auto simp: domIff)

lemma card_dom_upd_same:
  assumes "m k \<noteq> None"
  shows "card (dom (m(k \<mapsto> v))) = card (dom m)"
  using assms by (simp add: domIff insert_absorb)

lemma card_dom_remove:
  assumes "finite (dom m)" and "m k \<noteq> None"
  shows "Suc (card (dom (m(k := None)))) = card (dom m)"
proof -
  have "k \<in> dom m" using assms(2) by (simp add: domIff)
  then show ?thesis using assms(1) card.remove [of "dom m" k] by simp
qed

end
