(* ===== verification/Sha256.thy ===== *)
theory Sha256
  imports Prelude
begin

unbundle bit_operations_syntax

text \<open>
  SHA-256 (FIPS 180-4), the part of \<^verbatim>\<open>crypto/sha256\<close> that package \<^verbatim>\<open>digest\<close> calls.  A 32-bit
  word of the algorithm is an \<open>int\<close> below \<open>2 ^ 32\<close> with the wrap-around of an addition written
  as \<open>take_bit 32\<close>, which the kernel evaluates much faster than \<open>32 word\<close>.
\<close>

definition sha_K :: "int list" where
  "sha_K =
    [1116352408, 1899447441, 3049323471, 3921009573, 961987163, 1508970993, 2453635748, 2870763221,
     3624381080, 310598401, 607225278, 1426881987, 1925078388, 2162078206, 2614888103, 3248222580,
     3835390401, 4022224774, 264347078, 604807628, 770255983, 1249150122, 1555081692, 1996064986,
     2554220882, 2821834349, 2952996808, 3210313671, 3336571891, 3584528711, 113926993, 338241895,
     666307205, 773529912, 1294757372, 1396182291, 1695183700, 1986661051, 2177026350, 2456956037,
     2730485921, 2820302411, 3259730800, 3345764771, 3516065817, 3600352804, 4094571909, 275423344,
     430227734, 506948616, 659060556, 883997877, 958139571, 1322822218, 1537002063, 1747873779,
     1955562222, 2024104815, 2227730452, 2361852424, 2428436474, 2756734187, 3204031479, 3329325298]"

datatype sha_state = SHA int int int int int int int int

definition sha_init :: sha_state where
  "sha_init = SHA 1779033703 3144134277 1013904242 2773480762 1359893119 2600822924 528734635 1541459225"

definition add32 :: "int \<Rightarrow> int \<Rightarrow> int" where
  "add32 a b = take_bit 32 (a + b)"

text \<open>Rotation right by \<open>n\<close>, the second argument being \<open>32 - n\<close>.\<close>

definition rotr32 :: "nat \<Rightarrow> nat \<Rightarrow> int \<Rightarrow> int" where
  "rotr32 n m x = drop_bit n x OR push_bit m (take_bit n x)"

definition small_sigma0 :: "int \<Rightarrow> int" where
  "small_sigma0 x = rotr32 7 25 x XOR rotr32 18 14 x XOR drop_bit 3 x"

definition small_sigma1 :: "int \<Rightarrow> int" where
  "small_sigma1 x = rotr32 17 15 x XOR rotr32 19 13 x XOR drop_bit 10 x"

definition big_sigma0 :: "int \<Rightarrow> int" where
  "big_sigma0 x = rotr32 2 30 x XOR rotr32 13 19 x XOR rotr32 22 10 x"

definition big_sigma1 :: "int \<Rightarrow> int" where
  "big_sigma1 x = rotr32 6 26 x XOR rotr32 11 21 x XOR rotr32 25 7 x"

definition sha_ch :: "int \<Rightarrow> int \<Rightarrow> int \<Rightarrow> int" where
  "sha_ch x y z = (x AND y) XOR ((4294967295 XOR x) AND z)"

definition sha_maj :: "int \<Rightarrow> int \<Rightarrow> int \<Rightarrow> int" where
  "sha_maj x y z = (x AND y) XOR (x AND z) XOR (y AND z)"

text \<open>The rounds of one block, with the message schedule kept as a window of 16 words.\<close>

fun sha_rounds :: "int list \<Rightarrow> int list \<Rightarrow> sha_state \<Rightarrow> sha_state" where
  "sha_rounds [] ws s = s"
| "sha_rounds (k # ks) ws (SHA a b c d e f g h) =
    (let w = ws ! 0;
         t1 = take_bit 32 (h + big_sigma1 e + sha_ch e f g + k + w);
         t2 = big_sigma0 a + sha_maj a b c;
         w' = take_bit 32 (small_sigma1 (ws ! 14) + ws ! 9 + small_sigma0 (ws ! 1) + w)
     in sha_rounds ks (tl ws @ [w']) (SHA (add32 t1 t2) a b c (add32 d t1) e f g))"

fun sha_add :: "sha_state \<Rightarrow> sha_state \<Rightarrow> sha_state" where
  "sha_add (SHA a b c d e f g h) (SHA a' b' c' d' e' f' g' h') =
     SHA (add32 a a') (add32 b b') (add32 c c') (add32 d d')
         (add32 e e') (add32 f f') (add32 g g') (add32 h h')"

definition be32 :: "byte \<Rightarrow> byte \<Rightarrow> byte \<Rightarrow> byte \<Rightarrow> int" where
  "be32 a b c d = push_bit 24 (uint a) OR push_bit 16 (uint b) OR push_bit 8 (uint c) OR uint d"

fun block_words :: "bytes \<Rightarrow> int list" where
  "block_words (a # b # c # d # r) = be32 a b c d # block_words r"
| "block_words _ = []"

definition sha_compress :: "sha_state \<Rightarrow> bytes \<Rightarrow> sha_state" where
  "sha_compress s blk = sha_add s (sha_rounds sha_K (block_words blk) s)"

function sha_blocks :: "sha_state \<Rightarrow> bytes \<Rightarrow> sha_state" where
  "sha_blocks s bs =
     (if bs = [] then s else sha_blocks (sha_compress s (take 64 bs)) (drop 64 bs))"
  by pat_completeness auto
termination
  by (relation "measure (\<lambda>(s, b). length b)") auto

declare sha_blocks.simps [simp del]

definition be64 :: "64 word \<Rightarrow> bytes" where
  "be64 n = map (\<lambda>i. ucast (drop_bit (8 * i) n)) [7, 6, 5, 4, 3, 2, 1, 0]"

definition sha_pad :: "bytes \<Rightarrow> bytes" where
  "sha_pad m = m @ [128] @ replicate ((119 - length m mod 64) mod 64) 0
                 @ be64 (of_nat (8 * length m))"

definition int32_bytes :: "int \<Rightarrow> bytes" where
  "int32_bytes w = [of_int (drop_bit 24 w), of_int (drop_bit 16 w), of_int (drop_bit 8 w), of_int w]"

fun sha_bytes :: "sha_state \<Rightarrow> bytes" where
  "sha_bytes (SHA a b c d e f g h) = concat (map int32_bytes [a, b, c, d, e, f, g, h])"

text \<open>\<^verbatim>\<open>sha256.Sum256\<close>, as the 32 bytes of the array it returns.\<close>

definition sha256 :: "bytes \<Rightarrow> bytes" where
  "sha256 m = sha_bytes (sha_blocks sha_init (sha_pad m))"

lemma length_sha256 [simp]: "length (sha256 m) = 32"
  unfolding sha256_def
  by (cases "sha_blocks sha_init (sha_pad m)") (simp add: int32_bytes_def)

text \<open>Padding always yields whole 64-byte blocks.\<close>

lemma sha_pad_zeros:
  fixes r :: nat
  assumes "r < 64"
  shows "64 dvd r + 9 + (119 - r) mod 64"
proof (cases "r \<le> 55")
  case True
  then have "(119 - r) mod 64 = 55 - r" by (simp add: mod_if)
  with True show ?thesis by simp
next
  case False
  with assms have "(119 - r) mod 64 = 119 - r" by simp
  with False assms show ?thesis by simp
qed

lemma sha_pad_blocks: "64 dvd length (sha_pad m)"
proof -
  let ?r = "length m mod 64"
  have "length (sha_pad m) = 64 * (length m div 64) + (?r + 9 + (119 - ?r) mod 64)"
    by (simp add: sha_pad_def be64_def)
  moreover have "64 dvd ?r + 9 + (119 - ?r) mod 64"
    by (rule sha_pad_zeros) simp
  ultimately show ?thesis by (simp only: dvd_add dvd_triv_left)
qed

end
