(* ===== verification/GoStd.thy ===== *)
theory GoStd
  imports Prelude
begin

text \<open>
  The parts of the Go standard library the program relies on: \<^verbatim>\<open>strings.Split\<close> and
  \<^verbatim>\<open>strings.Join\<close>, decimal printing and \<^verbatim>\<open>strconv.ParseInt\<close>, \<^verbatim>\<open>encoding/hex\<close>,
  \<^verbatim>\<open>path.Clean\<close> / \<^verbatim>\<open>path.Join\<close>, and \<^verbatim>\<open>io.Reader\<close> with \<^verbatim>\<open>io.ReadAll\<close>.
\<close>

subsection \<open>strings.Split and strings.Join on a one-character separator\<close>

fun split_on :: "char \<Rightarrow> string \<Rightarrow> string list" where
  "split_on c [] = [[]]"
| "split_on c (x # xs) =
     (if x = c then [] # split_on c xs
      else case split_on c xs of
             [] \<Rightarrow> [[x]]
           | w # ws \<Rightarrow> (x # w) # ws)"

fun join_with :: "char \<Rightarrow> string list \<Rightarrow> string" where
  "join_with c [] = []"
| "join_with c [w] = w"
| "join_with c (w # v # ws) = w @ c # join_with c (v # ws)"

lemma split_on_nonempty [simp]: "split_on c s \<noteq> []"
  by (induction s) (auto split: list.splits)

lemma split_on_no_sep: "c \<notin> set s \<Longrightarrow> split_on c s = [s]"
  by (induction s) auto

lemma split_on_step: "c \<notin> set a \<Longrightarrow> split_on c (a @ c # b) = a # split_on c b"
  by (induction a) auto

lemma split_on_append: "split_on c (a @ c # b) = split_on c a @ split_on c b"
  by (induction a) (auto split: list.splits)

lemma split_on_parts: "\<forall>w \<in> set (split_on c s). c \<notin> set w"
  by (induction s) (auto split: list.splits)

lemma join_with_Cons: "ws \<noteq> [] \<Longrightarrow> join_with c (w # ws) = w @ c # join_with c ws"
  by (cases ws) auto

lemma join_split [go_std]: "join_with c (split_on c s) = s"
proof (induction s)
  case Nil
  then show ?case by simp
next
  case (Cons x xs)
  obtain w ws where s: "split_on c xs = w # ws"
    by (cases "split_on c xs") auto
  with Cons show ?case
    by (cases ws) (auto simp: join_with_Cons)
qed

lemma split_join [go_std]:
  "ws \<noteq> [] \<Longrightarrow> (\<And>w. w \<in> set ws \<Longrightarrow> c \<notin> set w) \<Longrightarrow> split_on c (join_with c ws) = ws"
proof (induction ws)
  case Nil
  then show ?case by simp
next
  case (Cons w ws)
  then show ?case
    by (cases ws) (auto simp: split_on_no_sep split_on_step)
qed

lemma join_with_append:
  "us \<noteq> [] \<Longrightarrow> vs \<noteq> [] \<Longrightarrow> join_with c (us @ vs) = join_with c us @ c # join_with c vs"
proof (induction us)
  case (Cons u us)
  then show ?case
    by (cases us) (auto simp: join_with_Cons)
qed simp

subsection \<open>Decimal numbers\<close>

definition dec_digit :: "nat \<Rightarrow> char" where
  "dec_digit d = char_of (48 + d)"

definition dec_value :: "char \<Rightarrow> nat option" where
  "dec_value c =
     (let n = of_char c :: nat in if 48 \<le> n \<and> n < 58 then Some (n - 48) else None)"

lemma dec_value_digit [simp]: "d < 10 \<Longrightarrow> dec_value (dec_digit d) = Some d"
  by (simp add: dec_value_def dec_digit_def Let_def)

lemma dec_digit_neq [simp]:
  "d < 10 \<Longrightarrow> dec_digit d \<noteq> CHR ''/''"
  "d < 10 \<Longrightarrow> dec_digit d \<noteq> CHR ''-''"
  "d < 10 \<Longrightarrow> dec_digit d \<noteq> CHR ''+''"
proof -
  have "of_char (dec_digit d) = 48 + d" if "d < 10"
    using that by (simp add: dec_digit_def)
  moreover have "of_char (CHR ''/'') = (47::nat)" "of_char (CHR ''-'') = (45::nat)"
    "of_char (CHR ''+'') = (43::nat)"
    by simp_all
  ultimately show "d < 10 \<Longrightarrow> dec_digit d \<noteq> CHR ''/''"
    "d < 10 \<Longrightarrow> dec_digit d \<noteq> CHR ''-''" "d < 10 \<Longrightarrow> dec_digit d \<noteq> CHR ''+''"
    by fastforce+
qed

fun dec :: "nat \<Rightarrow> string" where
  "dec n = (if n < 10 then [dec_digit n] else dec (n div 10) @ [dec_digit (n mod 10)])"

declare dec.simps [simp del]

lemma dec_nonempty [simp]: "dec n \<noteq> []"
  by (subst dec.simps) simp

lemma dec_no_sep: "CHR ''/'' \<notin> set (dec n)"
proof (induction n rule: dec.induct)
  case (1 n)
  then show ?case
    by (cases "n < 10") (auto simp: dec.simps [of n] dest: sym)
qed

lemma hd_dec: "hd (dec n) \<noteq> CHR ''-''" "hd (dec n) \<noteq> CHR ''+''"
proof (induction n rule: dec.induct)
  case (1 n)
  { case 1 then show ?case
      using "1.IH"(1) by (cases "n < 10") (auto simp: dec.simps [of n]) }
  { case 2 then show ?case
      using "1.IH"(2) by (cases "n < 10") (auto simp: dec.simps [of n]) }
qed

text \<open>\<^verbatim>\<open>%d\<close> of an \<^verbatim>\<open>int64\<close>.\<close>

definition show_int :: "int \<Rightarrow> string" where
  "show_int i = (if i < 0 then CHR ''-'' # dec (nat (- i)) else dec (nat i))"

definition show_int64 :: "int64 \<Rightarrow> string" where
  "show_int64 w = show_int (sint w)"

text \<open>
  \<^verbatim>\<open>strconv.ParseInt(s, 10, 64)\<close>: an optional sign, then \<^verbatim>\<open>ParseUint\<close>, which reads the digits
  left to right, stopping at the first character that is no digit or at the first digit that
  carries the value past \<open>2 ^ 64 - 1\<close>; then the range check of the signed type.
\<close>

definition parse_syntax :: "string \<Rightarrow> err" where
  "parse_syntax s = Errorf ''strconv.ParseInt: parsing %q: invalid syntax'' [s]"

definition parse_range :: "string \<Rightarrow> err" where
  "parse_range s = Errorf ''strconv.ParseInt: parsing %q: value out of range'' [s]"

fun parse_uint :: "string \<Rightarrow> nat \<Rightarrow> string \<Rightarrow> nat res" where
  "parse_uint s n [] = Ok n"
| "parse_uint s n (c # cs) =
     (case dec_value c of
        None \<Rightarrow> Err (parse_syntax s)
      | Some d \<Rightarrow> if 2 ^ 64 \<le> 10 * n + d then Err (parse_range s)
                  else parse_uint s (10 * n + d) cs)"

fun signed_of :: "string \<Rightarrow> bool \<Rightarrow> nat res \<Rightarrow> int64 res" where
  "signed_of s neg (Ok un) =
     (if \<not> neg \<and> 2 ^ 63 \<le> un then Err (parse_range s)
      else if neg \<and> 2 ^ 63 < un then Err (parse_range s)
      else Ok (if neg then - of_nat un else of_nat un))"
| "signed_of s neg (Err e) = Err e"
| "signed_of s neg Panic = Panic"

definition parse_int64 :: "string \<Rightarrow> int64 res" where
  "parse_int64 s =
     (case s of
        [] \<Rightarrow> Err (parse_syntax s)
      | c # cs \<Rightarrow>
          (let ds = (if c = CHR ''+'' \<or> c = CHR ''-'' then cs else s)
           in if ds = [] then Err (parse_syntax s)
              else signed_of s (c = CHR ''-'') (parse_uint s 0 ds)))"

lemma parse_uint_append:
  "parse_uint s n (a @ b) =
     (case parse_uint s n a of Ok m \<Rightarrow> parse_uint s m b | Err e \<Rightarrow> Err e | Panic \<Rightarrow> Panic)"
  by (induction s n a rule: parse_uint.induct) (auto split: option.splits)

lemma parse_uint_dec: "n < 2 ^ 64 \<Longrightarrow> parse_uint s 0 (dec n) = Ok n"
proof (induction n rule: dec.induct)
  case (1 n)
  show ?case
  proof (cases "n < 10")
    case True
    then show ?thesis by (simp add: dec.simps [of n])
  next
    case False
    with 1 have "parse_uint s 0 (dec (n div 10)) = Ok (n div 10)" by auto
    with False "1.prems" show ?thesis
      by (simp add: dec.simps [of n] parse_uint_append)
  qed
qed

lemma parse_uint_bound: "parse_uint s n ds = Ok m \<Longrightarrow> n < 2 ^ 64 \<Longrightarrow> m < 2 ^ 64"
  by (induction s n ds rule: parse_uint.induct) (auto split: option.splits if_splits)

lemma parse_uint_no_panic [simp]: "parse_uint s n ds \<noteq> Panic"
  by (induction s n ds rule: parse_uint.induct) (auto split: option.splits)

lemma signed_of_panic: "signed_of s neg r = Panic \<longleftrightarrow> r = Panic"
  by (cases r) auto

lemma parse_int64_no_panic [simp]: "parse_int64 s \<noteq> Panic"
  by (cases s) (simp_all add: parse_int64_def Let_def signed_of_panic del: parse_uint.simps)

text \<open>Reading back what \<^verbatim>\<open>%d\<close> printed gives the same value.\<close>

lemma dec_Cons: "\<exists>c cs. dec n = c # cs \<and> c \<noteq> CHR ''-'' \<and> c \<noteq> CHR ''+''"
  using hd_dec [of n] by (cases "dec n") auto

lemma parse_int64_dec: "n < 2 ^ 63 \<Longrightarrow> parse_int64 (dec n) = Ok (of_nat n)"
  using dec_Cons [of n] parse_uint_dec [of n "dec n"]
  by (auto simp: parse_int64_def Let_def simp del: parse_uint.simps)

lemma parse_int64_neg_dec: "n \<le> 2 ^ 63 \<Longrightarrow> parse_int64 (CHR ''-'' # dec n) = Ok (- of_nat n)"
  using parse_uint_dec [of n "CHR ''-'' # dec n"]
  by (simp add: parse_int64_def Let_def del: parse_uint.simps)

lemma parse_show_int64 [go_std]: "parse_int64 (show_int64 w) = Ok w"
proof (cases "sint w < 0")
  case True
  have "- (2 ^ 63) \<le> sint w" using sint_ge [of w] by simp
  with True show ?thesis
    by (simp add: show_int64_def show_int_def parse_int64_neg_dec)
next
  case False
  have "sint w < 2 ^ 63" using sint_lt [of w] by simp
  with False show ?thesis
    by (simp add: show_int64_def show_int_def parse_int64_dec)
qed

lemma show_int64_no_sep: "CHR ''/'' \<notin> set (show_int64 w)"
  by (simp add: show_int64_def show_int_def dec_no_sep)

lemma show_int64_inject: "show_int64 a = show_int64 b \<Longrightarrow> a = b"
  by (metis parse_show_int64 res.inject)

subsection \<open>encoding/hex\<close>

definition hex_chars :: string where
  "hex_chars = ''0123456789abcdef''"

definition hex_value :: "char \<Rightarrow> nat option" where
  "hex_value c =
     (let n = of_char c :: nat in
      if 48 \<le> n \<and> n < 58 then Some (n - 48)
      else if 97 \<le> n \<and> n < 103 then Some (n - 87)
      else if 65 \<le> n \<and> n < 71 then Some (n - 55)
      else None)"

text \<open>\<^verbatim>\<open>hex.EncodeToString\<close>: two lower-case digits per byte.\<close>

definition hex_byte :: "byte \<Rightarrow> string" where
  "hex_byte b = [hex_chars ! (unat b div 16), hex_chars ! (unat b mod 16)]"

definition hex_encode :: "bytes \<Rightarrow> string" where
  "hex_encode bs = concat (map hex_byte bs)"

text \<open>\<^verbatim>\<open>hex.DecodeString\<close>: pairs of digits of either case; an odd length is an error.\<close>

definition hex_invalid :: "char \<Rightarrow> err" where
  "hex_invalid c = Errorf ''encoding/hex: invalid byte: %#U'' [[c]]"

fun hex_decode :: "string \<Rightarrow> bytes res" where
  "hex_decode [] = Ok []"
| "hex_decode [c] =
     (if hex_value c = None then Err (hex_invalid c)
      else Err (Errorf ''encoding/hex: odd length hex string'' []))"
| "hex_decode (a # b # r) =
     (case hex_value a of
        None \<Rightarrow> Err (hex_invalid a)
      | Some x \<Rightarrow>
          (case hex_value b of
             None \<Rightarrow> Err (hex_invalid b)
           | Some y \<Rightarrow>
               (case hex_decode r of
                  Ok bs \<Rightarrow> Ok (of_nat (16 * x + y) # bs)
                | Err e \<Rightarrow> Err e
                | Panic \<Rightarrow> Panic)))"

definition is_hex :: "char \<Rightarrow> bool" where
  "is_hex c \<longleftrightarrow> hex_value c \<noteq> None"

lemma length_hex_encode [simp]: "length (hex_encode bs) = 2 * length bs"
  by (induction bs) (simp_all add: hex_encode_def hex_byte_def)

lemma hex_value_char: "n < 16 \<Longrightarrow> hex_value (hex_chars ! n) = Some n"
  by (auto simp: less_Suc_eq numeral_eq_Suc hex_value_def hex_chars_def)

lemma hex_decode_encode [go_std]: "hex_decode (hex_encode bs) = Ok bs"
proof (induction bs)
  case Nil
  then show ?case by (simp add: hex_encode_def)
next
  case (Cons b bs)
  have "unat b < 256" using unsigned_less [of b] by simp
  then have "unat b div 16 < 16" "unat b mod 16 < 16" by auto
  with Cons show ?case
    by (simp add: hex_encode_def hex_byte_def hex_value_char)
qed

lemma hex_encode_inject: "hex_encode a = hex_encode b \<Longrightarrow> a = b"
  by (metis hex_decode_encode res.inject)

text \<open>Decoding succeeds exactly on an even number of hexadecimal digits.\<close>

lemma hex_decode_ok_iff:
  "is_ok (hex_decode s) \<longleftrightarrow> even (length s) \<and> list_all is_hex s"
  by (induction s rule: hex_decode.induct) (force simp: is_hex_def split: option.split res.split)+

lemma hex_decode_no_panic [simp]: "hex_decode s \<noteq> Panic"
proof (induction s rule: hex_decode.induct)
  case (3 a b r)
  then show ?case
    by (cases "hex_value a"; cases "hex_value b"; cases "hex_decode r") auto
qed simp_all

lemma hex_decode_err: "hex_decode s = Err e \<Longrightarrow> \<not> error_is e ErrNotFound"
proof (induction s arbitrary: e rule: hex_decode.induct)
  case (3 a b r)
  then show ?case
    by (cases "hex_value a"; cases "hex_value b"; cases "hex_decode r")
       (auto simp: hex_invalid_def)
qed (auto simp: hex_invalid_def split: if_splits)

lemma is_hex_no_sep: "is_hex c \<Longrightarrow> c \<noteq> CHR ''/'' \<and> c \<noteq> CHR ''.''"
  by (auto simp: is_hex_def hex_value_def Let_def)

subsection \<open>path.Clean and path.Join\<close>

text \<open>
  \<^verbatim>\<open>path.Clean\<close> processes the elements left to right.  The result so far is kept reversed; an
  empty element and \<^verbatim>\<open>.\<close> are dropped, \<^verbatim>\<open>..\<close> removes the last kept name and stays only at the
  start of a relative path.  On Unix \<^verbatim>\<open>filepath.Clean\<close> and \<^verbatim>\<open>filepath.Join\<close> are the same
  functions.
\<close>

definition dot :: string where
  "dot = ''.''"

definition dotdot :: string where
  "dotdot = ''..''"

definition clean_step :: "bool \<Rightarrow> string list \<Rightarrow> string \<Rightarrow> string list" where
  "clean_step r st e =
     (if e = '''' \<or> e = dot then st
      else if e = dotdot then
        (case st of
           [] \<Rightarrow> if r then [] else [dotdot]
         | t # ts \<Rightarrow> if t = dotdot then dotdot # st else ts)
      else e # st)"

definition rooted :: "string \<Rightarrow> bool" where
  "rooted p \<longleftrightarrow> p \<noteq> [] \<and> hd p = CHR ''/''"

definition clean_parts :: "bool \<Rightarrow> string list \<Rightarrow> string list" where
  "clean_parts r es = rev (foldl (clean_step r) [] es)"

definition path_clean :: "string \<Rightarrow> string" where
  "path_clean p =
     (if p = '''' then dot
      else let s = join_with CHR ''/'' (clean_parts (rooted p) (split_on CHR ''/'' p))
           in if rooted p then CHR ''/'' # s else if s = '''' then dot else s)"

definition path_join :: "string list \<Rightarrow> string" where
  "path_join es =
     (let es' = dropWhile (\<lambda>e. e = '''') es
      in if es' = [] then '''' else path_clean (join_with CHR ''/'' es'))"

text \<open>A plain name: one path element that \<^verbatim>\<open>path.Clean\<close> keeps.\<close>

definition plain_name :: "string \<Rightarrow> bool" where
  "plain_name e \<longleftrightarrow> e \<noteq> '''' \<and> e \<noteq> dot \<and> e \<noteq> dotdot \<and> CHR ''/'' \<notin> set e"

lemma clean_parts_plain: "plain_name e \<Longrightarrow> clean_parts r (es @ [e]) = clean_parts r es @ [e]"
  by (simp add: clean_parts_def clean_step_def plain_name_def)

lemma clean_parts_plain2:
  "plain_name e \<Longrightarrow> plain_name f \<Longrightarrow> clean_parts r (es @ [e, f]) = clean_parts r es @ [e, f]"
  using clean_parts_plain [of e r es] clean_parts_plain [of f r "es @ [e]"] by simp

lemma plain_nameD: "plain_name e \<Longrightarrow> e \<noteq> '''' \<and> CHR ''/'' \<notin> set e"
  by (simp add: plain_name_def)

subsection \<open>io.Reader\<close>

text \<open>
  An \<^verbatim>\<open>io.Reader\<close> is the script of what it will deliver: each element is the data of one
  underlying read with the error that comes with it; an exhausted script answers \<^verbatim>\<open>io.EOF\<close>.
  \<open>read_n r n\<close> is \<^verbatim>\<open>r.Read(buf)\<close> with \<^verbatim>\<open>len(buf) = n\<close>: data that does not fit the buffer stays
  for the next call, its error with it.
\<close>

type_synonym reader = "(bytes \<times> err option) list"

fun read_n :: "reader \<Rightarrow> nat \<Rightarrow> bytes \<times> err option \<times> reader" where
  "read_n [] n = ([], Some EOF, [])"
| "read_n ((c, e) # r) n =
     (if n < length c then (take n c, None, (drop n c, e) # r) else (c, e, r))"

text \<open>\<^verbatim>\<open>bytes.NewReader\<close>: all the data, then \<^verbatim>\<open>io.EOF\<close>.\<close>

definition bytes_reader :: "bytes \<Rightarrow> reader" where
  "bytes_reader b = (if b = [] then [] else [(b, None)])"

text \<open>\<^verbatim>\<open>io.ReadAll\<close>: everything up to \<^verbatim>\<open>io.EOF\<close>, or the first other error.\<close>

fun read_all :: "reader \<Rightarrow> bytes res" where
  "read_all [] = Ok []"
| "read_all ((c, None) # r) =
     (case read_all r of Ok b \<Rightarrow> Ok (c @ b) | Err e \<Rightarrow> Err e | Panic \<Rightarrow> Panic)"
| "read_all ((c, Some e) # r) = (if e = EOF then Ok c else Err e)"

lemma read_all_bytes_reader [simp]: "read_all (bytes_reader b) = Ok b"
  by (simp add: bytes_reader_def)

lemma read_all_no_panic [simp]: "read_all r \<noteq> Panic"
  by (induction r rule: read_all.induct) (simp_all split: res.split)

fun reader_size :: "reader \<Rightarrow> nat" where
  "reader_size [] = 0"
| "reader_size ((c, e) # r) = Suc (length c) + reader_size r"

lemma read_n_shrinks:
  "0 < n \<Longrightarrow> read_n r n = (c, e, r') \<Longrightarrow> r \<noteq> [] \<Longrightarrow> reader_size r' < reader_size r"
  by (cases r) (auto split: if_splits)

lemma read_n_length: "read_n r n = (c, e, r') \<Longrightarrow> length c \<le> n"
  by (cases r) (auto split: if_splits)

text \<open>One read splits the content: what it delivered and what is left give the whole.\<close>

lemma read_all_split:
  "read_all ((a @ c, e) # r) =
     (case read_all ((c, e) # r) of Ok b \<Rightarrow> Ok (a @ b) | Err x \<Rightarrow> Err x | Panic \<Rightarrow> Panic)"
  by (cases e) (simp_all split: res.split)

lemma read_n_content:
  assumes "read_n r n = (c, None, r')"
  shows "read_all r =
     (case read_all r' of Ok b \<Rightarrow> Ok (c @ b) | Err x \<Rightarrow> Err x | Panic \<Rightarrow> Panic)"
proof (cases r)
  case Nil
  with assms show ?thesis by simp
next
  case (Cons x rs)
  obtain d e where x: "x = (d, e)" by (cases x)
  show ?thesis
  proof (cases "n < length d")
    case True
    with assms Cons x read_all_split [of "take n d" "drop n d" e rs] show ?thesis by auto
  next
    case False
    with assms Cons x show ?thesis by auto
  qed
qed

lemma read_n_stop:
  assumes "read_n r n = (c, Some e, r')"
  shows "read_all r = (if e = EOF then Ok c else Err e)"
  using assms by (cases r) (auto split: if_splits)

end
