(* ===== verification/Digest.thy ===== *)
theory Digest
  imports Sha256 GoStd
begin

text \<open>
  Package \<^verbatim>\<open>internal/digest\<close>: REAPI digests.  A \<^verbatim>\<open>*repb.Digest\<close> is a \<open>digest option\<close>, the nil
  pointer being \<open>None\<close>; its generated getters answer the zero value on nil.
\<close>

record digest =
  d_hash :: string
  d_size :: int64

type_synonym digest_ptr = "digest option"

definition get_hash :: "digest_ptr \<Rightarrow> string" where
  "get_hash d = (case d of None \<Rightarrow> '''' | Some x \<Rightarrow> d_hash x)"

definition get_size :: "digest_ptr \<Rightarrow> int64" where
  "get_size d = (case d of None \<Rightarrow> 0 | Some x \<Rightarrow> d_size x)"

lemma get_simps [simp]:
  "get_hash None = ''''" "get_hash (Some x) = d_hash x"
  "get_size None = 0" "get_size (Some x) = d_size x"
  by (simp_all add: get_hash_def get_size_def)

subsection \<open>Operations\<close>

definition empty_hash :: string where
  "empty_hash = ''e3b0c44298fc1c149afbf4c8996fb92427ae41e4649b934ca495991b7852b855''"

definition empty_digest :: digest where
  "empty_digest = \<lparr>d_hash = empty_hash, d_size = 0\<rparr>"

definition from_bytes :: "bytes \<Rightarrow> digest" where
  "from_bytes b = \<lparr>d_hash = hex_encode (sha256 b), d_size = of_nat (length b)\<rparr>"

definition is_empty :: "digest_ptr \<Rightarrow> bool" where
  "is_empty d \<longleftrightarrow> get_size d = 0 \<and> get_hash d = empty_hash"

definition key :: "digest_ptr \<Rightarrow> string" where
  "key d = get_hash d @ ''/'' @ show_int64 (get_size d)"

definition validate :: "digest_ptr \<Rightarrow> unit res" where
  "validate d =
     (case d of
        None \<Rightarrow> Err (Errorf ''digest is nil'' [])
      | Some x \<Rightarrow>
          if length (d_hash x) \<noteq> 32 * 2 then
            Err (Errorf ''invalid sha256 hash length %d for %q''
                   [dec (length (d_hash x)), d_hash x])
          else (case hex_decode (d_hash x) of
                  Err e \<Rightarrow> Err (Wrapf ''hash is not valid hex: %w'' [] e)
                | Panic \<Rightarrow> Panic
                | Ok _ \<Rightarrow>
                    if sint (d_size x) < 0 then
                      Err (Errorf ''negative size_bytes %d'' [show_int64 (d_size x)])
                    else Ok ()))"

subsection \<open>What validation accepts\<close>

definition valid_hash :: "string \<Rightarrow> bool" where
  "valid_hash h \<longleftrightarrow> length h = 64 \<and> list_all is_hex h"

lemma validate_no_panic [simp]: "validate d \<noteq> Panic"
  by (auto simp: validate_def split: option.splits res.splits)

lemma validate_ok:
  "validate d = Ok () \<longleftrightarrow> (\<exists>x. d = Some x \<and> valid_hash (d_hash x) \<and> 0 \<le> sint (d_size x))"
  using hex_decode_ok_iff [of "get_hash d"]
  by (cases d)
     (auto simp: validate_def valid_hash_def not_less is_ok_iff split: res.splits)

text \<open>A valid hash is a plain path element, and no validation error is \<^verbatim>\<open>cas.ErrNotFound\<close>.\<close>

lemma valid_hash_plain: "valid_hash h \<Longrightarrow> plain_name h"
  using is_hex_no_sep by (auto simp: valid_hash_def plain_name_def dot_def dotdot_def list_all_iff)

lemma validate_error_kind: "validate d = Err e \<Longrightarrow> \<not> error_is e ErrNotFound"
  by (auto simp: validate_def hex_decode_err split: option.splits if_splits res.splits)

lemma hex_encode_hex: "list_all is_hex (hex_encode b)"
  using hex_decode_ok_iff [of "hex_encode b"] by (simp add: hex_decode_encode)

lemma valid_hash_sha256: "valid_hash (hex_encode (sha256 b))"
  by (simp add: valid_hash_def hex_encode_hex)

lemma from_bytes_sel [simp]:
  "d_hash (from_bytes b) = hex_encode (sha256 b)" "d_size (from_bytes b) = of_nat (length b)"
  by (simp_all add: from_bytes_def)

lemma validate_from_bytes_lemma:
  "length b < 2 ^ 63 \<Longrightarrow> validate (Some (from_bytes b)) = Ok ()"
  by (simp add: validate_ok valid_hash_sha256 sint_of_nat64)

lemma is_empty_None [simp]: "\<not> is_empty None"
  by (simp add: is_empty_def empty_hash_def)

lemma is_empty_eq: "is_empty d \<longleftrightarrow> d = Some empty_digest"
  by (cases d) (auto simp: is_empty_def empty_digest_def empty_hash_def)

text \<open>The constant \<^verbatim>\<open>EmptyHash\<close> is what the hash function returns on the empty input.\<close>

lemma sha256_empty: "hex_encode (sha256 []) = empty_hash"
proof -
  have "sha256 [] =
    [227, 176, 196, 66, 152, 252, 28, 20,
     154, 251, 244, 200, 153, 111, 185, 36,
     39, 174, 65, 228, 100, 155, 147, 76,
     164, 149, 153, 27, 120, 82, 184, 85]"
    by code_simp
  then show ?thesis
    by (simp add: hex_encode_def hex_byte_def hex_chars_def empty_hash_def)
qed

lemma from_bytes_Nil: "from_bytes [] = empty_digest"
  by (simp add: from_bytes_def empty_digest_def sha256_empty)

text \<open>The digest of the one-byte blob \<open>[0]\<close>, for concrete examples.\<close>

definition zero_digest :: digest where
  "zero_digest =
     \<lparr>d_hash = ''6e340b9cffb37a989ca544e6bb780a2c78901d3fb33738768511a30617afa01d'', d_size = 1\<rparr>"

lemma from_bytes_zero: "from_bytes [0] = zero_digest"
proof -
  have "sha256 [0] =
    [110, 52, 11, 156, 255, 179, 122, 152,
     156, 165, 68, 230, 187, 120, 10, 44,
     120, 144, 29, 63, 179, 55, 56, 118,
     133, 17, 163, 6, 23, 175, 160, 29]"
    by code_simp
  then show ?thesis
    by (simp add: from_bytes_def zero_digest_def hex_encode_def hex_byte_def hex_chars_def)
qed

subsection \<open>Keys\<close>

lemma key_inject_lemma:
  assumes "valid_hash (get_hash a)" and "valid_hash (get_hash b)" and "key a = key b"
  shows "get_hash a = get_hash b \<and> get_size a = get_size b"
proof -
  have no: "CHR ''/'' \<notin> set (get_hash a)" "CHR ''/'' \<notin> set (get_hash b)"
    using assms(1,2) valid_hash_plain plain_nameD by blast+
  have "split_on (CHR ''/'') (key a) = get_hash a # split_on (CHR ''/'') (show_int64 (get_size a))"
    "split_on (CHR ''/'') (key b) = get_hash b # split_on (CHR ''/'') (show_int64 (get_size b))"
    using no by (simp_all add: key_def split_on_step)
  with assms(3) show ?thesis
    by (auto simp: split_on_no_sep show_int64_no_sep dest: show_int64_inject)
qed

subsection \<open>Properties\<close>

text \<open>
  \<^verbatim>\<open>FromBytes\<close> and \<^verbatim>\<open>Validate\<close> agree: the digest computed from a blob is valid and carries the
  blob's length, and the digest of the empty blob is the constant of the package, which is what
  \<^verbatim>\<open>IsEmpty\<close> recognises.
\<close>

theorem from_bytes_valid:
  assumes "length b < 2 ^ 63"
  shows "validate (Some (from_bytes b)) = Ok () \<and> sint (d_size (from_bytes b)) = int (length b) \<and>
    from_bytes [] = empty_digest \<and> (is_empty (Some (from_bytes b)) \<longleftrightarrow> b = [])"
proof -
  have size: "sint (of_nat (length b) :: int64) = int (length b)"
    using assms by (rule sint_of_nat64)
  have "is_empty (Some (from_bytes b)) \<longleftrightarrow> b = []"
  proof
    assume "is_empty (Some (from_bytes b))"
    then have "(of_nat (length b) :: int64) = 0" by (simp add: is_empty_def)
    with size show "b = []" by simp
  qed (simp add: is_empty_eq from_bytes_Nil)
  then show ?thesis
    using assms size by (simp add: validate_from_bytes_lemma from_bytes_Nil)
qed

theorem from_bytes_valid_witness:
  "validate (Some (from_bytes [0])) = Ok () \<and> sint (d_size (from_bytes [0])) = int (length [0 :: byte]) \<and>
    from_bytes [] = empty_digest \<and> (is_empty (Some (from_bytes [0])) \<longleftrightarrow> [0 :: byte] = [])"
  by (rule from_bytes_valid) simp

text \<open>
  C40.  \<^verbatim>\<open>Validate\<close> accepts exactly the digests with 64 hexadecimal digits, of either case, and a
  size that is not negative; it never panics, and a rejected digest is never mistaken for a
  missing blob.
\<close>

theorem validate_exact:
  "(validate d = Ok () \<longleftrightarrow>
      (\<exists>x. d = Some x \<and> length (d_hash x) = 64 \<and> list_all is_hex (d_hash x) \<and> 0 \<le> sint (d_size x))) \<and>
    validate d \<noteq> Panic \<and> \<not> not_found (validate d)"
proof -
  have "validate d = Ok () \<longleftrightarrow>
      (\<exists>x. d = Some x \<and> length (d_hash x) = 64 \<and> list_all is_hex (d_hash x) \<and> 0 \<le> sint (d_size x))"
    unfolding validate_ok valid_hash_def by blast
  moreover have "\<not> not_found (validate d)"
    using validate_error_kind [of d] by (cases "validate d") simp_all
  ultimately show ?thesis by simp
qed

text \<open>\<^verbatim>\<open>Key\<close> tells valid digests apart: the map keys and error texts built from it are unambiguous.\<close>

theorem key_inject:
  assumes "validate a = Ok ()" and "validate b = Ok ()" and "key a = key b"
  shows "a = b"
proof -
  have "valid_hash (get_hash a)" "valid_hash (get_hash b)"
    using assms(1,2) by (auto simp: validate_ok)
  from key_inject_lemma [OF this assms(3)] show ?thesis
    using assms(1,2) by (auto simp: validate_ok)
qed

theorem key_inject_witness: "Some empty_digest = Some (from_bytes [])"
proof (rule key_inject)
  show "validate (Some empty_digest) = Ok ()" "validate (Some (from_bytes [])) = Ok ()"
    using validate_from_bytes_lemma [of "[]"] by (simp_all add: from_bytes_Nil)
  show "key (Some empty_digest) = key (Some (from_bytes []))"
    by (simp add: from_bytes_Nil)
qed

end
