(* ===== verification/Messages.thy ===== *)
theory Messages
  imports Digest
begin

text \<open>
  The REAPI messages the program reads and writes, with the fields it uses.  The message types
  and their wire format are generated code outside the repository: a message is a record, a
  pointer to one an \<open>option\<close>, and \<^verbatim>\<open>proto.Marshal\<close> / \<^verbatim>\<open>proto.Unmarshal\<close> are the fields of a
  \<open>codec\<close>, a parameter of every operation that serializes.
\<close>

record file_node =
  fn_name :: string
  fn_digest :: digest_ptr
  fn_exec :: bool

record symlink_node =
  sn_name :: string
  sn_target :: string

record dir_node =
  dn_name :: string
  dn_digest :: digest_ptr

record directory =
  dir_files :: "file_node list"
  dir_directories :: "dir_node list"
  dir_symlinks :: "symlink_node list"

record tree_msg =
  tree_root :: directory
  tree_children :: "directory list"

record output_file =
  of_path :: string
  of_digest :: digest_ptr
  of_exec :: bool

record output_directory =
  od_path :: string
  od_tree_digest :: digest_ptr
  od_root_digest :: digest_ptr

record output_symlink =
  os_path :: string
  os_target :: string

text \<open>The execution metadata, with times in nanoseconds.\<close>

record exec_metadata =
  em_worker :: string
  em_worker_start :: int
  em_worker_completed :: int
  em_exec_start :: int
  em_exec_completed :: int

record action_result =
  ar_output_files :: "output_file list"
  ar_output_directories :: "output_directory list"
  ar_output_symlinks :: "output_symlink list"
  ar_exit_code :: int32
  ar_stdout_digest :: digest_ptr
  ar_stderr_digest :: digest_ptr
  ar_metadata :: "exec_metadata option"

text \<open>The timeout of an action is the value of \<^verbatim>\<open>AsDuration\<close> on its field, in nanoseconds.\<close>

record action =
  a_command_digest :: digest_ptr
  a_input_root :: digest_ptr
  a_timeout :: "int64 option"
  a_do_not_cache :: bool

record env_var =
  ev_name :: string
  ev_value :: string

record command =
  c_arguments :: "string list"
  c_environment :: "env_var list"
  c_output_files :: "string list"
  c_output_directories :: "string list"
  c_output_paths :: "string list"
  c_working_directory :: string

text \<open>
  A call into code outside the repository that can fail: \<open>Inl\<close> is its error, of which the
  program sees only that it is neither nil nor one of its own sentinel errors.
\<close>

type_synonym 'a ext = "string + 'a"

primrec of_ext :: "'a ext \<Rightarrow> 'a res" where
  "of_ext (Inl e) = Err (Ext e)"
| "of_ext (Inr x) = Ok x"

lemma of_ext_simps [simp]:
  "of_ext x \<noteq> Panic" "\<not> not_found (of_ext x)" "of_ext x = Ok y \<longleftrightarrow> x = Inr y"
  by (cases x; simp)+

record codec =
  marshal_dir :: "directory \<Rightarrow> bytes ext"
  unmarshal_dir :: "bytes \<Rightarrow> directory ext"
  marshal_tree :: "tree_msg \<Rightarrow> bytes ext"
  marshal_ar :: "action_result \<Rightarrow> bytes ext"
  unmarshal_ar :: "bytes \<Rightarrow> action_result ext"
  unmarshal_action :: "bytes \<Rightarrow> action ext"
  marshal_cmd :: "command \<Rightarrow> bytes ext"
  unmarshal_cmd :: "bytes \<Rightarrow> command ext"

text \<open>
  Documented behaviour of the codec for a message: it marshals, and to bytes that unmarshal to
  the same message.
\<close>

definition ar_roundtrip :: "codec \<Rightarrow> action_result \<Rightarrow> bool" where
  "ar_roundtrip pb ar \<longleftrightarrow> (\<exists>b. marshal_ar pb ar = Inr b \<and> unmarshal_ar pb b = Inr ar)"

subsection \<open>A reference codec\<close>

text \<open>
  The number of a message in a table, written in unary: a codec on which theorems about an
  arbitrary codec are applied to concrete messages.  It marshals what its tables list.
\<close>

fun position :: "'a \<Rightarrow> 'a list \<Rightarrow> nat option" where
  "position x [] = None"
| "position x (y # ys) = (if x = y then Some 0 else map_option Suc (position x ys))"

definition table_encode :: "'a list \<Rightarrow> 'a \<Rightarrow> bytes ext" where
  "table_encode ms m =
     (case position m ms of None \<Rightarrow> Inl ''unknown message'' | Some n \<Rightarrow> Inr (replicate n 0))"

definition table_decode :: "'a list \<Rightarrow> bytes \<Rightarrow> 'a ext" where
  "table_decode ms b = (if length b < length ms then Inr (ms ! length b) else Inl ''cannot parse'')"

definition table_codec ::
    "directory list \<Rightarrow> tree_msg list \<Rightarrow> action_result list \<Rightarrow> action list \<Rightarrow> command list \<Rightarrow> codec" where
  "table_codec dirs trees ars acts cmds =
     \<lparr>marshal_dir = table_encode dirs, unmarshal_dir = table_decode dirs,
      marshal_tree = table_encode trees, marshal_ar = table_encode ars,
      unmarshal_ar = table_decode ars, unmarshal_action = table_decode acts,
      marshal_cmd = table_encode cmds, unmarshal_cmd = table_decode cmds\<rparr>"

lemma table_codec_sel [simp]:
  "marshal_dir (table_codec dirs trees ars acts cmds) = table_encode dirs"
  "unmarshal_dir (table_codec dirs trees ars acts cmds) = table_decode dirs"
  "marshal_tree (table_codec dirs trees ars acts cmds) = table_encode trees"
  "marshal_ar (table_codec dirs trees ars acts cmds) = table_encode ars"
  "unmarshal_ar (table_codec dirs trees ars acts cmds) = table_decode ars"
  "unmarshal_action (table_codec dirs trees ars acts cmds) = table_decode acts"
  "marshal_cmd (table_codec dirs trees ars acts cmds) = table_encode cmds"
  "unmarshal_cmd (table_codec dirs trees ars acts cmds) = table_decode cmds"
  by (simp_all add: table_codec_def)

lemma position_nth: "position x xs = Some n \<Longrightarrow> n < length xs \<and> xs ! n = x"
  by (induction xs arbitrary: n) (auto split: if_splits)

lemma table_roundtrip: "table_encode ms m = Inr b \<Longrightarrow> table_decode ms b = Inr m"
  by (auto simp: table_encode_def table_decode_def dest: position_nth split: option.splits)

lemma position_in: "x \<in> set xs \<Longrightarrow> position x xs \<noteq> None"
  by (induction xs) auto

lemma table_codec_ar: "ar \<in> set ars \<Longrightarrow> ar_roundtrip (table_codec dirs trees ars acts cmds) ar"
  using table_roundtrip [of ars ar] position_in [of ar ars]
  by (fastforce simp: ar_roundtrip_def table_encode_def)

end
