(* ===== verification/Cas.thy ===== *)
theory Cas
  imports Messages
begin

text \<open>
  The \<^verbatim>\<open>Store\<close> interface of \<^verbatim>\<open>internal/cas\<close>.  A Go interface value is a \<open>store\<close>: the record of
  its methods over a state \<open>'s\<close>.  Every method takes the state and returns its result with the
  state after the call, reads included, so a provider may fail, lose a connection or be
  changed by others between calls.

  \<open>blob_store\<close> states what the server relies on: a view of the state as two maps (blobs and
  action results, keyed by hash), what each answer says of that view, and what each call keeps
  of it.  \<open>reliable_store\<close> adds that calls do not fail.  The in-memory store interprets both
  (theory \<open>MemStore\<close>) and the S3 store the first (theory \<open>S3Store\<close>).
\<close>

record 's store =
  st_contains :: "'s \<Rightarrow> digest_ptr \<Rightarrow> bool res \<times> 's"
  st_get :: "'s \<Rightarrow> digest_ptr \<Rightarrow> bytes res \<times> 's"
  st_reader :: "'s \<Rightarrow> digest_ptr \<Rightarrow> int64 \<Rightarrow> int64 \<Rightarrow> reader res \<times> 's"
  st_put :: "'s \<Rightarrow> digest_ptr \<Rightarrow> bytes \<Rightarrow> unit res \<times> 's"
  st_put_stream :: "'s \<Rightarrow> digest_ptr \<Rightarrow> int64 \<Rightarrow> reader \<Rightarrow> unit res \<times> 's"
  st_get_ar :: "'s \<Rightarrow> digest_ptr \<Rightarrow> action_result res \<times> 's"
  st_put_ar :: "'s \<Rightarrow> digest_ptr \<Rightarrow> action_result \<Rightarrow> unit res \<times> 's"

subsection \<open>The abstract store\<close>

text \<open>
  The view of a store: its blobs and its serialized action results, keyed by hash alone.  The
  empty blob is present whether stored or not.
\<close>

record view =
  v_blobs :: "string \<rightharpoonup> bytes"
  v_acs :: "string \<rightharpoonup> bytes"

definition lookup_blob :: "view \<Rightarrow> digest_ptr \<Rightarrow> bytes option" where
  "lookup_blob v d = (if is_empty d then Some [] else v_blobs v (get_hash d))"

definition put_blob :: "view \<Rightarrow> digest_ptr \<Rightarrow> bytes \<Rightarrow> view" where
  "put_blob v d b =
     (if is_empty d then v else v\<lparr>v_blobs := (v_blobs v)(get_hash d \<mapsto> b)\<rparr>)"

definition put_ac :: "view \<Rightarrow> digest_ptr \<Rightarrow> bytes \<Rightarrow> view" where
  "put_ac v d b = v\<lparr>v_acs := (v_acs v)(get_hash d \<mapsto> b)\<rparr>"

text \<open>
  The bytes a reader opened at \<open>offset\<close> with \<open>limit\<close> delivers; a limit of 0 means no limit.
\<close>

definition window :: "int64 \<Rightarrow> int64 \<Rightarrow> bytes \<Rightarrow> bytes" where
  "window offset limit b =
     (let r = drop (nat (sint offset)) b
      in if 0 < sint limit then take (nat (sint limit)) r else r)"

text \<open>Offsets for which \<^verbatim>\<open>offset+limit-1\<close> stays inside \<^verbatim>\<open>int64\<close>.\<close>

definition good_range :: "int64 \<Rightarrow> int64 \<Rightarrow> bool" where
  "good_range offset limit \<longleftrightarrow>
     0 \<le> sint offset \<and> 0 \<le> sint limit \<and> sint offset + sint limit \<le> 2 ^ 63"

text \<open>Content addressing: every stored blob hashes to the key it is stored under.\<close>

definition content_addressed :: "view \<Rightarrow> bool" where
  "content_addressed v \<longleftrightarrow> (\<forall>h b. v_blobs v h = Some b \<longrightarrow> hex_encode (sha256 b) = h)"

lemma content_addressed_put:
  "content_addressed v \<Longrightarrow> hex_encode (sha256 b) = get_hash d \<Longrightarrow> content_addressed (put_blob v d b)"
  by (auto simp: content_addressed_def put_blob_def)

lemma content_addressed_put_ac [simp]: "content_addressed (put_ac v d b) = content_addressed v"
  by (simp add: content_addressed_def put_ac_def)

lemma lookup_put_same: "lookup_blob (put_blob v d b) d = (if is_empty d then Some [] else Some b)"
  by (simp add: lookup_blob_def put_blob_def)

lemma lookup_put_other:
  "get_hash d \<noteq> get_hash d' \<Longrightarrow> lookup_blob (put_blob v d b) d' = lookup_blob v d'"
  by (simp add: lookup_blob_def put_blob_def)

lemma lookup_put_ac [simp]: "lookup_blob (put_ac v d b) d' = lookup_blob v d'"
  by (simp add: lookup_blob_def put_ac_def)

lemma acs_put_blob [simp]: "v_acs (put_blob v d b) = v_acs v"
  by (simp add: put_blob_def)

lemma acs_put_ac [simp]: "v_acs (put_ac v d b) = (v_acs v)(get_hash d \<mapsto> b)"
  by (simp add: put_ac_def)

subsection \<open>The contract\<close>

locale blob_store =
  fixes st :: "'s store"
    and pb :: codec
    and inv :: "'s \<Rightarrow> bool"
    and okd :: "digest_ptr \<Rightarrow> bool"
    and vw :: "'s \<Rightarrow> view"
  assumes valid_okd: "validate d = Ok () \<Longrightarrow> okd d"
    and contains_law [store_laws]:
      "inv s \<Longrightarrow> okd d \<Longrightarrow> st_contains st s d = (rc, s') \<Longrightarrow>
        inv s' \<and> vw s' = vw s \<and> rc \<noteq> Panic \<and>
        (\<forall>b. rc = Ok b \<longrightarrow> b = (lookup_blob (vw s) d \<noteq> None))"
    and get_law [store_laws]:
      "inv s \<Longrightarrow> okd d \<Longrightarrow> st_get st s d = (rg, s') \<Longrightarrow>
        inv s' \<and> vw s' = vw s \<and> rg \<noteq> Panic \<and>
        (\<forall>b. rg = Ok b \<longrightarrow> lookup_blob (vw s) d = Some b) \<and>
        (not_found rg \<longrightarrow> lookup_blob (vw s) d = None)"
    and reader_law [store_laws]:
      "inv s \<Longrightarrow> okd d \<Longrightarrow> good_range off lim \<Longrightarrow> st_reader st s d off lim = (rr, s') \<Longrightarrow>
        inv s' \<and> vw s' = vw s \<and> rr \<noteq> Panic \<and>
        (\<forall>rd. rr = Ok rd \<longrightarrow>
           (\<exists>b. lookup_blob (vw s) d = Some b \<and>
                (\<forall>x. read_all rd = Ok x \<longrightarrow> x = window off lim b))) \<and>
        (not_found rr \<longrightarrow> lookup_blob (vw s) d = None)"
    and put_law [store_laws]:
      "inv s \<Longrightarrow> okd d \<Longrightarrow> st_put st s d b = (ru, s') \<Longrightarrow>
        inv s' \<and> ru \<noteq> Panic \<and>
        (ru = Ok () \<longrightarrow> vw s' = put_blob (vw s) d b) \<and>
        (vw s' = vw s \<or> vw s' = put_blob (vw s) d b)"
    and put_stream_law [store_laws]:
      "inv s \<Longrightarrow> okd d \<Longrightarrow> st_put_stream st s d n rd = (ru, s') \<Longrightarrow> read_all rd = Ok b \<Longrightarrow>
        inv s' \<and> ru \<noteq> Panic \<and>
        (ru = Ok () \<longrightarrow> vw s' = put_blob (vw s) d b) \<and>
        (vw s' = vw s \<or> vw s' = put_blob (vw s) d b)"
    and get_ar_law [store_laws]:
      "inv s \<Longrightarrow> okd d \<Longrightarrow> st_get_ar st s d = (ra, s') \<Longrightarrow>
        inv s' \<and> vw s' = vw s \<and> ra \<noteq> Panic \<and>
        (\<forall>ar. ra = Ok ar \<longrightarrow> (\<exists>b. v_acs (vw s) (get_hash d) = Some b \<and> unmarshal_ar pb b = Inr ar)) \<and>
        (not_found ra \<longrightarrow> v_acs (vw s) (get_hash d) = None)"
    and put_ar_law [store_laws]:
      "inv s \<Longrightarrow> okd d \<Longrightarrow> st_put_ar st s d ar = (ru, s') \<Longrightarrow>
        inv s' \<and> ru \<noteq> Panic \<and>
        (ru = Ok () \<longrightarrow> (\<exists>b. marshal_ar pb ar = Inr b \<and> vw s' = put_ac (vw s) d b)) \<and>
        (vw s' = vw s \<or> (\<exists>b. marshal_ar pb ar = Inr b \<and> vw s' = put_ac (vw s) d b))"
begin

text \<open>What was put is got back, and other hashes are untouched.\<close>

lemma get_after_put:
  assumes "inv s" "okd d" "st_put st s d b = (Ok (), s1)" "st_get st s1 d = (Ok b', s2)"
  shows "b' = (if is_empty d then [] else b)"
  using put_law [OF assms(1,2,3)] get_law [OF _ assms(2) assms(4)]
  by (auto simp: lookup_put_same)

lemma get_put_other:
  assumes "inv s" "okd d" "okd d'" "get_hash d \<noteq> get_hash d'"
    and "st_put st s d b = (r, s1)" "st_get st s1 d' = (Ok b', s2)"
  shows "lookup_blob (vw s) d' = Some b'"
  using put_law [OF assms(1,2,5)] get_law [OF _ assms(3,6)] assms(4)
  by (auto simp: lookup_put_other)

text \<open>
  Putting bytes under the digest computed from them keeps the store content-addressed, even
  when the call reports an error.
\<close>

lemma put_content_addressed:
  assumes "inv s" "okd d" "content_addressed (vw s)"
    and "hex_encode (sha256 b) = get_hash d" "st_put st s d b = (r, s')"
  shows "content_addressed (vw s')"
  using put_law [OF assms(1,2,5)] content_addressed_put [OF assms(3,4)] assms(3) by auto

text \<open>Reads keep what writes established: a blob once stored stays readable.\<close>

lemma put_ar_keeps_blobs:
  assumes "inv s" "okd d" "st_put_ar st s d ar = (r, s')"
  shows "lookup_blob (vw s') d' = lookup_blob (vw s) d'"
  using put_ar_law [OF assms] by auto

end

text \<open>A store whose calls do not fail when what they ask for is there.\<close>

locale reliable_store = blob_store +
  assumes contains_total:
      "inv s \<Longrightarrow> okd d \<Longrightarrow> is_ok (fst (st_contains st s d))"
    and get_total:
      "inv s \<Longrightarrow> okd d \<Longrightarrow> lookup_blob (vw s) d \<noteq> None \<Longrightarrow> is_ok (fst (st_get st s d))"
    and get_absent:
      "inv s \<Longrightarrow> okd d \<Longrightarrow> lookup_blob (vw s) d = None \<Longrightarrow> fst (st_get st s d) = Err ErrNotFound"
    and put_total:
      "inv s \<Longrightarrow> okd d \<Longrightarrow> fst (st_put st s d b) = Ok ()"
    and put_stream_total:
      "inv s \<Longrightarrow> okd d \<Longrightarrow> is_ok (read_all rd) \<Longrightarrow> fst (st_put_stream st s d n rd) = Ok ()"
    and get_ar_total:
      "inv s \<Longrightarrow> okd d \<Longrightarrow> v_acs (vw s) (get_hash d) = Some b \<Longrightarrow> unmarshal_ar pb b = Inr ar \<Longrightarrow>
         fst (st_get_ar st s d) = Ok ar"
    and put_ar_total:
      "inv s \<Longrightarrow> okd d \<Longrightarrow> marshal_ar pb ar = Inr b \<Longrightarrow> fst (st_put_ar st s d ar) = Ok ()"
begin

lemma get_iff_present:
  assumes "inv s" "okd d"
  shows "fst (st_get st s d) =
    (case lookup_blob (vw s) d of None \<Rightarrow> Err ErrNotFound | Some b \<Rightarrow> Ok b)"
proof (cases "lookup_blob (vw s) d")
  case None
  with assms show ?thesis by (simp add: get_absent)
next
  case (Some b)
  obtain r s' where g: "st_get st s d = (r, s')" by fastforce
  have "is_ok r" using get_total [OF assms] Some g by auto
  then show ?thesis using get_law [OF assms g] Some g by (auto simp: is_ok_iff)
qed

lemma contains_iff_present:
  assumes "inv s" "okd d"
  shows "fst (st_contains st s d) = Ok (lookup_blob (vw s) d \<noteq> None)"
proof -
  obtain r s' where c: "st_contains st s d = (r, s')" by fastforce
  have "is_ok r" using contains_total [OF assms] c by simp
  then show ?thesis using contains_law [OF assms c] c by (auto simp: is_ok_iff)
qed

end

end
