(* ===== verification/Resource.thy ===== *)
theory Resource
  imports Cas
begin

text \<open>
  ByteStream resource names (\<^verbatim>\<open>parseReadResource\<close>, \<^verbatim>\<open>parseWriteResource\<close>, \<^verbatim>\<open>digestFrom\<close> of
  \<^verbatim>\<open>internal/server/cas_service.go\<close>).  The loops over the path segments recurse on the segments
  still to come, so \<^verbatim>\<open>parts[i+1]\<close> is the head of the rest.
\<close>

definition digest_from :: "string \<Rightarrow> string \<Rightarrow> digest res" where
  "digest_from hash sz =
     (case parse_int64 sz of
        Err e \<Rightarrow> Err (Wrapf ''invalid size %q: %w'' [sz] e)
      | Panic \<Rightarrow> Panic
      | Ok n \<Rightarrow>
          (let d = \<lparr>d_hash = hash, d_size = n\<rparr>
           in case validate (Some d) of
                Err e \<Rightarrow> Err e
              | Panic \<Rightarrow> Panic
              | Ok u \<Rightarrow> Ok d))"

fun read_parts :: "string \<Rightarrow> string list \<Rightarrow> digest res" where
  "read_parts name [] = Err (Errorf ''invalid read resource name %q'' [name])"
| "read_parts name (p # rest) =
     (if p = ''compressed-blobs'' then Err (Errorf ''compressed blobs are not supported'' [])
      else if p = ''blobs'' \<and> 2 \<le> length rest then digest_from (rest ! 0) (rest ! 1)
      else read_parts name rest)"

definition parse_read_resource :: "string \<Rightarrow> digest res" where
  "parse_read_resource name = read_parts name (split_on (CHR ''/'') name)"

fun write_parts :: "string \<Rightarrow> string list \<Rightarrow> digest res" where
  "write_parts name [] = Err (Errorf ''invalid write resource name %q'' [name])"
| "write_parts name (p # rest) =
     (if p = ''uploads'' \<and> 4 \<le> length rest \<and> rest ! 1 = ''blobs''
      then digest_from (rest ! 2) (rest ! 3)
      else write_parts name rest)"

definition parse_write_resource :: "string \<Rightarrow> digest res" where
  "parse_write_resource name = write_parts name (split_on (CHR ''/'') name)"

subsection \<open>Every parsed digest is valid\<close>

lemma digest_from_ok_iff:
  "digest_from h sz = Ok d \<longleftrightarrow>
     d_hash d = h \<and> parse_int64 sz = Ok (d_size d) \<and> validate (Some d) = Ok ()"
  by (cases d) (auto simp: digest_from_def Let_def split: res.splits)

lemma digest_from_no_panic [simp]: "digest_from h sz \<noteq> Panic"
  by (auto simp: digest_from_def Let_def split: res.splits)

lemma read_parts_no_panic [simp]: "read_parts name ps \<noteq> Panic"
  by (induction name ps rule: read_parts.induct) auto

lemma write_parts_no_panic [simp]: "write_parts name ps \<noteq> Panic"
  by (induction name ps rule: write_parts.induct) auto

lemma parse_no_panic [simp]: "parse_read_resource name \<noteq> Panic" "parse_write_resource name \<noteq> Panic"
  by (simp_all add: parse_read_resource_def parse_write_resource_def)

lemma read_parts_sound:
  "read_parts name ps = Ok d \<Longrightarrow>
    \<exists>pre sz post. ps = pre @ ''blobs'' # d_hash d # sz # post \<and> parse_int64 sz = Ok (d_size d) \<and>
      validate (Some d) = Ok () \<and> ''compressed-blobs'' \<notin> set pre"
proof (induction name ps rule: read_parts.induct)
  case (2 name p rest)
  show ?case
  proof (cases "p = ''blobs'' \<and> 2 \<le> length rest")
    case True
    then obtain h sz post where r: "rest = h # sz # post"
      by (cases rest; cases "tl rest") auto
    with True 2 have "p # rest = [] @ ''blobs'' # d_hash d # sz # post \<and>
      parse_int64 sz = Ok (d_size d) \<and> validate (Some d) = Ok ()"
      by (auto simp: digest_from_ok_iff)
    then show ?thesis by (metis empty_iff empty_set)
  next
    case False
    with "2.prems" have p: "p \<noteq> ''compressed-blobs''" and "read_parts name rest = Ok d"
      by (auto split: if_splits)
    with "2.IH" False obtain pre sz post where
      "rest = pre @ ''blobs'' # d_hash d # sz # post" "parse_int64 sz = Ok (d_size d)"
      "validate (Some d) = Ok ()" "''compressed-blobs'' \<notin> set pre"
      by blast
    with p have "p # rest = (p # pre) @ ''blobs'' # d_hash d # sz # post \<and>
      parse_int64 sz = Ok (d_size d) \<and> validate (Some d) = Ok () \<and>
      ''compressed-blobs'' \<notin> set (p # pre)"
      by simp
    then show ?thesis by blast
  qed
qed simp

lemma write_parts_sound:
  "write_parts name ps = Ok d \<Longrightarrow>
    \<exists>pre uuid sz post. ps = pre @ ''uploads'' # uuid # ''blobs'' # d_hash d # sz # post \<and>
      parse_int64 sz = Ok (d_size d) \<and> validate (Some d) = Ok ()"
proof (induction name ps rule: write_parts.induct)
  case (2 name p rest)
  show ?case
  proof (cases "p = ''uploads'' \<and> 4 \<le> length rest \<and> rest ! 1 = ''blobs''")
    case True
    then obtain u b h sz post where r: "rest = u # b # h # sz # post"
      by (auto simp: Suc_le_length_iff numeral_eq_Suc)
    with True 2 have "p # rest = [] @ ''uploads'' # u # ''blobs'' # d_hash d # sz # post \<and>
      parse_int64 sz = Ok (d_size d) \<and> validate (Some d) = Ok ()"
      by (auto simp: digest_from_ok_iff)
    then show ?thesis by blast
  next
    case False
    with "2.prems" have "write_parts name rest = Ok d" by (auto split: if_splits)
    with "2.IH" False obtain pre u sz post where
      "rest = pre @ ''uploads'' # u # ''blobs'' # d_hash d # sz # post"
      "parse_int64 sz = Ok (d_size d)" "validate (Some d) = Ok ()"
      by blast
    then have "p # rest = (p # pre) @ ''uploads'' # u # ''blobs'' # d_hash d # sz # post \<and>
      parse_int64 sz = Ok (d_size d) \<and> validate (Some d) = Ok ()"
      by simp
    then show ?thesis by blast
  qed
qed simp

lemma parse_read_valid: "parse_read_resource name = Ok d \<Longrightarrow> validate (Some d) = Ok ()"
  unfolding parse_read_resource_def using read_parts_sound by blast

lemma parse_write_valid: "parse_write_resource name = Ok d \<Longrightarrow> validate (Some d) = Ok ()"
  unfolding parse_write_resource_def using write_parts_sound by blast

subsection \<open>Names a client builds are parsed back\<close>

text \<open>
  The names of the REAPI: \<^verbatim>\<open>{instance}/blobs/{hash}/{size}\<close> and
  \<^verbatim>\<open>{instance}/uploads/{uuid}/blobs/{hash}/{size}\<close> with optional further segments, an instance
  name being any number of segments.
\<close>

definition read_name :: "string list \<Rightarrow> digest \<Rightarrow> string list \<Rightarrow> string" where
  "read_name inst d suffix =
     join_with (CHR ''/'') (inst @ [''blobs'', d_hash d, show_int64 (d_size d)] @ suffix)"

definition write_name :: "string list \<Rightarrow> string \<Rightarrow> digest \<Rightarrow> string list \<Rightarrow> string" where
  "write_name inst uuid d suffix =
     join_with (CHR ''/'')
       (inst @ [''uploads'', uuid, ''blobs'', d_hash d, show_int64 (d_size d)] @ suffix)"

definition segments :: "string list \<Rightarrow> bool" where
  "segments ws \<longleftrightarrow> (\<forall>w \<in> set ws. CHR ''/'' \<notin> set w)"

lemma digest_from_show:
  "validate (Some d) = Ok () \<Longrightarrow> digest_from (d_hash d) (show_int64 (d_size d)) = Ok d"
  by (simp add: digest_from_ok_iff parse_show_int64)

lemma read_parts_skip:
  "''blobs'' \<notin> set inst \<Longrightarrow> ''compressed-blobs'' \<notin> set inst \<Longrightarrow>
    read_parts name (inst @ ps) = read_parts name ps"
  by (induction inst) auto

lemma write_parts_skip:
  "''uploads'' \<notin> set inst \<Longrightarrow> write_parts name (inst @ ps) = write_parts name ps"
  by (induction inst) auto

lemma valid_no_sep: "validate (Some d) = Ok () \<Longrightarrow> CHR ''/'' \<notin> set (d_hash d)"
  by (auto simp: validate_ok dest!: valid_hash_plain plain_nameD)

lemma split_read_name:
  assumes "validate (Some d) = Ok ()" "segments inst" "segments suffix"
  shows "split_on (CHR ''/'') (read_name inst d suffix) =
    inst @ [''blobs'', d_hash d, show_int64 (d_size d)] @ suffix"
  unfolding read_name_def
  by (rule split_join)
     (use assms valid_no_sep show_int64_no_sep in \<open>auto simp: segments_def\<close>)

lemma split_write_name:
  assumes "validate (Some d) = Ok ()" "segments inst" "segments (uuid # suffix)"
  shows "split_on (CHR ''/'') (write_name inst uuid d suffix) =
    inst @ [''uploads'', uuid, ''blobs'', d_hash d, show_int64 (d_size d)] @ suffix"
  unfolding write_name_def
  by (rule split_join)
     (use assms valid_no_sep show_int64_no_sep in \<open>auto simp: segments_def\<close>)

lemma parse_read_name:
  assumes "validate (Some d) = Ok ()" "segments inst" "segments suffix"
    and "''blobs'' \<notin> set inst" "''compressed-blobs'' \<notin> set inst"
  shows "parse_read_resource (read_name inst d suffix) = Ok d"
  using assms
  by (simp add: parse_read_resource_def split_read_name read_parts_skip digest_from_show)

lemma parse_write_name:
  assumes "validate (Some d) = Ok ()" "segments inst" "segments (uuid # suffix)"
    and "''uploads'' \<notin> set inst"
  shows "parse_write_resource (write_name inst uuid d suffix) = Ok d"
  using assms
  by (simp add: parse_write_resource_def split_write_name write_parts_skip digest_from_show)

subsection \<open>Properties\<close>

lemma zero_valid: "validate (Some zero_digest) = Ok ()"
  using validate_from_bytes_lemma [of "[0]"] by (simp add: from_bytes_zero)

text \<open>
  C39.  Every resource name a client builds for a valid digest is parsed back to that digest, for any
  instance name that avoids the keywords and any further segments: downloads and uploads.
\<close>

theorem resource_name_roundtrip:
  assumes "validate (Some d) = Ok ()" and "segments inst" and "segments (uuid # suffix)"
  shows "(''blobs'' \<notin> set inst \<and> ''compressed-blobs'' \<notin> set inst \<longrightarrow>
      parse_read_resource (read_name inst d suffix) = Ok d) \<and>
    (''uploads'' \<notin> set inst \<longrightarrow> parse_write_resource (write_name inst uuid d suffix) = Ok d)"
  using parse_read_name [OF assms(1,2), of suffix] parse_write_name [OF assms] assms(3)
  by (auto simp: segments_def)

theorem resource_name_roundtrip_witness:
  "parse_read_resource (read_name [''main''] zero_digest [''x.o'']) = Ok zero_digest \<and>
    parse_write_resource (write_name [''main''] ''u-1'' zero_digest [''x.o'']) = Ok zero_digest"
proof -
  have "(''blobs'' \<notin> set [''main''] \<and> ''compressed-blobs'' \<notin> set [''main''] \<longrightarrow>
      parse_read_resource (read_name [''main''] zero_digest [''x.o'']) = Ok zero_digest) \<and>
    (''uploads'' \<notin> set [''main''] \<longrightarrow>
      parse_write_resource (write_name [''main''] ''u-1'' zero_digest [''x.o'']) = Ok zero_digest)"
    by (rule resource_name_roundtrip [OF zero_valid]) (simp_all add: segments_def)
  then show ?thesis by simp
qed

text \<open>
  What the parsers accept: the digest they return is valid, so its hash is a plain path
  element, and it is written in the name after the keyword; they never panic on any name.
\<close>

theorem resource_name_sound:
  "parse_read_resource name \<noteq> Panic \<and> parse_write_resource name \<noteq> Panic \<and>
    (\<forall>d. parse_read_resource name = Ok d \<longrightarrow> validate (Some d) = Ok () \<and>
       (\<exists>pre sz post. split_on (CHR ''/'') name = pre @ ''blobs'' # d_hash d # sz # post \<and>
          parse_int64 sz = Ok (d_size d))) \<and>
    (\<forall>d. parse_write_resource name = Ok d \<longrightarrow> validate (Some d) = Ok () \<and>
       (\<exists>pre uuid sz post. split_on (CHR ''/'') name =
            pre @ ''uploads'' # uuid # ''blobs'' # d_hash d # sz # post \<and>
          parse_int64 sz = Ok (d_size d)))"
  using read_parts_sound [of name "split_on (CHR ''/'') name"]
    write_parts_sound [of name "split_on (CHR ''/'') name"]
  by (fastforce simp: parse_read_resource_def parse_write_resource_def)

theorem resource_name_sound_witness:
  "parse_read_resource (read_name [] zero_digest []) = Ok zero_digest \<and>
    (\<exists>pre sz post. split_on (CHR ''/'') (read_name [] zero_digest []) =
        pre @ ''blobs'' # d_hash zero_digest # sz # post \<and> parse_int64 sz = Ok (d_size zero_digest))"
proof -
  have "parse_read_resource (read_name [] zero_digest []) = Ok zero_digest"
    by (rule parse_read_name [OF zero_valid]) (simp_all add: segments_def)
  then show ?thesis
    using resource_name_sound [of "read_name [] zero_digest []"] by blast
qed

end
