(* ===== verification/MemStore.thy ===== *)
theory MemStore
  imports Cas
begin

text \<open>
  \<^verbatim>\<open>internal/cas/memstore.go\<close>: the in-memory store.  Each method holds the lock for its whole
  access to the maps, so a method is one step on the record of the two maps.  The copies the Go
  code makes of stored and returned slices make a blob a value, as it is here.
\<close>

record mem_store =
  ms_blobs :: "string \<rightharpoonup> bytes"
  ms_action :: "string \<rightharpoonup> bytes"

definition new_mem_store :: mem_store where
  "new_mem_store = \<lparr>ms_blobs = Map.empty, ms_action = Map.empty\<rparr>"

definition mem_contains :: "mem_store \<Rightarrow> digest_ptr \<Rightarrow> bool res \<times> mem_store" where
  "mem_contains m d =
     (if is_empty d then (Ok True, m)
      else (Ok (ms_blobs m (get_hash d) \<noteq> None), m))"

definition mem_get :: "mem_store \<Rightarrow> digest_ptr \<Rightarrow> bytes res \<times> mem_store" where
  "mem_get m d =
     (if is_empty d then (Ok [], m)
      else case ms_blobs m (get_hash d) of
             None \<Rightarrow> (Err ErrNotFound, m)
           | Some b \<Rightarrow> (Ok b, m))"

text \<open>
  The slice expressions of \<^verbatim>\<open>Reader\<close>: an offset past the end is clipped to the length, and a
  negative one is out of range, which panics.
\<close>

definition slice_from :: "bytes \<Rightarrow> int \<Rightarrow> bytes res" where
  "slice_from b offset =
     (if offset < 0 \<or> int (length b) < offset then Panic else Ok (drop (nat offset) b))"

definition mem_reader ::
    "mem_store \<Rightarrow> digest_ptr \<Rightarrow> int64 \<Rightarrow> int64 \<Rightarrow> reader res \<times> mem_store" where
  "mem_reader m d offset limit =
     (case mem_get m d of
        (Err e, m') \<Rightarrow> (Err e, m')
      | (Panic, m') \<Rightarrow> (Panic, m')
      | (Ok b, m') \<Rightarrow>
          (let off = (if sint offset > int (length b) then int (length b) else sint offset)
           in case slice_from b off of
                Err e \<Rightarrow> (Err e, m')
              | Panic \<Rightarrow> (Panic, m')
              | Ok b1 \<Rightarrow>
                  (let b2 = (if sint limit > 0 \<and> sint limit < int (length b1)
                             then take (nat (sint limit)) b1 else b1)
                   in (Ok (bytes_reader b2), m'))))"

definition mem_put :: "mem_store \<Rightarrow> digest_ptr \<Rightarrow> bytes \<Rightarrow> unit res \<times> mem_store" where
  "mem_put m d data =
     (if is_empty d then (Ok (), m)
      else (Ok (), m\<lparr>ms_blobs := (ms_blobs m)(get_hash d \<mapsto> data)\<rparr>))"

definition mem_put_stream ::
    "mem_store \<Rightarrow> digest_ptr \<Rightarrow> int64 \<Rightarrow> reader \<Rightarrow> unit res \<times> mem_store" where
  "mem_put_stream m d n r =
     (case read_all r of
        Err e \<Rightarrow> (Err e, m)
      | Panic \<Rightarrow> (Panic, m)
      | Ok data \<Rightarrow> mem_put m d data)"

definition mem_get_ar ::
    "codec \<Rightarrow> mem_store \<Rightarrow> digest_ptr \<Rightarrow> action_result res \<times> mem_store" where
  "mem_get_ar pb m d =
     (case ms_action m (get_hash d) of
        None \<Rightarrow> (Err ErrNotFound, m)
      | Some data \<Rightarrow> (of_ext (unmarshal_ar pb data), m))"

definition mem_put_ar ::
    "codec \<Rightarrow> mem_store \<Rightarrow> digest_ptr \<Rightarrow> action_result \<Rightarrow> unit res \<times> mem_store" where
  "mem_put_ar pb m d ar =
     (case marshal_ar pb ar of
        Inl e \<Rightarrow> (Err (Ext e), m)
      | Inr data \<Rightarrow> (Ok (), m\<lparr>ms_action := (ms_action m)(get_hash d \<mapsto> data)\<rparr>))"

definition mem_ops :: "codec \<Rightarrow> mem_store store" where
  "mem_ops pb =
     \<lparr>st_contains = mem_contains, st_get = mem_get, st_reader = mem_reader, st_put = mem_put,
      st_put_stream = mem_put_stream, st_get_ar = mem_get_ar pb, st_put_ar = mem_put_ar pb\<rparr>"

lemma mem_ops_sel [simp]:
  "st_contains (mem_ops pb) = mem_contains" "st_get (mem_ops pb) = mem_get"
  "st_reader (mem_ops pb) = mem_reader" "st_put (mem_ops pb) = mem_put"
  "st_put_stream (mem_ops pb) = mem_put_stream" "st_get_ar (mem_ops pb) = mem_get_ar pb"
  "st_put_ar (mem_ops pb) = mem_put_ar pb"
  by (simp_all add: mem_ops_def)

subsection \<open>The in-memory store implements the store contract\<close>

definition mem_view :: "mem_store \<Rightarrow> view" where
  "mem_view m = \<lparr>v_blobs = ms_blobs m, v_acs = ms_action m\<rparr>"

lemma mem_view_sel [simp]:
  "v_blobs (mem_view m) = ms_blobs m" "v_acs (mem_view m) = ms_action m"
  by (simp_all add: mem_view_def)

lemma mem_get_spec:
  "mem_get m d =
     ((case lookup_blob (mem_view m) d of None \<Rightarrow> Err ErrNotFound | Some b \<Rightarrow> Ok b), m)"
  by (simp add: mem_get_def lookup_blob_def split: option.split)

lemma mem_contains_spec: "mem_contains m d = (Ok (lookup_blob (mem_view m) d \<noteq> None), m)"
  by (simp add: mem_contains_def lookup_blob_def)

lemma mem_put_spec:
  "fst (mem_put m d b) = Ok ()" "mem_view (snd (mem_put m d b)) = put_blob (mem_view m) d b"
  by (simp_all add: mem_put_def put_blob_def mem_view_def)

lemma slice_window:
  assumes "0 \<le> sint off"
  shows "slice_from b (if sint off > int (length b) then int (length b) else sint off)
    = Ok (drop (nat (sint off)) b)"
  using assms by (auto simp: slice_from_def)

lemma mem_reader_present:
  assumes "lookup_blob (mem_view m) d = Some b" and "0 \<le> sint off"
  shows "mem_reader m d off lim = (Ok (bytes_reader (window off lim b)), m)"
  using assms(1)
  by (simp add: mem_reader_def mem_get_spec slice_window [OF assms(2)] window_def Let_def)

lemma mem_reader_absent:
  "lookup_blob (mem_view m) d = None \<Longrightarrow> mem_reader m d off lim = (Err ErrNotFound, m)"
  by (simp add: mem_reader_def mem_get_spec)

lemma mem_reader_negative:
  assumes "lookup_blob (mem_view m) d = Some b" and "sint off < 0"
  shows "fst (mem_reader m d off lim) = Panic"
  using assms by (simp add: mem_reader_def mem_get_spec slice_from_def Let_def)

lemma mem_reader_law:
  assumes "good_range off lim" and "mem_reader m d off lim = (r, m')"
  shows "m' = m \<and> r \<noteq> Panic \<and>
     (\<forall>rd. r = Ok rd \<longrightarrow> (\<exists>b. lookup_blob (mem_view m) d = Some b \<and>
            (\<forall>x. read_all rd = Ok x \<longrightarrow> x = window off lim b))) \<and>
     (not_found r \<longrightarrow> lookup_blob (mem_view m) d = None)"
proof (cases "lookup_blob (mem_view m) d")
  case None
  with assms(2) show ?thesis by (auto simp: mem_reader_absent)
next
  case (Some b)
  moreover have "0 \<le> sint off" using assms(1) by (simp add: good_range_def)
  ultimately show ?thesis using assms(2) by (auto simp: mem_reader_present)
qed

interpretation mem: reliable_store "mem_ops pb" pb "\<lambda>_. True" "\<lambda>_. True" mem_view
  for pb :: codec
proof (unfold_locales, goal_cases)
  case (2 s d rc s')
  then show ?case by (auto simp: mem_contains_spec)
next
  case (3 s d rg s')
  then show ?case by (auto simp: mem_get_spec split: option.splits)
next
  case (4 s d off lim rr s')
  then show ?case by (auto dest!: mem_reader_law)
next
  case (5 s d b ru s')
  then show ?case using mem_put_spec [of s d b] by auto
next
  case (6 s d n rd ru s' b)
  then show ?case using mem_put_spec [of s d b] by (auto simp: mem_put_stream_def)
next
  case (7 s d ra s')
  then show ?case by (auto simp: mem_get_ar_def split: option.splits)
next
  case (8 s d ar ru s')
  then show ?case by (auto simp: mem_put_ar_def put_ac_def mem_view_def split: sum.splits)
next
  case (9 s d)
  then show ?case by (simp add: mem_contains_spec)
next
  case (10 s d)
  then show ?case by (auto simp: mem_get_spec split: option.splits)
next
  case (11 s d)
  then show ?case by (simp add: mem_get_spec)
next
  case (12 s d b)
  then show ?case by (simp add: mem_put_spec)
next
  case (13 s d rd n)
  then show ?case by (auto simp: mem_put_stream_def mem_put_spec is_ok_iff)
next
  case (14 s d b ar)
  then show ?case by (simp add: mem_get_ar_def)
next
  case (15 s d ar b)
  then show ?case by (auto simp: mem_put_ar_def)
qed simp

subsection \<open>Properties\<close>

text \<open>
  The in-memory store implements its specification, a map of blobs and a map of serialized
  action results keyed by hash: each operation answers from the map and has exactly its effect
  on it, the empty blob being always present and never stored.
\<close>

theorem mem_store_refines:
  "mem_contains m d = (Ok (lookup_blob (mem_view m) d \<noteq> None), m) \<and>
    mem_get m d = ((case lookup_blob (mem_view m) d of None \<Rightarrow> Err ErrNotFound | Some b \<Rightarrow> Ok b), m) \<and>
    fst (mem_put m d b) = Ok () \<and> mem_view (snd (mem_put m d b)) = put_blob (mem_view m) d b \<and>
    (\<forall>x. marshal_ar pb ar = Inr x \<longrightarrow> fst (mem_put_ar pb m d ar) = Ok () \<and>
      mem_view (snd (mem_put_ar pb m d ar)) = put_ac (mem_view m) d x)"
  by (simp add: mem_contains_spec mem_get_spec mem_put_spec mem_put_ar_def put_ac_def)

definition one_result :: action_result where
  "one_result = \<lparr>ar_output_files = [], ar_output_directories = [], ar_output_symlinks = [],
     ar_exit_code = 0, ar_stdout_digest = None, ar_stderr_digest = None, ar_metadata = None\<rparr>"

definition one_codec :: codec where
  "one_codec = table_codec [] [] [one_result] [] []"

theorem mem_store_refines_witness:
  "fst (mem_put_ar one_codec new_mem_store (Some zero_digest) one_result) = Ok () \<and>
    mem_view (snd (mem_put_ar one_codec new_mem_store (Some zero_digest) one_result)) =
      put_ac (mem_view new_mem_store) (Some zero_digest) []"
  using mem_store_refines [of new_mem_store "Some zero_digest" "[]" one_codec one_result]
  by (simp add: one_codec_def table_encode_def)

text \<open>
  Reading at an offset and limit: for any offset that is not negative the reader delivers
  the window of the blob, and fails only for an absent blob.
\<close>

theorem mem_reader_window:
  assumes "0 \<le> sint off"
  shows "mem_reader m d off lim =
    ((case lookup_blob (mem_view m) d of
        None \<Rightarrow> Err ErrNotFound
      | Some b \<Rightarrow> Ok (bytes_reader (window off lim b))), m)"
  using assms by (simp add: mem_reader_present mem_reader_absent split: option.split)

theorem mem_reader_window_witness:
  "mem_reader (new_mem_store\<lparr>ms_blobs := [''aa'' \<mapsto> [1, 2, 3]]\<rparr>) (Some \<lparr>d_hash = ''aa'', d_size = 3\<rparr>) 1 1 =
    ((case lookup_blob (mem_view (new_mem_store\<lparr>ms_blobs := [''aa'' \<mapsto> [1, 2, 3]]\<rparr>))
         (Some \<lparr>d_hash = ''aa'', d_size = 3\<rparr>) of
        None \<Rightarrow> Err ErrNotFound
      | Some b \<Rightarrow> Ok (bytes_reader (window 1 1 b))), new_mem_store\<lparr>ms_blobs := [''aa'' \<mapsto> [1, 2, 3]]\<rparr>)"
  by (rule mem_reader_window) simp

end
