(* ===== verification/CasService.thy ===== *)
theory CasService
  imports Resource MemStore
begin

text \<open>
  The ContentAddressableStorage service and \<^verbatim>\<open>QueryWriteStatus\<close>
  (\<^verbatim>\<open>internal/server/cas_service.go\<close>).  The handlers take the store as the record of its
  methods with its state.  \<^verbatim>\<open>FindMissingBlobs\<close> is in theory \<open>FindMissing\<close>, \<^verbatim>\<open>GetTree\<close> in \<open>GetTree\<close>.
\<close>

subsection \<open>BatchUpdateBlobs\<close>

definition put_one :: "'s store \<Rightarrow> 's \<Rightarrow> digest_ptr \<Rightarrow> bytes \<Rightarrow> rpc_status res \<times> 's" where
  "put_one st s d data =
     (case validate d of
        Err e \<Rightarrow> (Ok (status_proto InvalidArgument e), s)
      | Panic \<Rightarrow> (Panic, s)
      | Ok _ \<Rightarrow>
          if (of_nat (length data) :: int64) \<noteq> get_size d then
            (Ok (status_proto InvalidArgument
                   (Errorf ''size mismatch: digest says %d, got %d bytes''
                      [show_int64 (get_size d), dec (length data)])), s)
          else if d_hash (from_bytes data) \<noteq> get_hash d then
            (Ok (status_proto InvalidArgument
                   (Errorf ''hash mismatch: digest says %s, computed %s''
                      [get_hash d, d_hash (from_bytes data)])), s)
          else (case st_put st s d data of
                  (Err e, s') \<Rightarrow> (Ok (status_proto Internal e), s')
                | (Panic, s') \<Rightarrow> (Panic, s')
                | (Ok _, s') \<Rightarrow> (Ok (status_proto OK empty_message), s')))"

text \<open>A request is a pair of digest and data, a response a pair of digest and status.\<close>

fun batch_update ::
    "'s store \<Rightarrow> 's \<Rightarrow> (digest_ptr \<times> bytes) list \<Rightarrow> (digest_ptr \<times> rpc_status) list res \<times> 's" where
  "batch_update st s [] = (Ok [], s)"
| "batch_update st s ((d, data) # rs) =
     (case put_one st s d data of
        (Ok status, s1) \<Rightarrow>
          (case batch_update st s1 rs of
             (Ok resps, s2) \<Rightarrow> (Ok ((d, status) # resps), s2)
           | (Err e, s2) \<Rightarrow> (Err e, s2)
           | (Panic, s2) \<Rightarrow> (Panic, s2))
      | (Err e, s1) \<Rightarrow> (Err e, s1)
      | (Panic, s1) \<Rightarrow> (Panic, s1))"

subsection \<open>BatchReadBlobs\<close>

record read_response =
  rr_digest :: digest_ptr
  rr_data :: bytes
  rr_status :: rpc_status

definition read_one :: "'s store \<Rightarrow> 's \<Rightarrow> digest_ptr \<Rightarrow> read_response res \<times> 's" where
  "read_one st s d =
     (case st_get st s d of
        (Err e, s') \<Rightarrow>
          (Ok \<lparr>rr_digest = d, rr_data = [],
               rr_status = (if error_is e ErrNotFound
                            then status_proto NotFound (Errorf ''blob not found'' [])
                            else status_proto Internal e)\<rparr>, s')
      | (Panic, s') \<Rightarrow> (Panic, s')
      | (Ok data, s') \<Rightarrow>
          (Ok \<lparr>rr_digest = d, rr_data = data, rr_status = status_proto OK empty_message\<rparr>, s'))"

fun batch_read :: "'s store \<Rightarrow> 's \<Rightarrow> digest_ptr list \<Rightarrow> read_response list res \<times> 's" where
  "batch_read st s [] = (Ok [], s)"
| "batch_read st s (d # ds) =
     (case read_one st s d of
        (Ok r, s1) \<Rightarrow>
          (case batch_read st s1 ds of
             (Ok rs, s2) \<Rightarrow> (Ok (r # rs), s2)
           | (Err e, s2) \<Rightarrow> (Err e, s2)
           | (Panic, s2) \<Rightarrow> (Panic, s2))
      | (Err e, s1) \<Rightarrow> (Err e, s1)
      | (Panic, s1) \<Rightarrow> (Panic, s1))"

subsection \<open>QueryWriteStatus\<close>

record write_status =
  ws_committed :: int64
  ws_complete :: bool

definition query_write_status :: "'s store \<Rightarrow> 's \<Rightarrow> string \<Rightarrow> write_status res \<times> 's" where
  "query_write_status st s name =
     (case parse_write_resource name of
        Err e \<Rightarrow> (Err (StatusErr InvalidArgument ''%v'' [] (Some e)), s)
      | Panic \<Rightarrow> (Panic, s)
      | Ok d \<Rightarrow>
          (case st_contains st s (Some d) of
             (Err e, s') \<Rightarrow> (Err (StatusErr Internal ''%v'' [] (Some e)), s')
           | (Panic, s') \<Rightarrow> (Panic, s')
           | (Ok b, s') \<Rightarrow>
               if b then (Ok \<lparr>ws_committed = d_size d, ws_complete = True\<rparr>, s')
               else (Ok \<lparr>ws_committed = 0, ws_complete = False\<rparr>, s')))"

declare put_one_def [handler_defs] read_one_def [handler_defs] query_write_status_def [handler_defs]

subsection \<open>What the batch calls do\<close>

text \<open>The requests \<^verbatim>\<open>putOne\<close> stores: the digest is valid and is the one of the data.\<close>

definition blob_matches :: "digest_ptr \<Rightarrow> bytes \<Rightarrow> bool" where
  "blob_matches d data \<longleftrightarrow>
     validate d = Ok () \<and> of_nat (length data) = get_size d \<and> hex_encode (sha256 data) = get_hash d"

lemma put_one_rejects:
  "\<not> blob_matches d data \<Longrightarrow>
    \<exists>m. put_one st s d data = (Ok (status_proto InvalidArgument m), s)"
  by (cases "validate d") (auto simp: put_one_def blob_matches_def)

lemma put_one_accepts:
  "blob_matches d data \<Longrightarrow>
    put_one st s d data =
      (case st_put st s d data of
         (Err e, s') \<Rightarrow> (Ok (status_proto Internal e), s')
       | (Panic, s') \<Rightarrow> (Panic, s')
       | (Ok _, s') \<Rightarrow> (Ok (status_proto OK empty_message), s'))"
  by (simp add: put_one_def blob_matches_def)

text \<open>The abstract effect of a batch of updates on the view of the store.\<close>

fun apply_updates :: "view \<Rightarrow> (digest_ptr \<times> bytes) list \<Rightarrow> view" where
  "apply_updates v [] = v"
| "apply_updates v ((d, data) # rs) =
     apply_updates (if blob_matches d data then put_blob v d data else v) rs"

lemma content_addressed_updates:
  "content_addressed v \<Longrightarrow> content_addressed (apply_updates v rs)"
  by (induction v rs rule: apply_updates.induct)
     (auto simp: blob_matches_def content_addressed_put)

lemma lookup_put_mono: "lookup_blob v d \<noteq> None \<Longrightarrow> lookup_blob (put_blob v d' b) d \<noteq> None"
  by (auto simp: lookup_blob_def put_blob_def)

lemma updates_mono: "lookup_blob v d \<noteq> None \<Longrightarrow> lookup_blob (apply_updates v rs) d \<noteq> None"
proof (induction v rs rule: apply_updates.induct)
  case (2 v d' data rs)
  then show ?case using lookup_put_mono [of v d d' data] by auto
qed simp

lemma lookup_put_self: "lookup_blob (put_blob v d b) d \<noteq> None"
  by (simp add: lookup_put_same)

lemma updates_present:
  "(d, data) \<in> set rs \<Longrightarrow> blob_matches d data \<Longrightarrow> lookup_blob (apply_updates v rs) d \<noteq> None"
proof (induction v rs rule: apply_updates.induct)
  case (2 v d' data' rs)
  then show ?case
    using updates_mono [OF lookup_put_self, of v d data rs] by auto
qed simp

text \<open>In a content-addressed store a lookup gives bytes with the digest's hash.\<close>

lemma lookup_hash:
  assumes "content_addressed v" "lookup_blob v d = Some b"
  shows "hex_encode (sha256 b) = get_hash d"
  using assms
  by (auto simp: lookup_blob_def content_addressed_def is_empty_eq sha256_empty empty_digest_def
      split: if_splits)

context blob_store
begin

lemma put_one_step:
  assumes "inv s" "put_one st s d data = (r, s')"
  shows "inv s' \<and> (\<exists>status. r = Ok status \<and>
      st_code status \<in> {OK, InvalidArgument, Internal} \<and>
      (st_code status = InvalidArgument \<longleftrightarrow> \<not> blob_matches d data) \<and>
      (st_code status = OK \<longrightarrow> vw s' = put_blob (vw s) d data)) \<and>
    (vw s' = vw s \<or> blob_matches d data \<and> vw s' = put_blob (vw s) d data)"
proof (cases "blob_matches d data")
  case False
  then show ?thesis
    using put_one_rejects [of d data st s] assms by auto
next
  case True
  then have d: "okd d" by (simp add: valid_okd blob_matches_def)
  obtain ru s1 where p: "st_put st s d data = (ru, s1)" by fastforce
  show ?thesis
    using put_law [OF assms(1) d p] assms(2) True
    by (cases ru) (auto simp: put_one_accepts p)
qed

lemma put_one_content_addressed:
  assumes "inv s" "content_addressed (vw s)" "put_one st s d data = (r, s')"
  shows "content_addressed (vw s')"
  using put_one_step [OF assms(1,3)] assms(2)
  by (auto simp: blob_matches_def intro: content_addressed_put)

lemma batch_update_inv:
  "inv s \<Longrightarrow> batch_update st s rs = (r, s') \<Longrightarrow>
    inv s' \<and> (\<exists>resps. r = Ok resps \<and> map fst resps = map fst rs \<and>
      list_all2 (\<lambda>(d, data) (d', status). st_code status = InvalidArgument \<longleftrightarrow> \<not> blob_matches d data)
        rs resps)"
proof (induction rs arbitrary: s r s')
  case Nil
  then show ?case by simp
next
  case (Cons q rs)
  obtain d data where q: "q = (d, data)" by (cases q)
  obtain r1 s1 where p: "put_one st s d data = (r1, s1)" by fastforce
  obtain r2 s2 where b: "batch_update st s1 rs = (r2, s2)" by fastforce
  show ?case
    using put_one_step [OF Cons.prems(1) p] Cons.IH [OF _ b] Cons.prems(2)
    by (auto simp: q p b)
qed

lemma batch_update_content_addressed:
  "inv s \<Longrightarrow> content_addressed (vw s) \<Longrightarrow> batch_update st s rs = (r, s') \<Longrightarrow> content_addressed (vw s')"
proof (induction rs arbitrary: s r s')
  case Nil
  then show ?case by simp
next
  case (Cons q rs)
  obtain d data where q: "q = (d, data)" by (cases q)
  obtain r1 s1 where p: "put_one st s d data = (r1, s1)" by fastforce
  obtain r2 s2 where b: "batch_update st s1 rs = (r2, s2)" by fastforce
  have "s' = s2"
    using put_one_step [OF Cons.prems(1) p] Cons.prems(3)
    by (auto simp: q p b split: res.splits)
  then show ?case
    using Cons.IH [OF _ _ b] put_one_step [OF Cons.prems(1) p]
      put_one_content_addressed [OF Cons.prems(1,2) p] by blast
qed

lemma read_one_step:
  assumes "inv s" "okd d" "read_one st s d = (r, s')"
  shows "inv s' \<and> vw s' = vw s \<and> (\<exists>x. r = Ok x \<and> rr_digest x = d \<and>
      st_code (rr_status x) \<in> {OK, NotFound, Internal} \<and>
      (st_code (rr_status x) = OK \<longrightarrow> lookup_blob (vw s) d = Some (rr_data x)) \<and>
      (st_code (rr_status x) = NotFound \<longrightarrow> lookup_blob (vw s) d = None))"
proof -
  obtain rg s1 where g: "st_get st s d = (rg, s1)" by fastforce
  show ?thesis
    using get_law [OF assms(1,2) g] assms(3)
    by (cases rg) (auto simp: read_one_def g split: if_splits)
qed

lemma batch_read_law:
  "inv s \<Longrightarrow> \<forall>d \<in> set ds. okd d \<Longrightarrow> batch_read st s ds = (r, s') \<Longrightarrow>
    inv s' \<and> vw s' = vw s \<and> (\<exists>rs. r = Ok rs \<and> map rr_digest rs = ds \<and>
      (\<forall>x \<in> set rs. st_code (rr_status x) \<in> {OK, NotFound, Internal} \<and>
        (st_code (rr_status x) = OK \<longrightarrow> lookup_blob (vw s) (rr_digest x) = Some (rr_data x)) \<and>
        (st_code (rr_status x) = NotFound \<longrightarrow> lookup_blob (vw s) (rr_digest x) = None)))"
proof (induction ds arbitrary: s r s')
  case Nil
  then show ?case by auto
next
  case (Cons d ds)
  obtain r1 s1 where p: "read_one st s d = (r1, s1)" by fastforce
  obtain r2 s2 where b: "batch_read st s1 ds = (r2, s2)" by fastforce
  have d: "okd d" "\<forall>d \<in> set ds. okd d" using Cons.prems(2) by simp_all
  obtain x where one: "inv s1" "vw s1 = vw s" "r1 = Ok x" "rr_digest x = d"
    "st_code (rr_status x) \<in> {OK, NotFound, Internal}"
    "st_code (rr_status x) = OK \<longrightarrow> lookup_blob (vw s) d = Some (rr_data x)"
    "st_code (rr_status x) = NotFound \<longrightarrow> lookup_blob (vw s) d = None"
    using read_one_step [OF Cons.prems(1) d(1) p] by blast
  show ?case
    using Cons.IH [OF one(1) d(2) b] Cons.prems(3) one
    by (auto simp: p b)
qed

end

context reliable_store
begin

lemma put_one_total:
  assumes "inv s" "put_one st s d data = (r, s')"
  shows "inv s' \<and> vw s' = (if blob_matches d data then put_blob (vw s) d data else vw s) \<and>
    (\<exists>status. r = Ok status \<and> (st_code status = OK \<longleftrightarrow> blob_matches d data))"
proof (cases "blob_matches d data")
  case False
  then show ?thesis
    using put_one_rejects [of d data st s] assms by auto
next
  case True
  then have d: "okd d" by (simp add: valid_okd blob_matches_def)
  obtain ru s1 where p: "st_put st s d data = (ru, s1)" by fastforce
  show ?thesis
    using put_law [OF assms(1) d p] put_total [OF assms(1) d, of data] assms(2) True
    by (auto simp: put_one_accepts p)
qed

text \<open>A batch of updates implements \<open>apply_updates\<close>, whatever the mix of good and bad requests.\<close>

lemma batch_update_refines:
  "inv s \<Longrightarrow> batch_update st s rs = (r, s') \<Longrightarrow>
    inv s' \<and> vw s' = apply_updates (vw s) rs \<and>
    (\<exists>resps. r = Ok resps \<and> map fst resps = map fst rs \<and>
      map (\<lambda>x. st_code (snd x) = OK) resps = map (\<lambda>(d, data). blob_matches d data) rs)"
proof (induction rs arbitrary: s r s')
  case Nil
  then show ?case by simp
next
  case (Cons q rs)
  obtain d data where q: "q = (d, data)" by (cases q)
  obtain r1 s1 where p: "put_one st s d data = (r1, s1)" by fastforce
  obtain r2 s2 where b: "batch_update st s1 rs = (r2, s2)" by fastforce
  obtain status where one: "inv s1" "r1 = Ok status" "st_code status = OK \<longleftrightarrow> blob_matches d data"
    "vw s1 = (if blob_matches d data then put_blob (vw s) d data else vw s)"
    using put_one_total [OF Cons.prems(1) p] by blast
  obtain resps where rest: "inv s2" "vw s2 = apply_updates (vw s1) rs" "r2 = Ok resps"
    "map fst resps = map fst rs"
    "map (\<lambda>x. st_code (snd x) = OK) resps = map (\<lambda>(d, data). blob_matches d data) rs"
    using Cons.IH [OF one(1) b] by blast
  have r: "s' = s2" "r = Ok ((d, status) # resps)"
    using Cons.prems(2) one(2) rest(3) by (simp_all add: q p b)
  show ?case
    unfolding r q using one(3) rest by (simp add: one(4))
qed

lemma read_one_total:
  assumes "inv s" "okd d"
  shows "\<exists>s'. inv s' \<and> vw s' = vw s \<and> read_one st s d =
    (Ok (case lookup_blob (vw s) d of
           None \<Rightarrow> \<lparr>rr_digest = d, rr_data = [],
                    rr_status = status_proto NotFound (Errorf ''blob not found'' [])\<rparr>
         | Some b \<Rightarrow> \<lparr>rr_digest = d, rr_data = b, rr_status = status_proto OK empty_message\<rparr>), s')"
proof -
  obtain rg s1 where g: "st_get st s d = (rg, s1)" by fastforce
  then have rg: "rg = (case lookup_blob (vw s) d of None \<Rightarrow> Err ErrNotFound | Some b \<Rightarrow> Ok b)"
    using get_iff_present [OF assms] by simp
  have "inv s1" "vw s1 = vw s" using get_law [OF assms g] by blast+
  with rg show ?thesis
    by (cases "lookup_blob (vw s) d") (auto simp: read_one_def g)
qed

lemma batch_read_total:
  "inv s \<Longrightarrow> \<forall>d \<in> set ds. okd d \<Longrightarrow>
    fst (batch_read st s ds) =
    Ok (map (\<lambda>d. case lookup_blob (vw s) d of
           None \<Rightarrow> \<lparr>rr_digest = d, rr_data = [],
                    rr_status = status_proto NotFound (Errorf ''blob not found'' [])\<rparr>
         | Some b \<Rightarrow> \<lparr>rr_digest = d, rr_data = b, rr_status = status_proto OK empty_message\<rparr>) ds)"
proof (induction ds arbitrary: s)
  case (Cons d ds)
  from Cons.prems obtain s1 where one: "inv s1" "vw s1 = vw s"
    and r: "read_one st s d = (Ok (case lookup_blob (vw s) d of
           None \<Rightarrow> \<lparr>rr_digest = d, rr_data = [],
                    rr_status = status_proto NotFound (Errorf ''blob not found'' [])\<rparr>
         | Some b \<Rightarrow> \<lparr>rr_digest = d, rr_data = b, rr_status = status_proto OK empty_message\<rparr>), s1)"
    using read_one_total [of s d] by auto
  obtain r2 s2 where b: "batch_read st s1 ds = (r2, s2)" by fastforce
  show ?case
    using Cons.IH [OF one(1)] Cons.prems(2) one(2) by (simp add: r b)
qed simp

end

subsection \<open>What QueryWriteStatus answers\<close>

context blob_store
begin

lemma query_write_status_law:
  assumes "inv s" "query_write_status st s name = (r, s')"
  shows "inv s' \<and> vw s' = vw s \<and> r \<noteq> Panic \<and>
    (\<forall>x. r = Ok x \<longrightarrow> (\<exists>d. parse_write_resource name = Ok d \<and>
       ws_complete x = (lookup_blob (vw s) (Some d) \<noteq> None) \<and>
       ws_committed x = (if ws_complete x then d_size d else 0)))"
proof (cases "parse_write_resource name")
  case (Ok d)
  have d: "okd (Some d)" by (rule valid_okd [OF parse_write_valid [OF Ok]])
  obtain rc s1 where c: "st_contains st s (Some d) = (rc, s1)" by fastforce
  show ?thesis
    using contains_law [OF assms(1) d c] assms(2)
    by (cases rc) (auto simp: query_write_status_def Ok c split: if_splits)
qed (use assms in \<open>auto simp: query_write_status_def\<close>)

end

subsection \<open>Examples\<close>

text \<open>A batch of a good request, one whose size and one whose hash is wrong.\<close>

definition mixed_batch :: "(digest_ptr \<times> bytes) list" where
  "mixed_batch =
     [(Some zero_digest, [0]), (Some zero_digest, [0, 0]),
      (Some \<lparr>d_hash = empty_hash, d_size = 1\<rparr>, [0])]"

lemma zero_hash: "hex_encode (sha256 [0]) = d_hash zero_digest"
  using from_bytes_zero by (simp add: from_bytes_def zero_digest_def)

lemma zero_matches [simp]: "blob_matches (Some zero_digest) [0]"
  using valid_hash_sha256 [of "[0]"] zero_hash
  by (simp add: blob_matches_def validate_ok) (simp add: zero_digest_def)

lemma mixed_rejects [simp]:
  "\<not> blob_matches (Some zero_digest) [0, 0]"
  "\<not> blob_matches (Some \<lparr>d_hash = empty_hash, d_size = 1\<rparr>) [0]"
  by (auto simp: blob_matches_def zero_hash) (simp_all add: zero_digest_def empty_hash_def)

definition zero_store :: mem_store where
  "zero_store = new_mem_store\<lparr>ms_blobs := [d_hash zero_digest \<mapsto> [0]]\<rparr>"

lemma new_store_addressed: "content_addressed (mem_view new_mem_store)"
  by (simp add: content_addressed_def new_mem_store_def)

definition example_codec :: codec where
  "example_codec = table_codec [] [] [] [] []"

subsection \<open>Properties\<close>

text \<open>
  C23.  \<^verbatim>\<open>BatchUpdateBlobs\<close> over any store that meets the contract, even one whose calls fail: it
  answers every request in order, with \<^verbatim>\<open>InvalidArgument\<close> exactly for data that is not the
  digest's (or an invalid digest), and it keeps the store content-addressed.
\<close>

theorem batch_update_keeps_addressing:
  assumes "blob_store st pb si okd vw" and "si s" and "content_addressed (vw s)"
    and "batch_update st s rs = (r, s')"
  shows "content_addressed (vw s') \<and> (\<exists>resps. r = Ok resps \<and> map fst resps = map fst rs \<and>
    list_all2 (\<lambda>(d, data) (d', status). st_code status = InvalidArgument \<longleftrightarrow> \<not> blob_matches d data)
      rs resps)"
  using blob_store.batch_update_content_addressed [OF assms]
    blob_store.batch_update_inv [OF assms(1,2,4)] by blast

theorem batch_update_keeps_addressing_witness:
  "\<exists>r s'. batch_update (mem_ops example_codec) new_mem_store mixed_batch = (r, s') \<and>
    content_addressed (mem_view s') \<and> (\<exists>resps. r = Ok resps \<and> map fst resps = map fst mixed_batch \<and>
    list_all2 (\<lambda>(d, data) (d', status). st_code status = InvalidArgument \<longleftrightarrow> \<not> blob_matches d data)
      mixed_batch resps)"
proof -
  obtain r s' where b: "batch_update (mem_ops example_codec) new_mem_store mixed_batch = (r, s')"
    by fastforce
  then show ?thesis
    using batch_update_keeps_addressing [OF mem.blob_store_axioms _ new_store_addressed b] by blast
qed

text \<open>
  Over the in-memory store \<^verbatim>\<open>BatchUpdateBlobs\<close> refines the abstract update of the view, which
  puts each matching blob and skips the others, and answers \<^verbatim>\<open>OK\<close> exactly for the blobs put.
\<close>

lemma batch_update_refines_spec:
  "mem_view (snd (batch_update (mem_ops pb) m rs)) = apply_updates (mem_view m) rs \<and>
    (\<exists>resps. fst (batch_update (mem_ops pb) m rs) = Ok resps \<and> map fst resps = map fst rs \<and>
      map (\<lambda>x. st_code (snd x) = OK) resps = map (\<lambda>(d, data). blob_matches d data) rs)"
proof -
  obtain r m' where b: "batch_update (mem_ops pb) m rs = (r, m')" by fastforce
  show ?thesis using mem.batch_update_refines [OF _ b] b by simp
qed

text \<open>
  A batch of updates followed by a batch of reads: every digest whose data was accepted is
  answered \<^verbatim>\<open>OK\<close> with data that has the digest's hash.
\<close>

theorem update_then_read:
  assumes "content_addressed (mem_view m)" and "(d, data) \<in> set rs" and "blob_matches d data"
    and "d \<in> set ds"
  shows "\<exists>m' resps outs x. batch_update (mem_ops pb) m rs = (Ok resps, m') \<and>
    fst (batch_read (mem_ops pb) m' ds) = Ok outs \<and> map rr_digest outs = ds \<and>
    x \<in> set outs \<and> rr_digest x = d \<and> st_code (rr_status x) = OK \<and>
    hex_encode (sha256 (rr_data x)) = get_hash d"
proof -
  obtain r m' where b: "batch_update (mem_ops pb) m rs = (r, m')" by fastforce
  from mem.batch_update_refines [OF _ b] obtain resps
    where r: "r = Ok resps" and v: "mem_view m' = apply_updates (mem_view m) rs" by auto
  obtain bs where bs: "lookup_blob (mem_view m') d = Some bs"
    using updates_present [OF assms(2,3), of "mem_view m"] v by auto
  have addr: "content_addressed (mem_view m')"
    using content_addressed_updates [OF assms(1)] v by simp
  obtain outs where outs: "fst (batch_read (mem_ops pb) m' ds) = Ok outs"
    and o: "outs = map (\<lambda>d. case lookup_blob (mem_view m') d of
           None \<Rightarrow> \<lparr>rr_digest = d, rr_data = [],
                    rr_status = status_proto NotFound (Errorf ''blob not found'' [])\<rparr>
         | Some b \<Rightarrow> \<lparr>rr_digest = d, rr_data = b, rr_status = status_proto OK empty_message\<rparr>) ds"
    using mem.batch_read_total [where s = m' and ds = ds and pb = pb] by simp
  have "map rr_digest outs = ds"
    unfolding o by (induction ds) (auto split: option.split)
  moreover have "\<lparr>rr_digest = d, rr_data = bs, rr_status = status_proto OK empty_message\<rparr> \<in> set outs"
    unfolding o using assms(4) bs by force
  ultimately show ?thesis
    using b r outs lookup_hash [OF addr bs]
    by (intro exI [of _ m'] exI [of _ resps] exI [of _ outs] exI
        [of _ "\<lparr>rr_digest = d, rr_data = bs, rr_status = status_proto OK empty_message\<rparr>"]) simp
qed

theorem update_then_read_witness:
  "\<exists>m' resps outs x. batch_update (mem_ops example_codec) new_mem_store mixed_batch = (Ok resps, m') \<and>
    fst (batch_read (mem_ops example_codec) m' [None, Some zero_digest]) = Ok outs \<and>
    map rr_digest outs = [None, Some zero_digest] \<and>
    x \<in> set outs \<and> rr_digest x = Some zero_digest \<and> st_code (rr_status x) = OK \<and>
    hex_encode (sha256 (rr_data x)) = get_hash (Some zero_digest)"
  by (rule update_then_read [OF new_store_addressed, of _ "[0]"]) (simp_all add: mixed_batch_def)

text \<open>
  \<^verbatim>\<open>BatchReadBlobs\<close> over any store that meets the contract: one response per digest, in order;
  \<^verbatim>\<open>OK\<close> carries the stored bytes, \<^verbatim>\<open>NotFound\<close> is answered only for an absent blob, and nothing is
  changed.
\<close>

theorem batch_read_sound:
  assumes "blob_store st pb si okd vw" and "si s" and "\<forall>d \<in> set ds. okd d"
    and "batch_read st s ds = (r, s')"
  shows "vw s' = vw s \<and> (\<exists>rs. r = Ok rs \<and> map rr_digest rs = ds \<and>
    (\<forall>x \<in> set rs. st_code (rr_status x) \<in> {OK, NotFound, Internal} \<and>
      (st_code (rr_status x) = OK \<longrightarrow> lookup_blob (vw s) (rr_digest x) = Some (rr_data x)) \<and>
      (st_code (rr_status x) = NotFound \<longrightarrow> lookup_blob (vw s) (rr_digest x) = None)))"
  using blob_store.batch_read_law [OF assms] by blast

theorem batch_read_sound_witness:
  "\<exists>r s'. batch_read (mem_ops example_codec) zero_store [None, Some zero_digest] = (r, s') \<and>
    mem_view s' = mem_view zero_store \<and>
    (\<exists>rs. r = Ok rs \<and> map rr_digest rs = [None, Some zero_digest] \<and>
    (\<forall>x \<in> set rs. st_code (rr_status x) \<in> {OK, NotFound, Internal} \<and>
      (st_code (rr_status x) = OK \<longrightarrow>
        lookup_blob (mem_view zero_store) (rr_digest x) = Some (rr_data x)) \<and>
      (st_code (rr_status x) = NotFound \<longrightarrow> lookup_blob (mem_view zero_store) (rr_digest x) = None)))"
proof -
  obtain r s' where b: "batch_read (mem_ops example_codec) zero_store [None, Some zero_digest] = (r, s')"
    by fastforce
  show ?thesis
    by (rule exI [of _ r], rule exI [of _ s'], rule conjI [OF b],
        rule batch_read_sound [OF mem.blob_store_axioms _ _ b]) simp_all
qed

text \<open>
  \<^verbatim>\<open>QueryWriteStatus\<close> over any store that meets the contract: an answer says complete exactly
  when the blob of the upload's digest is present, and commits its declared size or nothing.
\<close>

theorem query_write_status_sound:
  assumes "blob_store st pb si okd vw" and "si s" and "query_write_status st s name = (Ok x, s')"
  shows "vw s' = vw s \<and> (\<exists>d. parse_write_resource name = Ok d \<and>
    ws_complete x = (lookup_blob (vw s) (Some d) \<noteq> None) \<and>
    ws_committed x = (if ws_complete x then d_size d else 0))"
  using blob_store.query_write_status_law [OF assms] by blast

theorem query_write_status_sound_witness:
  "mem_view zero_store = mem_view zero_store \<and>
    (\<exists>d. parse_write_resource (write_name [] ''u'' zero_digest []) = Ok d \<and>
      ws_complete \<lparr>ws_committed = 1, ws_complete = True\<rparr> =
        (lookup_blob (mem_view zero_store) (Some d) \<noteq> None) \<and>
      ws_committed \<lparr>ws_committed = 1, ws_complete = True\<rparr> =
        (if ws_complete \<lparr>ws_committed = 1, ws_complete = True\<rparr> then d_size d else 0))"
proof (rule query_write_status_sound [OF mem.blob_store_axioms])
  have "validate (Some zero_digest) = Ok ()" using zero_matches by (simp add: blob_matches_def)
  then have "parse_write_resource (write_name [] ''u'' zero_digest []) = Ok zero_digest"
    by (rule parse_write_name) (simp_all add: segments_def)
  then show "query_write_status (mem_ops example_codec) zero_store (write_name [] ''u'' zero_digest []) =
      (Ok \<lparr>ws_committed = 1, ws_complete = True\<rparr>, zero_store)"
    by (simp add: query_write_status_def mem_contains_def zero_store_def) (simp add: zero_digest_def)
qed simp

end
