(* ===== verification/GetTree.thy ===== *)
theory GetTree
  imports CasService
begin

text \<open>
  \<^verbatim>\<open>GetTree\<close> of \<^verbatim>\<open>internal/server/cas_service.go\<close>.  The loop takes directories off a queue until
  it is empty, which a stored cycle never lets happen: it is a partial function whose value
  \<open>None\<close> means that the handler does not return.
\<close>

definition tree_page_size :: nat where
  "tree_page_size = 100"

text \<open>A result is the error of the handler with the pages it sent, and the store afterwards.\<close>

type_synonym 's tree_result = "(unit res \<times> directory list list) \<times> 's"

definition tree_flush ::
    "(directory list list \<Rightarrow> directory list \<Rightarrow> err option) \<Rightarrow> directory list \<Rightarrow> directory list list \<Rightarrow> 's \<Rightarrow>
      's tree_result" where
  "tree_flush send page sent s =
     (if 0 < length page then
        (case send sent page of
           Some e \<Rightarrow> ((Err e, sent), s)
         | None \<Rightarrow> ((Ok (), sent @ [page]), s))
      else ((Ok (), sent), s))"

partial_function (option) tree_loop ::
    "codec \<Rightarrow> 's store \<Rightarrow> (directory list list \<Rightarrow> directory list \<Rightarrow> err option) \<Rightarrow> digest_ptr list \<Rightarrow>
      directory list \<Rightarrow> directory list list \<Rightarrow> 's \<Rightarrow> 's tree_result option" where
  "tree_loop pb st send queue page sent s =
     (case queue of
        [] \<Rightarrow> Some (tree_flush send page sent s)
      | d # queue' \<Rightarrow>
          (case st_get st s d of
             (r, s') \<Rightarrow>
               (case r of
                  Err e \<Rightarrow>
                    Some ((if error_is e ErrNotFound
                           then Err (StatusErr NotFound ''directory %s not found'' [key d] None)
                           else Err (StatusErr Internal ''read directory %s: %v'' [key d] (Some e)),
                           sent), s')
                | Panic \<Rightarrow> Some ((Panic, sent), s')
                | Ok data \<Rightarrow>
                    (case unmarshal_dir pb data of
                       Inl e \<Rightarrow>
                         Some ((Err (StatusErr Internal ''unmarshal directory %s: %v'' [key d]
                                       (Some (Ext e))), sent), s')
                     | Inr dir \<Rightarrow>
                         (let page' = page @ [dir];
                              queue'' = queue' @ map dn_digest (dir_directories dir)
                          in if tree_page_size \<le> length page' then
                               (case send sent page' of
                                  Some e \<Rightarrow> Some ((Err e, sent), s')
                                | None \<Rightarrow> tree_loop pb st send queue'' [] (sent @ [page']) s')
                             else tree_loop pb st send queue'' page' sent s')))))"

definition get_tree ::
    "codec \<Rightarrow> 's store \<Rightarrow> (directory list list \<Rightarrow> directory list \<Rightarrow> err option) \<Rightarrow> 's \<Rightarrow> digest_ptr \<Rightarrow>
      's tree_result option" where
  "get_tree pb st send s root = tree_loop pb st send [root] [] [] s"

subsection \<open>The tree a digest denotes\<close>

text \<open>The directory stored under a digest, its children, and the levels below a root.\<close>

definition fetch :: "codec \<Rightarrow> view \<Rightarrow> digest_ptr \<Rightarrow> directory option" where
  "fetch pb v d =
     (case lookup_blob v d of
        None \<Rightarrow> None
      | Some b \<Rightarrow> (case unmarshal_dir pb b of Inl e \<Rightarrow> None | Inr dir \<Rightarrow> Some dir))"

definition subdirs :: "directory \<Rightarrow> digest_ptr list" where
  "subdirs dir = map dn_digest (dir_directories dir)"

definition dirs_of :: "codec \<Rightarrow> view \<Rightarrow> digest_ptr list \<Rightarrow> directory list" where
  "dirs_of pb v ds = map (\<lambda>d. the (fetch pb v d)) ds"

fun level :: "codec \<Rightarrow> view \<Rightarrow> digest_ptr list \<Rightarrow> nat \<Rightarrow> digest_ptr list" where
  "level pb v q 0 = q"
| "level pb v q (Suc n) = level pb v (concat (map subdirs (dirs_of pb v q))) n"

text \<open>The directories of the first \<open>n\<close> levels, level by level.\<close>

fun level_order :: "codec \<Rightarrow> view \<Rightarrow> digest_ptr list \<Rightarrow> nat \<Rightarrow> directory list" where
  "level_order pb v q 0 = []"
| "level_order pb v q (Suc n) =
     dirs_of pb v q @ level_order pb v (concat (map subdirs (dirs_of pb v q))) n"

definition fetchable :: "codec \<Rightarrow> view \<Rightarrow> digest_ptr list \<Rightarrow> bool" where
  "fetchable pb v ds \<longleftrightarrow> (\<forall>d \<in> set ds. fetch pb v d \<noteq> None)"

subsection \<open>Pages\<close>

text \<open>Full pages sent and a page in the making, together the directories read so far.\<close>

definition paged :: "directory list list \<Rightarrow> directory list \<Rightarrow> directory list \<Rightarrow> bool" where
  "paged sent page dirs \<longleftrightarrow> concat sent @ page = dirs \<and> (\<forall>p \<in> set sent. length p = tree_page_size) \<and>
     length page < tree_page_size"

lemma chunks_unique:
  "\<forall>p \<in> set sent. length p = n \<Longrightarrow> length page < n \<Longrightarrow>
    chunks n (concat sent @ page) = sent @ (if page = [] then [] else [page])"
proof (induction sent)
  case Nil
  then show ?case by (cases "page = []") (auto simp: chunks_short)
next
  case (Cons p sent)
  then show ?case using chunks_append [of p n "concat sent @ page"] by auto
qed

lemma paged_flush:
  assumes "\<And>h m. send h m = None" "paged sent page dirs"
  shows "tree_flush send page sent s = ((Ok (), chunks tree_page_size dirs), s)"
  using assms chunks_unique [of sent tree_page_size page]
  by (auto simp: tree_flush_def paged_def)

lemma paged_add:
  assumes "paged sent page dirs"
  shows "tree_page_size \<le> length (page @ [d]) \<Longrightarrow> paged (sent @ [page @ [d]]) [] (dirs @ [d])"
    and "\<not> tree_page_size \<le> length (page @ [d]) \<Longrightarrow> paged sent (page @ [d]) (dirs @ [d])"
  using assms by (auto simp: paged_def tree_page_size_def)

subsection \<open>Level by level\<close>


lemma tree_step:
  assumes "\<And>h x. send h x = None" and "fetch pb (mem_view m) d = Some dir" and "paged sent page dirs"
  shows "\<exists>sent' page'. paged sent' page' (dirs @ [dir]) \<and>
    tree_loop pb (mem_ops pb) send (d # q) page sent m =
      tree_loop pb (mem_ops pb) send (q @ subdirs dir) page' sent' m"
proof -
  from assms(2) obtain b where b: "lookup_blob (mem_view m) d = Some b" "unmarshal_dir pb b = Inr dir"
    by (auto simp: fetch_def split: option.splits sum.splits)
  let ?full = "tree_page_size \<le> length (page @ [dir])"
  have "tree_loop pb (mem_ops pb) send (d # q) page sent m =
      tree_loop pb (mem_ops pb) send (q @ subdirs dir) (if ?full then [] else page @ [dir])
        (if ?full then sent @ [page @ [dir]] else sent) m"
    by (simp add: tree_loop.simps [of _ _ _ "d # q"] mem_get_spec b assms(1) subdirs_def Let_def)
  then show ?thesis
    using paged_add [OF assms(3), of dir] by (cases ?full) auto
qed

lemma tree_level:
  assumes "\<And>h x. send h x = None" and "fetchable pb (mem_view m) ds" and "paged sent page dirs"
  shows "\<exists>sent' page'. paged sent' page' (dirs @ dirs_of pb (mem_view m) ds) \<and>
    tree_loop pb (mem_ops pb) send (ds @ q) page sent m =
      tree_loop pb (mem_ops pb) send (q @ concat (map subdirs (dirs_of pb (mem_view m) ds))) page' sent' m"
  using assms(2,3)
proof (induction ds arbitrary: q sent page dirs)
  case Nil
  then show ?case by (auto simp: dirs_of_def)
next
  case (Cons d ds)
  from Cons.prems obtain dir where dir: "fetch pb (mem_view m) d = Some dir"
    and rest: "fetchable pb (mem_view m) ds" by (auto simp: fetchable_def)
  obtain sent1 page1 where one: "paged sent1 page1 (dirs @ [dir])"
    "tree_loop pb (mem_ops pb) send (d # ds @ q) page sent m =
      tree_loop pb (mem_ops pb) send ((ds @ q) @ subdirs dir) page1 sent1 m"
    using tree_step [of send, OF assms(1) dir Cons.prems(2)] by blast
  from Cons.IH [OF rest one(1), of "q @ subdirs dir"] one(2) dir show ?case
    by (simp add: dirs_of_def)
qed

lemma tree_levels:
  assumes "\<And>h x. send h x = None" and "\<forall>k < n. fetchable pb (mem_view m) (level pb (mem_view m) q k)"
    and "paged sent page dirs"
  shows "\<exists>sent' page'. paged sent' page' (dirs @ level_order pb (mem_view m) q n) \<and>
    tree_loop pb (mem_ops pb) send q page sent m =
      tree_loop pb (mem_ops pb) send (level pb (mem_view m) q n) page' sent' m"
  using assms(2,3)
proof (induction n arbitrary: q sent page dirs)
  case 0
  then show ?case by auto
next
  case (Suc n)
  let ?next = "concat (map subdirs (dirs_of pb (mem_view m) q))"
  have "fetchable pb (mem_view m) q" using Suc.prems(1) by (metis level.simps(1) zero_less_Suc)
  from tree_level [of send, OF assms(1) this Suc.prems(2), of "[]"] obtain sent1 page1 where
    one: "paged sent1 page1 (dirs @ dirs_of pb (mem_view m) q)"
    "tree_loop pb (mem_ops pb) send q page sent m = tree_loop pb (mem_ops pb) send ?next page1 sent1 m"
    by auto
  have "\<forall>k < n. fetchable pb (mem_view m) (level pb (mem_view m) ?next k)"
    using Suc.prems(1) by (metis Suc_less_eq level.simps(2))
  from Suc.IH [OF this one(1)] one(2) show ?case by simp
qed

lemma tree_missing_step:
  assumes "lookup_blob (mem_view m) d = None"
  shows "tree_loop pb (mem_ops pb) send (d # q) page sent m =
    Some ((Err (StatusErr NotFound ''directory %s not found'' [key d] None), sent), m)"
  by (simp add: tree_loop.simps [of _ _ _ "d # q"] mem_get_spec assms)

subsection \<open>Cycles\<close>

text \<open>A stored directory and the digests it lists.\<close>

definition child_dir :: "codec \<Rightarrow> view \<Rightarrow> digest_ptr \<Rightarrow> digest_ptr \<Rightarrow> bool" where
  "child_dir pb v d d' \<longleftrightarrow> (case fetch pb v d of None \<Rightarrow> False | Some dir \<Rightarrow> d' \<in> set (subdirs dir))"

context reliable_store
begin

lemma get_fetch:
  assumes "inv s" "okd d" "fetch pb (vw s) d = Some dir"
  shows "\<exists>b s'. st_get st s d = (Ok b, s') \<and> unmarshal_dir pb b = Inr dir \<and> inv s' \<and> vw s' = vw s"
proof -
  obtain b where b: "lookup_blob (vw s) d = Some b" "unmarshal_dir pb b = Inr dir"
    using assms(3) by (auto simp: fetch_def split: option.splits sum.splits)
  obtain r s' where g: "st_get st s d = (r, s')" by fastforce
  have "is_ok r" using get_total [OF assms(1,2)] b(1) g by simp
  then obtain x where "r = Ok x" by (cases r) simp_all
  with get_law [OF assms(1,2) g] b g show ?thesis by simp
qed

text \<open>The queue always holds a directory that has a child which will keep it so.\<close>

lemma tree_loop_endless:
  assumes "\<And>h x. send h x = None" and "tree_loop pb st send queue page sent s = Some res"
    and "inv s" "vw s = v" "set queue \<subseteq> S" "d0 \<in> set queue" "d0 \<in> C"
    and stored: "\<And>d. d \<in> S \<Longrightarrow> okd d \<and> (\<exists>dir. fetch pb v d = Some dir \<and> set (subdirs dir) \<subseteq> S)"
    and cyc: "\<And>d. d \<in> C \<Longrightarrow> \<exists>d' \<in> C. child_dir pb v d d'"
  shows False
proof -
  have "\<not> (pb' = pb \<and> st' = st \<and> send' = send \<and> inv s' \<and> vw s' = v \<and> set q \<subseteq> S \<and> set q \<inter> C \<noteq> {})"
    if "tree_loop pb' st' send' q page' sent' s' = Some res'" for pb' st' send' q page' sent' s' res'
  proof (rule tree_loop.raw_induct [where P = "\<lambda>pb' st' send' q page' sent' s' res'.
        \<not> (pb' = pb \<and> st' = st \<and> send' = send \<and> inv s' \<and> vw s' = v \<and> set q \<subseteq> S \<and> set q \<inter> C \<noteq> {})",
        OF _ that], goal_cases)
    case (1 loop pb' st' send' q page' sent' s' res')
    show ?case
    proof
      assume a: "pb' = pb \<and> st' = st \<and> send' = send \<and> inv s' \<and> vw s' = v \<and> set q \<subseteq> S \<and> set q \<inter> C \<noteq> {}"
      then obtain d q' where q: "q = d # q'" by (cases q) auto
      with a have "d \<in> S" by simp
      with stored obtain dir where dir: "okd d" "fetch pb v d = Some dir" "set (subdirs dir) \<subseteq> S" by blast
      with a obtain b s1 where g: "st_get st s' d = (Ok b, s1)" "unmarshal_dir pb b = Inr dir" "inv s1" "vw s1 = v"
        using get_fetch [of s' d dir] by blast
      let ?q = "q' @ map dn_digest (dir_directories dir)"
      have "set ?q \<subseteq> S" using a q dir(3) by (auto simp: subdirs_def)
      moreover have "set ?q \<inter> C \<noteq> {}"
        using a q dir(2) cyc [of d] by (fastforce simp: child_dir_def subdirs_def)
      moreover have "\<exists>page sent. loop pb st send ?q page sent s1 = Some res'"
        using 1(2) a by (auto simp: q g assms(1) Let_def split: if_splits)
      ultimately show False using 1(1) g(3,4) by blast
    qed
  qed
  from this [OF assms(2)] assms(3-7) show False by blast
qed

lemma get_tree_cycle:
  assumes "inv s" and "\<forall>h x. send h x = None"
    and "\<forall>d. (child_dir pb (vw s))\<^sup>*\<^sup>* root d \<longrightarrow> okd d \<and> fetch pb (vw s) d \<noteq> None"
    and "(child_dir pb (vw s))\<^sup>*\<^sup>* root c" and "(child_dir pb (vw s))\<^sup>+\<^sup>+ c c"
  shows "get_tree pb st send s root = None"
proof (rule ccontr)
  let ?R = "child_dir pb (vw s)"
  assume "get_tree pb st send s root \<noteq> None"
  then obtain res where res: "tree_loop pb st send [root] [] [] s = Some res" by (auto simp: get_tree_def)
  have none: "\<And>h x. send h x = None" using assms(2) by blast
  show False
  proof (rule tree_loop_endless [of send, OF none res assms(1) refl,
        where S = "{d. ?R\<^sup>*\<^sup>* root d}" and C = "{d. ?R\<^sup>*\<^sup>* d c}" and ?d0.0 = root])
    fix d assume "d \<in> {d. ?R\<^sup>*\<^sup>* root d}"
    then have d: "?R\<^sup>*\<^sup>* root d" by simp
    with assms(3) obtain dir where dir: "okd d" "fetch pb (vw s) d = Some dir" by blast
    have "?R\<^sup>*\<^sup>* root d'" if "d' \<in> set (subdirs dir)" for d'
      using d that dir(2) by (intro rtranclp.rtrancl_into_rtrancl [OF d]) (simp add: child_dir_def)
    with dir show "okd d \<and> (\<exists>dir. fetch pb (vw s) d = Some dir \<and> set (subdirs dir) \<subseteq> {d. ?R\<^sup>*\<^sup>* root d})"
      by blast
  next
    fix d assume "d \<in> {d. ?R\<^sup>*\<^sup>* d c}"
    then have "?R\<^sup>+\<^sup>+ d c" using assms(5) by (auto dest: rtranclpD)
    then obtain d' where "?R d d'" "?R\<^sup>*\<^sup>* d' c" by (blast dest: tranclpD)
    then show "\<exists>d' \<in> {d. ?R\<^sup>*\<^sup>* d c}. ?R d d'" by blast
  qed (use assms(4) in simp_all)
qed

end

subsection \<open>Properties\<close>

text \<open>
  C29.  \<^verbatim>\<open>GetTree\<close> over the in-memory store, of a tree whose directories are all stored, to a client that keeps
  reading: if the levels below the root die
  out, the call returns and sends every directory once per occurrence, in level order, in pages
  of 100 with the last one shorter.
\<close>

theorem get_tree_level_order:
  assumes "\<forall>h x. send h x = None"
    and "\<forall>k < n. fetchable pb (mem_view m) (level pb (mem_view m) [root] k)"
    and "level pb (mem_view m) [root] n = []"
  shows "get_tree pb (mem_ops pb) send m root =
    Some ((Ok (), chunks 100 (level_order pb (mem_view m) [root] n)), m)"
proof -
  have none: "\<And>h x. send h x = None" using assms(1) by blast
  have "paged [] [] []" by (simp add: paged_def tree_page_size_def)
  from tree_levels [of send, OF none assms(2) this] obtain sent page
    where "paged sent page (level_order pb (mem_view m) [root] n)"
      "get_tree pb (mem_ops pb) send m root = tree_loop pb (mem_ops pb) send [] page sent m"
    by (auto simp: get_tree_def assms(3))
  with paged_flush [of send, OF none] show ?thesis
    by (simp add: tree_loop.simps [of _ _ _ "[]"] tree_page_size_def)
qed

definition leaf_dir :: directory where
  "leaf_dir = \<lparr>dir_files = [], dir_directories = [], dir_symlinks = []\<rparr>"

definition top_dir :: directory where
  "top_dir = \<lparr>dir_files = [], dir_directories = [\<lparr>dn_name = ''a'', dn_digest = Some empty_digest\<rparr>,
     \<lparr>dn_name = ''b'', dn_digest = Some empty_digest\<rparr>], dir_symlinks = []\<rparr>"

definition self_dir :: directory where
  "self_dir = \<lparr>dir_files = [],
     dir_directories = [\<lparr>dn_name = ''a'', dn_digest = Some \<lparr>d_hash = ''22'', d_size = 2\<rparr>\<rparr>],
     dir_symlinks = []\<rparr>"

definition tree_codec :: codec where
  "tree_codec = table_codec [leaf_dir, top_dir, self_dir] [] [] [] []"

definition tree_store :: mem_store where
  "tree_store = new_mem_store\<lparr>ms_blobs := [''11'' \<mapsto> [0], ''22'' \<mapsto> [0, 0]]\<rparr>"

definition top_digest :: digest_ptr where
  "top_digest = Some \<lparr>d_hash = ''11'', d_size = 1\<rparr>"

definition self_digest :: digest_ptr where
  "self_digest = Some \<lparr>d_hash = ''22'', d_size = 2\<rparr>"

lemma tree_fetch [simp]:
  "fetch tree_codec (mem_view tree_store) (Some empty_digest) = Some leaf_dir"
  "fetch tree_codec (mem_view tree_store) top_digest = Some top_dir"
  "fetch tree_codec (mem_view tree_store) self_digest = Some self_dir"
  by (simp_all add: fetch_def lookup_blob_def is_empty_eq tree_codec_def)
     (simp_all add: top_digest_def self_digest_def empty_digest_def tree_store_def table_decode_def)

lemma tree_subdirs [simp]:
  "subdirs leaf_dir = []" "subdirs top_dir = [Some empty_digest, Some empty_digest]"
  "subdirs self_dir = [self_digest]"
  by (simp_all add: subdirs_def leaf_dir_def top_dir_def self_dir_def self_digest_def)

definition all_sent :: "directory list list \<Rightarrow> directory list \<Rightarrow> err option" where
  "all_sent history page = None"

theorem get_tree_level_order_witness:
  "get_tree tree_codec (mem_ops tree_codec) all_sent tree_store top_digest =
    Some ((Ok (), chunks 100 (level_order tree_codec (mem_view tree_store) [top_digest] 2)), tree_store) \<and>
    level_order tree_codec (mem_view tree_store) [top_digest] 2 = [top_dir, leaf_dir, leaf_dir]"
proof
  show "get_tree tree_codec (mem_ops tree_codec) all_sent tree_store top_digest =
    Some ((Ok (), chunks 100 (level_order tree_codec (mem_view tree_store) [top_digest] 2)), tree_store)"
    by (rule get_tree_level_order)
       (auto simp: all_sent_def fetchable_def dirs_of_def less_Suc_eq numeral_eq_Suc)
qed (simp add: dirs_of_def numeral_eq_Suc)

text \<open>
  When a directory of some level is absent and everything before it in level order is
  stored, the call returns \<^verbatim>\<open>NotFound\<close> naming it, and the pages sent before are full and lead the
  level order.
\<close>

theorem get_tree_missing:
  assumes "\<forall>h x. send h x = None"
    and "\<forall>k < n. fetchable pb (mem_view m) (level pb (mem_view m) [root] k)"
    and "level pb (mem_view m) [root] n = pre @ d # post" and "fetchable pb (mem_view m) pre"
    and "lookup_blob (mem_view m) d = None"
  shows "\<exists>sent page. get_tree pb (mem_ops pb) send m root =
      Some ((Err (StatusErr NotFound ''directory %s not found'' [key d] None), sent), m) \<and>
    concat sent @ page = level_order pb (mem_view m) [root] n @ dirs_of pb (mem_view m) pre \<and>
    (\<forall>p \<in> set sent. length p = 100) \<and> length page < 100"
proof -
  have none: "\<And>h x. send h x = None" using assms(1) by blast
  have "paged [] [] []" by (simp add: paged_def tree_page_size_def)
  from tree_levels [of send, OF none assms(2) this] obtain sent page
    where one: "paged sent page (level_order pb (mem_view m) [root] n)"
      "get_tree pb (mem_ops pb) send m root = tree_loop pb (mem_ops pb) send (pre @ d # post) page sent m"
    by (auto simp: get_tree_def assms(3))
  from tree_level [of send, OF none assms(4) one(1), of "d # post"] obtain sent' page'
    where "paged sent' page' (level_order pb (mem_view m) [root] n @ dirs_of pb (mem_view m) pre)"
      "get_tree pb (mem_ops pb) send m root =
        tree_loop pb (mem_ops pb) send (d # post @ concat (map subdirs (dirs_of pb (mem_view m) pre)))
          page' sent' m"
    using one(2) by auto
  then show ?thesis
    using tree_missing_step [OF assms(5)] by (auto simp: paged_def tree_page_size_def)
qed

theorem get_tree_missing_witness:
  "\<exists>sent page. get_tree tree_codec (mem_ops tree_codec) all_sent tree_store None =
      Some ((Err (StatusErr NotFound ''directory %s not found'' [key None] None), sent), tree_store) \<and>
    concat sent @ page = level_order tree_codec (mem_view tree_store) [None] 0 @
      dirs_of tree_codec (mem_view tree_store) [] \<and>
    (\<forall>p \<in> set sent. length p = 100) \<and> length page < 100"
  by (rule get_tree_missing [of _ 0 _ _ _ "[]" None "[]"])
     (simp_all add: all_sent_def fetchable_def lookup_blob_def tree_store_def new_mem_store_def)

text \<open>
  C36.  \<^verbatim>\<open>GetTree\<close> has no guard against cycles, which can be stored as \<^verbatim>\<open>Write\<close> never checks hashes: over
  any store whose reads do not fail, with every directory below the root stored and a client that
  keeps reading, the call does not return if some directory the root reaches can be reached from
  itself, over however many directories.
\<close>

theorem get_tree_cycle_diverges:
  assumes "reliable_store st pb si okd vw" and "si s" and "\<forall>h x. send h x = None"
    and "\<forall>d. (child_dir pb (vw s))\<^sup>*\<^sup>* root d \<longrightarrow> okd d \<and> fetch pb (vw s) d \<noteq> None"
    and "(child_dir pb (vw s))\<^sup>*\<^sup>* root c" and "(child_dir pb (vw s))\<^sup>+\<^sup>+ c c"
  shows "get_tree pb st send s root = None"
  by (rule reliable_store.get_tree_cycle [OF assms])

text \<open>A root that lists an ordinary directory beside one that lists itself.\<close>

definition loop_dir :: directory where
  "loop_dir = \<lparr>dir_files = [], dir_directories = [\<lparr>dn_name = ''a'', dn_digest = Some empty_digest\<rparr>,
     \<lparr>dn_name = ''b'', dn_digest = self_digest\<rparr>], dir_symlinks = []\<rparr>"

definition loop_codec :: codec where
  "loop_codec = table_codec [leaf_dir, loop_dir, self_dir] [] [] [] []"

lemma loop_fetch [simp]:
  "fetch loop_codec (mem_view tree_store) (Some empty_digest) = Some leaf_dir"
  "fetch loop_codec (mem_view tree_store) top_digest = Some loop_dir"
  "fetch loop_codec (mem_view tree_store) self_digest = Some self_dir"
  by (simp_all add: fetch_def lookup_blob_def is_empty_eq loop_codec_def)
     (simp_all add: top_digest_def self_digest_def empty_digest_def tree_store_def table_decode_def)

theorem get_tree_cycle_diverges_witness:
  "get_tree loop_codec (mem_ops loop_codec) all_sent tree_store top_digest = None"
proof (rule get_tree_cycle_diverges [OF mem.reliable_store_axioms TrueI, where c = self_digest])
  let ?R = "child_dir loop_codec (mem_view tree_store)"
  have sub: "subdirs loop_dir = [Some empty_digest, self_digest]" by (simp add: subdirs_def loop_dir_def)
  have "d \<in> {top_digest, Some empty_digest, self_digest}" if "?R\<^sup>*\<^sup>* top_digest d" for d
    using that by (induction rule: rtranclp_induct) (auto simp: child_dir_def sub)
  then show "\<forall>d. ?R\<^sup>*\<^sup>* top_digest d \<longrightarrow> True \<and> fetch loop_codec (mem_view tree_store) d \<noteq> None"
    by fastforce
  have "?R top_digest self_digest" "?R self_digest self_digest" by (simp_all add: child_dir_def sub)
  then show "?R\<^sup>*\<^sup>* top_digest self_digest" "?R\<^sup>+\<^sup>+ self_digest self_digest" by blast+
qed (simp add: all_sent_def)

end
