(* ===== verification/Operations.thy ===== *)
theory Operations
  imports Messages "HOL-Library.Sublist"
begin

text \<open>
  \<^verbatim>\<open>internal/server/operations.go\<close>: long-running operations.  An entry keeps the latest published
  operation; every update closes its \<^verbatim>\<open>changed\<close> channel and makes a new one, so a channel is its
  number and is closed once the entry has moved on.  An operation is passed by pointer and
  compared by pointer: it carries the number it was published under as its address.
\<close>

subsection \<open>Operations\<close>

datatype exec_stage = CacheCheck | Executing | Completed

record exec_response =
  er_result :: "action_result option"
  er_cached :: bool
  er_status :: rpc_status

record operation =
  op_name :: string
  op_stage :: exec_stage
  op_action :: digest_ptr
  op_done :: bool
  op_response :: "exec_response option"

type_synonym op_ref = "nat \<times> operation"

subsection \<open>Entries\<close>

record op_entry =
  oe_latest :: "op_ref option"
  oe_done :: bool
  oe_cancel :: bool
  oe_canceled :: bool
  oe_changed :: nat

text \<open>
  \<open>oe_cancel\<close> tells that the entry has a cancel function and \<open>oe_canceled\<close> that it was called.
  A fresh entry has no state.
\<close>

definition fresh_entry :: "bool \<Rightarrow> op_entry" where
  "fresh_entry cancel =
     \<lparr>oe_latest = None, oe_done = False, oe_cancel = cancel, oe_canceled = False, oe_changed = 0\<rparr>"

definition snapshot :: "op_entry \<Rightarrow> op_ref option \<times> bool \<times> nat" where
  "snapshot e = (oe_latest e, oe_done e, oe_changed e)"

definition publish :: "op_entry \<Rightarrow> op_ref \<Rightarrow> op_entry" where
  "publish e op =
     (if oe_done e then e
      else e\<lparr>oe_latest := Some op, oe_done := op_done (snd op), oe_changed := Suc (oe_changed e)\<rparr>)"

definition closed :: "op_entry \<Rightarrow> nat \<Rightarrow> bool" where
  "closed e ch \<longleftrightarrow> ch < oe_changed e"

text \<open>Publishing an operation made for the purpose: its address is new.\<close>

definition publish_new :: "op_entry \<Rightarrow> operation \<Rightarrow> op_entry" where
  "publish_new e op = publish e (oe_changed e, op)"

subsection \<open>The manager and the Operations service\<close>

text \<open>
  The map holds pointers to entries, which streams share: \<open>om_entries\<close> is the heap of entries
  ever made and the map holds their indices.  Names come from the UUID generator, a parameter.
\<close>

record op_manager =
  om_ops :: "string \<rightharpoonup> nat"
  om_entries :: "op_entry list"

definition new_operation_manager :: op_manager where
  "new_operation_manager = \<lparr>om_ops = Map.empty, om_entries = []\<rparr>"

definition om_new :: "op_manager \<Rightarrow> string \<Rightarrow> bool \<Rightarrow> nat \<times> op_manager" where
  "om_new m uuid cancel =
     (length (om_entries m),
      m\<lparr>om_ops := (om_ops m)(uuid \<mapsto> length (om_entries m)),
        om_entries := om_entries m @ [fresh_entry cancel]\<rparr>)"

definition om_lookup :: "op_manager \<Rightarrow> string \<Rightarrow> nat option" where
  "om_lookup m name = om_ops m name"

definition om_update :: "op_manager \<Rightarrow> nat \<Rightarrow> (op_entry \<Rightarrow> op_entry) \<Rightarrow> op_manager" where
  "om_update m a f = m\<lparr>om_entries := (om_entries m)[a := f (om_entries m ! a)]\<rparr>"

definition get_operation :: "op_manager \<Rightarrow> string \<Rightarrow> operation res" where
  "get_operation m name =
     (case om_lookup m name of
        None \<Rightarrow> Err (StatusErr NotFound ''operation %q not found'' [name] None)
      | Some a \<Rightarrow>
          (case snapshot (om_entries m ! a) of
             (None, _, _) \<Rightarrow> Err (StatusErr NotFound ''operation %q has no state'' [name] None)
           | (Some op, _, _) \<Rightarrow> Ok (snd op)))"

text \<open>A Go map is ranged over in any order: \<open>names\<close> lists the keys in the order of this call.\<close>

fun list_operations :: "op_manager \<Rightarrow> string list \<Rightarrow> operation list" where
  "list_operations m [] = []"
| "list_operations m (name # names) =
     (case om_ops m name of
        None \<Rightarrow> list_operations m names
      | Some a \<Rightarrow>
          (case snapshot (om_entries m ! a) of
             (None, _, _) \<Rightarrow> list_operations m names
           | (Some op, _, _) \<Rightarrow> snd op # list_operations m names))"

definition delete_operation :: "op_manager \<Rightarrow> string \<Rightarrow> unit res \<times> op_manager" where
  "delete_operation m name =
     (case om_ops m name of
        None \<Rightarrow> (Err (StatusErr NotFound ''operation %q not found'' [name] None), m)
      | Some a \<Rightarrow> (Ok (), m\<lparr>om_ops := (om_ops m)(name := None)\<rparr>))"

definition cancel_operation :: "op_manager \<Rightarrow> string \<Rightarrow> unit res \<times> op_manager" where
  "cancel_operation m name =
     (case om_lookup m name of
        None \<Rightarrow> (Err (StatusErr NotFound ''operation %q not found'' [name] None), m)
      | Some a \<Rightarrow>
          if oe_cancel (om_entries m ! a)
          then (Ok (), om_update m a (\<lambda>e. e\<lparr>oe_canceled := True\<rparr>))
          else (Ok (), m))"

declare get_operation_def [handler_defs] delete_operation_def [handler_defs]
  cancel_operation_def [handler_defs]

subsection \<open>Streams and waits\<close>

text \<open>
  A stream beside the goroutine that publishes.  \<open>Looping\<close> is the head of the loop, \<open>Sending\<close> the
  call of \<^verbatim>\<open>stream.Send\<close> after a snapshot, \<open>Waiting\<close> the \<^verbatim>\<open>select\<close>.
\<close>

datatype stream_pc =
    Looping
  | Sending op_ref bool nat
  | Waiting nat
  | Returned "unit res"

record stream_state =
  ss_last :: "op_ref option"
  ss_pc :: stream_pc
  ss_sent :: "op_ref list"

record watch =
  wt_entry :: op_entry
  wt_stream :: stream_state

definition stream_init :: stream_state where
  "stream_init = \<lparr>ss_last = None, ss_pc = Looping, ss_sent = []\<rparr>"

text \<open>What the loop does after a snapshot: send an operation it has not sent, or wait.\<close>

definition stream_look :: "op_entry \<Rightarrow> stream_state \<Rightarrow> stream_state" where
  "stream_look e ss =
     (case snapshot e of
        (op, dn, ch) \<Rightarrow>
          (case op of
             Some r \<Rightarrow> if op \<noteq> ss_last ss then ss\<lparr>ss_pc := Sending r dn ch\<rparr> else ss\<lparr>ss_pc := Waiting ch\<rparr>
           | None \<Rightarrow> ss\<lparr>ss_pc := Waiting ch\<rparr>))"

definition stream_sent :: "op_ref \<Rightarrow> bool \<Rightarrow> nat \<Rightarrow> stream_state \<Rightarrow> stream_state" where
  "stream_sent r dn ch ss =
     ss\<lparr>ss_sent := ss_sent ss @ [r], ss_last := Some r,
        ss_pc := (if dn then Returned (Ok ()) else Waiting ch)\<rparr>"

inductive stream_step :: "op_entry \<Rightarrow> stream_state \<Rightarrow> stream_state \<Rightarrow> bool" where
  st_look: "ss_pc ss = Looping \<Longrightarrow> stream_step e ss (stream_look e ss)"
| st_send: "ss_pc ss = Sending r dn ch \<Longrightarrow> stream_step e ss (stream_sent r dn ch ss)"
| st_fail: "ss_pc ss = Sending r dn ch \<Longrightarrow> stream_step e ss (ss\<lparr>ss_pc := Returned (Err x)\<rparr>)"
| st_wake: "ss_pc ss = Waiting ch \<Longrightarrow> closed e ch \<Longrightarrow> stream_step e ss (ss\<lparr>ss_pc := Looping\<rparr>)"
| st_gone: "ss_pc ss = Waiting ch \<Longrightarrow> x \<in> {CtxCanceled, CtxDeadlineExceeded} \<Longrightarrow>
    stream_step e ss (ss\<lparr>ss_pc := Returned (Err x)\<rparr>)"

inductive_cases stream_stepE: "stream_step e ss ss'"

text \<open>
  The whole: the publisher publishes new operations and the stream takes its steps.  A stream may
  join at any time, so the entry it starts from is any that publishing makes of a fresh one.
\<close>

definition published :: "bool \<Rightarrow> operation list \<Rightarrow> op_entry" where
  "published cancel ops = foldl publish_new (fresh_entry cancel) ops"

inductive watching :: "bool \<Rightarrow> operation list \<Rightarrow> watch \<Rightarrow> bool" for cancel where
  w_join: "watching cancel ops \<lparr>wt_entry = published cancel ops, wt_stream = stream_init\<rparr>"
| w_pub: "watching cancel ops w \<Longrightarrow>
    watching cancel (ops @ [op]) (w\<lparr>wt_entry := publish_new (wt_entry w) op\<rparr>)"
| w_step: "watching cancel ops w \<Longrightarrow> stream_step (wt_entry w) (wt_stream w) ss \<Longrightarrow>
    watching cancel ops (w\<lparr>wt_stream := ss\<rparr>)"

text \<open>\<^verbatim>\<open>WaitOperation\<close> finds its entry and watches it in the same loop, without sends.\<close>

definition wait_operation :: "op_manager \<Rightarrow> string \<Rightarrow> nat res" where
  "wait_operation m name =
     (case om_lookup m name of
        None \<Rightarrow> Err (StatusErr NotFound ''operation %q not found'' [name] None)
      | Some a \<Rightarrow> Ok a)"

datatype wait_pc = WLooping | WWaiting nat | WReturned "operation option res"

inductive wait_step :: "op_entry \<Rightarrow> wait_pc \<Rightarrow> wait_pc \<Rightarrow> bool" where
  wt_done: "snapshot e = (op, True, ch) \<Longrightarrow> wait_step e WLooping (WReturned (Ok (map_option snd op)))"
| wt_block: "snapshot e = (op, False, ch) \<Longrightarrow> wait_step e WLooping (WWaiting ch)"
| wt_wake: "closed e ch \<Longrightarrow> wait_step e (WWaiting ch) WLooping"
| wt_gone: "x \<in> {CtxCanceled, CtxDeadlineExceeded} \<Longrightarrow> wait_step e (WWaiting ch) (WReturned (Err x))"

subsection \<open>What an entry shows\<close>

text \<open>
  The updates an entry takes: those up to the first that is done.  With their addresses they are
  the history of the entry.
\<close>

fun visible :: "operation list \<Rightarrow> operation list" where
  "visible [] = []"
| "visible (op # ops) = op # (if op_done op then [] else visible ops)"

definition history :: "operation list \<Rightarrow> op_ref list" where
  "history ops = enumerate 0 (visible ops)"

lemma visible_snoc:
  "visible (ops @ [op]) = (if \<exists>x \<in> set ops. op_done x then visible ops else visible ops @ [op])"
  by (induction ops) auto

lemma visible_empty [simp]: "visible ops = [] \<longleftrightarrow> ops = []"
  by (cases ops) auto

lemma visible_done: "\<exists>x \<in> set ops. op_done x \<Longrightarrow> op_done (last (visible ops))"
  by (induction ops) auto

lemma visible_not_done:
  "i < length (visible ops) \<Longrightarrow> op_done (visible ops ! i) \<Longrightarrow> Suc i = length (visible ops)"
proof (induction ops arbitrary: i)
  case (Cons op ops)
  then show ?case by (cases i) (auto split: if_splits)
qed simp

lemma visible_done_iff: "(\<exists>x \<in> set ops. op_done x) \<longleftrightarrow> ops \<noteq> [] \<and> op_done (last (visible ops))"
proof (induction ops rule: rev_induct)
  case (snoc op ops)
  then show ?case by (auto simp: visible_snoc)
qed simp

lemma published_eq:
  "published cancel ops =
    \<lparr>oe_latest = (if ops = [] then None else Some (length (visible ops) - 1, last (visible ops))),
     oe_done = (\<exists>op \<in> set ops. op_done op), oe_cancel = cancel, oe_canceled = False,
     oe_changed = length (visible ops)\<rparr>"
proof (induction ops rule: rev_induct)
  case Nil
  then show ?case by (simp add: published_def fresh_entry_def)
next
  case (snoc op ops)
  have "published cancel (ops @ [op]) = publish_new (published cancel ops) op"
    by (simp add: published_def)
  then show ?case
    by (auto simp: snoc publish_new_def publish_def visible_snoc)
qed

lemma history_nth: "r \<in> set (history ops) \<longleftrightarrow> fst r < length (visible ops) \<and> snd r = visible ops ! fst r"
  by (cases r) (auto simp: history_def in_set_enumerate_eq)

lemma last_history:
  assumes "ops \<noteq> []"
  shows "last (history ops) = (length (visible ops) - 1, last (visible ops))"
proof -
  have len: "length (history ops) = length (visible ops)" by (simp add: history_def)
  have pos: "length (visible ops) - 1 < length (visible ops)" using assms by simp
  have "history ops \<noteq> []" using assms len by auto
  then have "last (history ops) = history ops ! (length (visible ops) - 1)"
    using len by (simp add: last_conv_nth)
  also have "\<dots> = (length (visible ops) - 1, visible ops ! (length (visible ops) - 1))"
    unfolding history_def using nth_enumerate_eq [OF pos, of 0] by simp
  finally show ?thesis using assms by (simp add: last_conv_nth)
qed

lemma history_done:
  "r \<in> set (history ops) \<Longrightarrow> op_done (snd r) \<Longrightarrow> Suc (fst r) = length (visible ops)"
  using visible_not_done [of "fst r" ops] by (auto simp: history_nth)

lemma history_snoc: "set (history ops) \<subseteq> set (history (ops @ [op]))"
  by (auto simp: history_nth visible_snoc nth_append)

lemma latest_history:
  "oe_latest (published cancel ops) = Some r \<longleftrightarrow> r \<in> set (history ops) \<and> Suc (fst r) = length (visible ops)"
  by (cases r) (auto simp: published_eq history_nth last_conv_nth, metis diff_Suc_Suc diff_zero)

text \<open>References in increasing order that come from the history are a subsequence of it.\<close>

lemma sorted_subseq_enumerate:
  "sorted_wrt (\<lambda>a b. fst a < fst b) rs \<Longrightarrow> set rs \<subseteq> set (enumerate n xs) \<Longrightarrow>
    subseq rs (enumerate n xs)"
proof (induction xs arbitrary: n rs)
  case (Cons x xs)
  show ?case
  proof (cases rs)
    case (Cons r rs')
    have in_tail: "set ts \<subseteq> set (enumerate (Suc n) xs)"
      if "set ts \<subseteq> set (enumerate n (x # xs))" "\<forall>t \<in> set ts. n < fst t" for ts
      using that by fastforce
    have later: "\<forall>t \<in> set rs'. n < fst t"
    proof
      fix t assume "t \<in> set rs'"
      then have "fst r < fst t" using Cons.prems(1) Cons by simp
      moreover have "n \<le> fst r" using Cons.prems(2) Cons by (auto simp: in_set_enumerate_eq)
      ultimately show "n < fst t" by simp
    qed
    show ?thesis
    proof (cases "fst r = n")
      case True
      then have "r = (n, x)" using Cons.prems(2) Cons by (auto simp: in_set_enumerate_eq)
      moreover have "subseq rs' (enumerate (Suc n) xs)"
        using Cons.IH [of rs' "Suc n"] Cons.prems Cons in_tail [of rs'] later by simp
      ultimately show ?thesis using Cons by simp
    next
      case False
      then have "\<forall>t \<in> set rs. n < fst t"
        using Cons.prems(2) Cons later by (auto simp: in_set_enumerate_eq)
      then have "subseq rs (enumerate (Suc n) xs)"
        using Cons.IH [of rs "Suc n"] Cons.prems in_tail [of rs] by simp
      then show ?thesis by (simp add: list_emb_Cons)
    qed
  qed simp
qed simp

subsection \<open>What a stream knows\<close>

text \<open>
  The invariant of a stream beside its entry: what it sent is increasing and from the history, an
  operation about to be sent is newer, a channel waited on is the one of the last operation seen,
  and the stream goes on only while it has seen nothing final.
\<close>

definition seen :: "stream_state \<Rightarrow> nat" where
  "seen ss = (case ss_last ss of None \<Rightarrow> 0 | Some r \<Rightarrow> Suc (fst r))"

definition open_last :: "stream_state \<Rightarrow> bool" where
  "open_last ss \<longleftrightarrow> (\<forall>r. ss_last ss = Some r \<longrightarrow> \<not> op_done (snd r))"

lemma seen_pc [simp]:
  "seen (ss\<lparr>ss_pc := p\<rparr>) = seen ss" "open_last (ss\<lparr>ss_pc := p\<rparr>) = open_last ss"
  by (simp_all add: seen_def open_last_def)

fun pc_ok :: "operation list \<Rightarrow> stream_state \<Rightarrow> stream_pc \<Rightarrow> bool" where
  "pc_ok ops ss Looping = open_last ss"
| "pc_ok ops ss (Sending r dn ch) =
     (open_last ss \<and> r \<in> set (history ops) \<and> seen ss \<le> fst r \<and> dn = op_done (snd r) \<and> ch = Suc (fst r))"
| "pc_ok ops ss (Waiting ch) = (open_last ss \<and> ch = seen ss)"
| "pc_ok ops ss (Returned x) =
     (x = Ok () \<longrightarrow> (\<exists>r. ss_last ss = Some r \<and> op_done (snd r)))"

definition last_of :: "'a list \<Rightarrow> 'a option" where
  "last_of xs = (if xs = [] then None else Some (last xs))"

lemma last_of_simps [simp]: "last_of [] = None" "last_of (xs @ [x]) = Some x"
  by (simp_all add: last_of_def)

lemma last_of_in: "last_of xs = Some x \<Longrightarrow> x \<in> set xs"
  by (auto simp: last_of_def split: if_splits)

definition stream_ok :: "operation list \<Rightarrow> stream_state \<Rightarrow> bool" where
  "stream_ok ops ss \<longleftrightarrow>
     sorted_wrt (\<lambda>a b. fst a < fst b) (ss_sent ss) \<and> set (ss_sent ss) \<subseteq> set (history ops) \<and>
     (\<forall>a \<in> set (ss_sent ss). fst a < seen ss) \<and> ss_last ss = last_of (ss_sent ss) \<and>
     pc_ok ops ss (ss_pc ss)"

lemma pc_ok_publish: "pc_ok ops ss pc \<Longrightarrow> pc_ok (ops @ [op]) ss pc"
  using subsetD [OF history_snoc [of ops op]] by (cases pc) auto

lemma stream_ok_publish: "stream_ok ops ss \<Longrightarrow> stream_ok (ops @ [op]) ss"
  using history_snoc [of ops op] pc_ok_publish [of ops ss "ss_pc ss" op]
  unfolding stream_ok_def by blast

lemma stream_ok_pc: "stream_ok ops ss \<Longrightarrow> pc_ok ops ss p \<Longrightarrow> stream_ok ops (ss\<lparr>ss_pc := p\<rparr>)"
  by (cases p) (simp_all add: stream_ok_def)

lemma stream_look_cases:
  "oe_latest e = None \<Longrightarrow> stream_look e ss = ss\<lparr>ss_pc := Waiting (oe_changed e)\<rparr>"
  "oe_latest e = Some r \<Longrightarrow> ss_last ss = Some r \<Longrightarrow> stream_look e ss = ss\<lparr>ss_pc := Waiting (oe_changed e)\<rparr>"
  "oe_latest e = Some r \<Longrightarrow> ss_last ss \<noteq> Some r \<Longrightarrow>
    stream_look e ss = ss\<lparr>ss_pc := Sending r (oe_done e) (oe_changed e)\<rparr>"
  by (auto simp: stream_look_def snapshot_def)

lemma stream_ok_look:
  assumes "stream_ok ops ss" "ss_pc ss = Looping"
  shows "stream_ok ops (stream_look (published cancel ops) ss)"
proof -
  let ?e = "published cancel ops"
  have ol: "open_last ss" using assms by (simp add: stream_ok_def)
  have last: "r \<in> set (history ops)" if "ss_last ss = Some r" for r
    using assms(1) that last_of_in [of "ss_sent ss" r] by (auto simp: stream_ok_def)
  have ch: "oe_changed ?e = length (visible ops)" by (simp add: published_eq)
  have dn: "oe_done ?e = op_done (snd r)" if "oe_latest ?e = Some r" for r
    using that visible_done_iff [of ops] by (auto simp: published_eq split: if_splits)
  show ?thesis
  proof (cases "oe_latest ?e")
    case None
    then have empty: "ops = []" by (simp add: published_eq split: if_splits)
    then have "ss_last ss = None" using last by (cases "ss_last ss") (auto simp: history_def)
    then have "pc_ok ops ss (Waiting (oe_changed ?e))" using ol ch empty by (simp add: seen_def)
    then show ?thesis using stream_look_cases(1) [OF None] stream_ok_pc [OF assms(1)] by simp
  next
    case (Some r)
    then have r: "r \<in> set (history ops)" "Suc (fst r) = length (visible ops)"
      by (simp_all add: latest_history)
    show ?thesis
    proof (cases "ss_last ss = Some r")
      case True
      then have "pc_ok ops ss (Waiting (oe_changed ?e))" using ol ch r(2) by (simp add: seen_def)
      then show ?thesis using stream_look_cases(2) [OF Some True] stream_ok_pc [OF assms(1)] by simp
    next
      case False
      have "seen ss \<le> fst r"
      proof (cases "ss_last ss")
        case (Some l)
        then have l: "fst l < length (visible ops)" "snd l = visible ops ! fst l"
          using last by (auto simp: history_nth)
        have "fst l \<noteq> fst r"
        proof
          assume "fst l = fst r"
          then have "l = r" using l r(1) by (simp add: history_nth prod_eq_iff)
          then show False using False Some by simp
        qed
        then show ?thesis using Some l(1) r(2) by (simp add: seen_def)
      qed (simp add: seen_def)
      then have "pc_ok ops ss (Sending r (oe_done ?e) (oe_changed ?e))"
        using ol r ch dn [OF Some] by simp
      then show ?thesis using stream_look_cases(3) [OF Some False] stream_ok_pc [OF assms(1)] by simp
    qed
  qed
qed

lemma stream_ok_sent:
  assumes "stream_ok ops ss" "ss_pc ss = Sending r dn ch"
  shows "stream_ok ops (stream_sent r dn ch ss)"
proof -
  have "fst a < fst r" if "a \<in> set (ss_sent ss)" for a
    using assms that by (fastforce simp: stream_ok_def)
  then show ?thesis
    using assms by (auto simp: stream_ok_def stream_sent_def sorted_wrt_append seen_def open_last_def)
qed

lemma watching_ok:
  "watching cancel ops w \<Longrightarrow> wt_entry w = published cancel ops \<and> stream_ok ops (wt_stream w)"
proof (induction rule: watching.induct)
  case (w_join ops)
  then show ?case by (simp add: stream_ok_def stream_init_def open_last_def)
next
  case (w_pub ops w op)
  then show ?case using stream_ok_publish by (simp add: published_def)
next
  case (w_step ops w ss)
  let ?ok = "stream_ok ops"
  from w_step.hyps(2) have "?ok ss"
  proof (cases rule: stream_step.cases)
    case st_look
    then show ?thesis using stream_ok_look w_step.IH by simp
  next
    case (st_send r dn ch)
    then show ?thesis using stream_ok_sent w_step.IH by simp
  next
    case (st_fail r dn ch x)
    then show ?thesis using w_step.IH by (simp add: stream_ok_def)
  next
    case (st_wake ch)
    then show ?thesis using w_step.IH by (simp add: stream_ok_def open_last_def)
  next
    case (st_gone ch x)
    then show ?thesis using w_step.IH by (auto simp: stream_ok_def)
  qed
  then show ?case using w_step.IH by simp
qed

subsection \<open>Streams end\<close>

text \<open>How many of its own steps a stream can still take once the entry is done.\<close>

fun stream_rank :: "stream_pc \<Rightarrow> nat" where
  "stream_rank Looping = 2"
| "stream_rank (Sending r dn ch) = (if dn then 1 else 4)"
| "stream_rank (Waiting ch) = 3"
| "stream_rank (Returned x) = 0"

definition is_returned :: "stream_pc \<Rightarrow> bool" where
  "is_returned pc \<longleftrightarrow> (\<exists>x. pc = Returned x)"

lemma published_done: "oe_done (published cancel ops) \<longleftrightarrow> (\<exists>op \<in> set ops. op_done op)"
  by (simp add: published_eq)

lemma published_append: "published cancel (ops @ later) = foldl publish_new (published cancel ops) later"
  by (simp add: published_def)

lemma publish_done_stable: "oe_done e \<Longrightarrow> foldl publish_new e later = e"
  by (induction later) (simp_all add: publish_new_def publish_def)

lemma watching_closed:
  assumes "watching cancel ops w" "ss_pc (wt_stream w) = Waiting ch"
  shows "closed (wt_entry w) ch \<or>
    ss_last (wt_stream w) = oe_latest (wt_entry w) \<and> \<not> oe_done (wt_entry w)"
proof -
  have e: "wt_entry w = published cancel ops" and ok: "stream_ok ops (wt_stream w)"
    using watching_ok [OF assms(1)] by simp_all
  have ch: "ch = seen (wt_stream w)" and ol: "open_last (wt_stream w)"
    using ok assms(2) by (simp_all add: stream_ok_def)
  show ?thesis
  proof (cases "ss_last (wt_stream w)")
    case None
    then show ?thesis
      using ch by (auto simp: e closed_def seen_def published_eq)
  next
    case (Some r)
    then have r: "r \<in> set (history ops)"
      using ok last_of_in [of "ss_sent (wt_stream w)" r] by (auto simp: stream_ok_def)
    show ?thesis
    proof (cases "Suc (fst r) = length (visible ops)")
      case True
      then have "oe_latest (published cancel ops) = Some r" using r by (simp add: latest_history)
      moreover have "\<not> oe_done (published cancel ops)"
        using calculation ol Some visible_done_iff [of ops]
        by (auto simp: published_eq open_last_def split: if_splits)
      ultimately show ?thesis using Some e by simp
    next
      case False
      then show ?thesis
        using r ch Some by (auto simp: e closed_def seen_def published_eq history_nth)
    qed
  qed
qed

lemma stream_ends:
  assumes "watching cancel ops w" "\<exists>op \<in> set ops. op_done op" "\<not> is_returned (ss_pc (wt_stream w))"
  shows "(\<exists>ss. stream_step (wt_entry w) (wt_stream w) ss) \<and>
    (\<forall>ss. stream_step (wt_entry w) (wt_stream w) ss \<longrightarrow>
      stream_rank (ss_pc ss) < stream_rank (ss_pc (wt_stream w)))"
proof -
  let ?ss = "wt_stream w"
  have e: "wt_entry w = published cancel ops" and ok: "stream_ok ops ?ss"
    using watching_ok [OF assms(1)] by simp_all
  have dn: "oe_done (wt_entry w)" using assms(2) by (simp add: e published_done)
  show ?thesis
  proof (cases "ss_pc ?ss")
    case Looping
    have "ops \<noteq> []" using assms(2) by auto
    then obtain r where r: "oe_latest (wt_entry w) = Some r" "op_done (snd r)"
      using visible_done [OF assms(2)] by (simp add: e published_eq)
    moreover have "open_last ?ss" using ok Looping by (simp add: stream_ok_def)
    ultimately have "ss_last ?ss \<noteq> Some r" unfolding open_last_def by blast
    then have "stream_look (wt_entry w) ?ss = ?ss\<lparr>ss_pc := Sending r True (oe_changed (wt_entry w))\<rparr>"
      using stream_look_cases(3) r dn by simp
    then show ?thesis
      using Looping st_look [OF Looping] by (auto elim!: stream_stepE)
  next
    case (Sending r d ch)
    then show ?thesis
      using st_send [OF Sending] by (auto simp: stream_sent_def elim!: stream_stepE)
  next
    case (Waiting ch)
    then have "closed (wt_entry w) ch" using watching_closed [OF assms(1) Waiting] dn by simp
    then show ?thesis using Waiting st_wake [OF Waiting] by (auto elim!: stream_stepE)
  next
    case (Returned x)
    then show ?thesis using assms(3) by (simp add: is_returned_def)
  qed
qed

lemma sent_order:
  assumes "watching cancel ops w"
  shows "subseq (ss_sent (wt_stream w)) (history ops)"
    and "r \<in> set (butlast (ss_sent (wt_stream w))) \<Longrightarrow> \<not> op_done (snd r)"
    and "ss_pc (wt_stream w) = Returned (Ok ()) \<Longrightarrow>
      ops \<noteq> [] \<and> last_of (ss_sent (wt_stream w)) = Some (last (history ops)) \<and>
      op_done (last (visible ops))"
proof -
  have ok: "stream_ok ops (wt_stream w)" using watching_ok [OF assms] by simp
  then have sorted: "sorted_wrt (\<lambda>a b. fst a < fst b) (ss_sent (wt_stream w))"
    and sub: "set (ss_sent (wt_stream w)) \<subseteq> set (history ops)" by (simp_all add: stream_ok_def)
  show "subseq (ss_sent (wt_stream w)) (history ops)"
    using sorted_subseq_enumerate [OF sorted, of 0 "visible ops"] sub by (simp add: history_def)
  show "\<not> op_done (snd r)" if "r \<in> set (butlast (ss_sent (wt_stream w)))"
  proof
    assume dn: "op_done (snd r)"
    let ?s = "ss_sent (wt_stream w)"
    have ne: "?s \<noteq> []" using that by auto
    then have s: "?s = butlast ?s @ [last ?s]" by simp
    have "fst r < fst (last ?s)" using sorted that by (subst (asm) s) (simp add: sorted_wrt_append)
    moreover have "fst (last ?s) < length (visible ops)"
      using sub ne by (meson history_nth last_in_set subsetD)
    moreover have "r \<in> set (history ops)" using sub that by (meson in_set_butlastD subsetD)
    then have "Suc (fst r) = length (visible ops)" using dn by (rule history_done)
    ultimately show False by simp
  qed
  show "ops \<noteq> [] \<and> last_of (ss_sent (wt_stream w)) = Some (last (history ops)) \<and>
      op_done (last (visible ops))" if ret: "ss_pc (wt_stream w) = Returned (Ok ())"
  proof -
    obtain r where r: "last_of (ss_sent (wt_stream w)) = Some r" "op_done (snd r)"
      using ok ret unfolding stream_ok_def by (metis pc_ok.simps(4))
    then have h: "r \<in> set (history ops)" using sub last_of_in by fast
    then have len: "Suc (fst r) = length (visible ops)" using r(2) by (rule history_done)
    have ne: "ops \<noteq> []" using h by (auto simp: history_def)
    have "last (history ops) = (length (visible ops) - 1, last (visible ops))"
      using ne by (rule last_history)
    moreover have "r = (length (visible ops) - 1, last (visible ops))"
    proof -
      have "fst r = length (visible ops) - 1" using len by simp
      moreover have "snd r = visible ops ! fst r" using h by (simp add: history_nth)
      ultimately show ?thesis using ne by (simp add: prod_eq_iff last_conv_nth)
    qed
    ultimately show ?thesis using r ne by simp
  qed
qed

lemma visible_append:
  "\<not> (\<exists>op \<in> set ops. op_done op) \<Longrightarrow> visible (ops @ later) = visible ops @ visible later"
  by (induction ops) auto

subsection \<open>The manager\<close>

definition om_ok :: "op_manager \<Rightarrow> bool" where
  "om_ok m \<longleftrightarrow> (\<forall>name a. om_ops m name = Some a \<longrightarrow> a < length (om_entries m)) \<and>
     (\<forall>x y a. om_ops m x = Some a \<and> om_ops m y = Some a \<longrightarrow> x = y)"

lemma om_ok_new: "om_ok m \<Longrightarrow> om_ok (snd (om_new m uuid cancel))"
  by (auto simp: om_ok_def om_new_def less_Suc_eq dest: less_not_refl2 split: if_splits)

lemma om_ok_update: "om_ok m \<Longrightarrow> om_ok (om_update m a f)"
  by (simp add: om_ok_def om_update_def)

lemma om_ok_delete: "om_ok m \<Longrightarrow> om_ok (snd (delete_operation m name))"
  by (auto simp: om_ok_def delete_operation_def split: option.splits if_splits)

lemma om_ok_cancel: "om_ok m \<Longrightarrow> om_ok (snd (cancel_operation m name))"
  by (auto simp: cancel_operation_def om_ok_update split: option.splits)

lemma list_operations_eq:
  "map Ok (list_operations m names) = filter is_ok (map (get_operation m) names)"
proof (induction names)
  case (Cons name names)
  then show ?case
    by (cases "om_ops m name")
       (auto simp: get_operation_def om_lookup_def snapshot_def split: option.split)
qed simp

lemma get_new_publish:
  assumes "om_ok m" "om_new m uuid cancel = (a, m1)"
  shows "get_operation (om_update m1 a (\<lambda>e. foldl publish_new e ops)) name =
    (if name = uuid then
       (if ops = [] then Err (StatusErr NotFound ''operation %q has no state'' [name] None)
        else Ok (last (visible ops)))
     else get_operation m name)"
proof -
  have a: "a = length (om_entries m)"
    "m1 = m\<lparr>om_ops := (om_ops m)(uuid \<mapsto> a), om_entries := om_entries m @ [fresh_entry cancel]\<rparr>"
    using assms(2) by (auto simp: om_new_def)
  have other: "om_ops m name = Some b \<Longrightarrow> b < length (om_entries m)" for b
    using assms(1) by (simp add: om_ok_def)
  have new: "foldl publish_new (fresh_entry cancel) ops = published cancel ops"
    by (simp add: published_def)
  show ?thesis
    using other
    by (auto simp: a get_operation_def om_lookup_def om_update_def snapshot_def nth_append new
        published_eq nth_list_update split: option.split)
qed

text \<open>What \<^verbatim>\<open>CancelOperation\<close> and \<^verbatim>\<open>DeleteOperation\<close> do to a registered entry, and to an unknown name.\<close>

lemma cancel_registered:
  assumes "om_ops m name = Some a" "a < length (om_entries m)"
    and "om_entries m ! a = published cancel ops" "cancel_operation m name = (r, m')"
  shows "r = Ok () \<and> om_ops m' = om_ops m \<and>
    om_entries m' = (om_entries m)[a := (om_entries m ! a)\<lparr>oe_canceled := cancel\<rparr>]"
proof -
  have sel: "oe_cancel (om_entries m ! a) = cancel" "\<not> oe_canceled (om_entries m ! a)"
    by (simp_all add: assms(3) published_eq)
  have same: "(om_entries m)[a := (om_entries m ! a)\<lparr>oe_canceled := False\<rparr>] = om_entries m"
    using sel(2) by (cases "om_entries m ! a") (simp add: list_update_same_conv [OF assms(2)])
  show ?thesis
    using assms(1,4) same sel(1)
    by (cases cancel) (auto simp: cancel_operation_def om_lookup_def om_update_def)
qed

lemma cancel_answers:
  assumes "om_ok m"
  shows "get_operation (snd (cancel_operation m name)) n = get_operation m n"
proof -
  have len: "b < length (om_entries m)" if "om_ops m n = Some b" for b using assms that by (simp add: om_ok_def)
  have "oe_latest ((om_entries m)[x := (om_entries m ! x)\<lparr>oe_canceled := True\<rparr>] ! b) = oe_latest (om_entries m ! b)"
    if "om_ops m n = Some b" for x b
    using len [OF that] by (cases "x = b") simp_all
  then show ?thesis
    by (cases "om_ops m n")
       (auto simp: cancel_operation_def get_operation_def om_lookup_def om_update_def snapshot_def
         split: option.split)
qed

lemma unknown_operation:
  assumes "om_ops m name = None"
  shows "cancel_operation m name = (Err (StatusErr NotFound ''operation %q not found'' [name] None), m)"
    "delete_operation m name = (Err (StatusErr NotFound ''operation %q not found'' [name] None), m)"
  using assms by (simp_all add: cancel_operation_def delete_operation_def om_lookup_def)

lemma delete_others: "n \<noteq> name \<Longrightarrow> get_operation (snd (delete_operation m name)) n = get_operation m n"
  by (simp add: delete_operation_def get_operation_def om_lookup_def split: option.split)

lemma registered_entry:
  assumes "om_new m uuid cancel = (a, m1)" "m2 = om_update m1 a (\<lambda>e. foldl publish_new e ops)"
  shows "om_ops m2 = (om_ops m)(uuid \<mapsto> a) \<and> a < length (om_entries m2) \<and> om_entries m2 ! a = published cancel ops"
  using assms by (auto simp: om_new_def om_update_def published_def)

subsection \<open>Properties\<close>

text \<open>
  C6.  A stream (of \<^verbatim>\<open>Execute\<close> or \<^verbatim>\<open>WaitExecution\<close>, joining at any time, under any interleaving with
  the publisher) sends a subsequence of the updates the entry took, in order and without repeats;
  only the last can be final, and when the stream ends without error it has sent the final
  operation, the first one published with \<^verbatim>\<open>done\<close> set.
\<close>

theorem stream_sends_in_order:
  assumes "watching cancel ops w"
  shows "subseq (ss_sent (wt_stream w)) (enumerate 0 (visible ops)) \<and>
    (\<forall>r \<in> set (butlast (ss_sent (wt_stream w))). \<not> op_done (snd r)) \<and>
    (ss_pc (wt_stream w) = Returned (Ok ()) \<longrightarrow> ss_sent (wt_stream w) \<noteq> [] \<and>
      snd (last (ss_sent (wt_stream w))) = last (visible ops) \<and> op_done (last (visible ops)))"
proof -
  have "snd (last (history ops)) = last (visible ops)" if "ops \<noteq> []"
    using last_history [OF that] by simp
  then show ?thesis
    using sent_order [OF assms] by (auto simp: history_def [symmetric] last_of_def split: if_splits)
qed

definition demo_op :: "exec_stage \<Rightarrow> bool \<Rightarrow> operation" where
  "demo_op stage dn = \<lparr>op_name = ''op-1'', op_stage = stage, op_action = None, op_done = dn,
     op_response = None\<rparr>"

definition demo_ops :: "operation list" where
  "demo_ops = [demo_op CacheCheck False, demo_op Completed True, demo_op Executing False]"

text \<open>A stream that saw the first update and then, woken by the second, the final one.\<close>

definition demo_end :: watch where
  "demo_end =
     \<lparr>wt_entry = published True demo_ops,
      wt_stream = \<lparr>ss_last = Some (1, demo_op Completed True), ss_pc = Returned (Ok ()),
        ss_sent = [(0, demo_op CacheCheck False), (1, demo_op Completed True)]\<rparr>\<rparr>"

definition demo_mid :: watch where
  "demo_mid =
     \<lparr>wt_entry = published True demo_ops,
      wt_stream = \<lparr>ss_last = Some (0, demo_op CacheCheck False), ss_pc = Waiting 1,
        ss_sent = [(0, demo_op CacheCheck False)]\<rparr>\<rparr>"

lemma demo_published:
  "published True [demo_op CacheCheck False] = \<lparr>oe_latest = Some (0, demo_op CacheCheck False),
     oe_done = False, oe_cancel = True, oe_canceled = False, oe_changed = 1\<rparr>"
  "published True demo_ops = \<lparr>oe_latest = Some (1, demo_op Completed True),
     oe_done = True, oe_cancel = True, oe_canceled = False, oe_changed = 2\<rparr>"
  by (simp_all add: published_eq demo_ops_def) (simp_all add: demo_op_def)

lemma watching_mid: "watching True demo_ops demo_mid"
proof -
  let ?e = "published True [demo_op CacheCheck False]"
  let ?s = "\<lambda>pc sent last. \<lparr>wt_entry = ?e, wt_stream = \<lparr>ss_last = last, ss_pc = pc, ss_sent = sent\<rparr>\<rparr>"
  have "watching True [demo_op CacheCheck False] (?s Looping [] None)"
    using w_join [of True "[demo_op CacheCheck False]"] by (simp add: stream_init_def)
  from w_step [OF this st_look]
  have "watching True [demo_op CacheCheck False] (?s (Sending (0, demo_op CacheCheck False) False 1) [] None)"
    by (simp add: stream_look_def snapshot_def demo_published)
  from w_step [OF this st_send [of _ "(0, demo_op CacheCheck False)" False 1]]
  have "watching True [demo_op CacheCheck False]
      (?s (Waiting 1) [(0, demo_op CacheCheck False)] (Some (0, demo_op CacheCheck False)))"
    by (simp add: stream_sent_def)
  from w_pub [OF w_pub [OF this, of "demo_op Completed True"], of "demo_op Executing False"]
  show ?thesis by (simp add: demo_mid_def demo_ops_def published_def)
qed

lemma watching_end: "watching True demo_ops demo_end"
proof -
  let ?s = "\<lambda>pc. \<lparr>wt_entry = published True demo_ops,
    wt_stream = \<lparr>ss_last = Some (0, demo_op CacheCheck False), ss_pc = pc,
      ss_sent = [(0, demo_op CacheCheck False)]\<rparr>\<rparr>"
  have "watching True demo_ops (?s (Waiting 1))"
    using watching_mid by (simp add: demo_mid_def)
  from w_step [OF this st_wake [of _ 1]]
  have "watching True demo_ops (?s Looping)" by (simp add: closed_def demo_published)
  from w_step [OF this st_look]
  have "watching True demo_ops (?s (Sending (1, demo_op Completed True) True 2))"
    by (simp add: stream_look_def snapshot_def demo_published)
  from w_step [OF this st_send [of _ "(1, demo_op Completed True)" True 2]]
  show ?thesis by (simp add: stream_sent_def demo_end_def)
qed

theorem stream_sends_in_order_witness:
  "subseq [(0, demo_op CacheCheck False), (1, demo_op Completed True)] (enumerate 0 (visible demo_ops)) \<and>
    last (visible demo_ops) = demo_op Completed True"
proof -
  have "subseq (ss_sent (wt_stream demo_end)) (enumerate 0 (visible demo_ops)) \<and>
    (\<forall>r \<in> set (butlast (ss_sent (wt_stream demo_end))). \<not> op_done (snd r)) \<and>
    (ss_pc (wt_stream demo_end) = Returned (Ok ()) \<longrightarrow> ss_sent (wt_stream demo_end) \<noteq> [] \<and>
      snd (last (ss_sent (wt_stream demo_end))) = last (visible demo_ops) \<and>
      op_done (last (visible demo_ops)))"
    by (rule stream_sends_in_order [OF watching_end])
  then show ?thesis unfolding demo_end_def by auto
qed

text \<open>
  C7.  No lost wake-up: a stream that waits on an open channel has seen the latest state and it is
  not final.  Once the operation is done a stream is never blocked, and each of its steps brings
  its end closer, so it ends after at most four.
\<close>

theorem stream_never_stuck:
  assumes "watching cancel ops w"
  shows "(\<forall>ch. ss_pc (wt_stream w) = Waiting ch \<longrightarrow> closed (wt_entry w) ch \<or>
      ss_last (wt_stream w) = oe_latest (wt_entry w) \<and> \<not> oe_done (wt_entry w)) \<and>
    (oe_done (wt_entry w) \<and> \<not> is_returned (ss_pc (wt_stream w)) \<longrightarrow>
      (\<exists>ss. stream_step (wt_entry w) (wt_stream w) ss) \<and>
      (\<forall>ss. stream_step (wt_entry w) (wt_stream w) ss \<longrightarrow>
        stream_rank (ss_pc ss) < stream_rank (ss_pc (wt_stream w)))) \<and>
    stream_rank (ss_pc (wt_stream w)) \<le> 4"
proof -
  have "wt_entry w = published cancel ops" using watching_ok [OF assms] by simp
  then have "oe_done (wt_entry w) \<longleftrightarrow> (\<exists>op \<in> set ops. op_done op)" by (simp add: published_done)
  moreover have "stream_rank pc \<le> 4" for pc by (cases pc) simp_all
  ultimately show ?thesis
    using watching_closed [OF assms] stream_ends [OF assms] by blast
qed

theorem stream_never_stuck_witness:
  "closed (wt_entry demo_mid) 1 \<and> (\<exists>ss. stream_step (wt_entry demo_mid) (wt_stream demo_mid) ss)"
proof -
  have "(\<forall>ch. ss_pc (wt_stream demo_mid) = Waiting ch \<longrightarrow> closed (wt_entry demo_mid) ch \<or>
      ss_last (wt_stream demo_mid) = oe_latest (wt_entry demo_mid) \<and> \<not> oe_done (wt_entry demo_mid)) \<and>
    (oe_done (wt_entry demo_mid) \<and> \<not> is_returned (ss_pc (wt_stream demo_mid)) \<longrightarrow>
      (\<exists>ss. stream_step (wt_entry demo_mid) (wt_stream demo_mid) ss) \<and>
      (\<forall>ss. stream_step (wt_entry demo_mid) (wt_stream demo_mid) ss \<longrightarrow>
        stream_rank (ss_pc ss) < stream_rank (ss_pc (wt_stream demo_mid)))) \<and>
    stream_rank (ss_pc (wt_stream demo_mid)) \<le> 4"
    by (rule stream_never_stuck [OF watching_mid])
  then show ?thesis by (simp add: demo_mid_def demo_published is_returned_def)
qed

text \<open>
  \<^verbatim>\<open>WaitOperation\<close>: an operation that is done stays as it is whatever is published later, a wait
  that looks at it returns it, and a wait that blocked before is woken.
\<close>

theorem wait_operation_wakes:
  assumes "wait_step (published cancel ops) WLooping (WWaiting ch)"
    and "\<exists>op \<in> set later. op_done op"
  shows "closed (published cancel (ops @ later)) ch \<and>
    published cancel ((ops @ later) @ rest) = published cancel (ops @ later) \<and>
    (\<forall>pc. wait_step (published cancel (ops @ later)) WLooping pc \<longleftrightarrow>
      pc = WReturned (Ok (Some (last (visible (ops @ later))))))"
proof -
  have ch: "ch = length (visible ops)" and not_done: "\<not> (\<exists>op \<in> set ops. op_done op)"
    using assms(1) by (auto simp: snapshot_def published_eq elim!: wait_step.cases)
  have dn: "\<exists>op \<in> set (ops @ later). op_done op" using assms(2) by auto
  have "ch < length (visible (ops @ later))"
    using assms(2) by (auto simp: ch visible_append [OF not_done])
  moreover have "published cancel ((ops @ later) @ rest) = published cancel (ops @ later)"
    unfolding published_append [of cancel "ops @ later" rest]
    by (rule publish_done_stable) (use dn in \<open>simp add: published_done\<close>)
  moreover have "wait_step (published cancel (ops @ later)) WLooping pc \<longleftrightarrow>
      pc = WReturned (Ok (Some (last (visible (ops @ later)))))" for pc
  proof -
    have "ops @ later \<noteq> []" using assms(2) by auto
    then have "snapshot (published cancel (ops @ later)) =
        (Some (length (visible (ops @ later)) - 1, last (visible (ops @ later))), True,
         length (visible (ops @ later)))"
      using dn unfolding snapshot_def published_eq by simp
    then show ?thesis
      by (auto elim!: wait_step.cases intro: wt_done [THEN subst [where P = "wait_step _ _", rotated]])
  qed
  ultimately show ?thesis by (simp add: closed_def published_eq)
qed

theorem wait_operation_wakes_witness:
  "closed (published True ([demo_op CacheCheck False] @ [demo_op Completed True])) 1 \<and>
    published True (([demo_op CacheCheck False] @ [demo_op Completed True]) @ [demo_op Executing False]) =
      published True ([demo_op CacheCheck False] @ [demo_op Completed True]) \<and>
    (\<forall>pc. wait_step (published True ([demo_op CacheCheck False] @ [demo_op Completed True])) WLooping pc \<longleftrightarrow>
      pc = WReturned (Ok (Some (last (visible ([demo_op CacheCheck False] @ [demo_op Completed True]))))))"
proof (rule wait_operation_wakes)
  show "wait_step (published True [demo_op CacheCheck False]) WLooping (WWaiting 1)"
    by (rule wt_block) (simp add: snapshot_def demo_published)
qed (simp add: demo_op_def)

text \<open>
  C38.  The Operations service: an operation registered under a fresh name is answered with its
  latest update (and as without state before the first), other names are answered as before, and
  \<^verbatim>\<open>ListOperations\<close> lists exactly what \<^verbatim>\<open>GetOperation\<close> answers for each name.  \<^verbatim>\<open>WaitOperation\<close>
  watches the entry registered.  \<^verbatim>\<open>CancelOperation\<close> succeeds, calls the entry's cancel function when it
  has one, and changes no other entry, no name and no answer.  \<^verbatim>\<open>DeleteOperation\<close> takes the name away
  from all four calls and leaves the entry, which streams may still watch, and the other names as they
  are.  A name that is not registered is \<^verbatim>\<open>NotFound\<close> for each of the calls and changes nothing.
\<close>

theorem operations_service:
  assumes "om_ok m" and "om_new m uuid cancel = (a, m1)"
    and "m2 = om_update m1 a (\<lambda>e. foldl publish_new e ops)"
    and "cancel_operation m2 uuid = (rc, mc)" and "delete_operation m2 uuid = (rd, md)"
  shows "get_operation m2 name =
      (if name = uuid then
         (if ops = [] then Err (StatusErr NotFound ''operation %q has no state'' [name] None)
          else Ok (last (visible ops)))
       else get_operation m name) \<and>
    map Ok (list_operations m2 names) = filter is_ok (map (get_operation m2) names) \<and>
    wait_operation m2 uuid = Ok a \<and>
    rc = Ok () \<and> om_ops mc = om_ops m2 \<and> (\<forall>n. get_operation mc n = get_operation m2 n) \<and>
    om_entries mc = (om_entries m2)[a := (om_entries m2 ! a)\<lparr>oe_canceled := cancel\<rparr>] \<and>
    rd = Ok () \<and> om_entries md = om_entries m2 \<and> (\<forall>n. n \<noteq> uuid \<longrightarrow> get_operation md n = get_operation m2 n) \<and>
    (\<forall>mx n. om_ops mx n = None \<or> mx = md \<and> n = uuid \<longrightarrow>
      (let gone = StatusErr NotFound ''operation %q not found'' [n] None
       in get_operation mx n = Err gone \<and> wait_operation mx n = Err gone \<and>
         cancel_operation mx n = (Err gone, mx) \<and> delete_operation mx n = (Err gone, mx))) \<and>
    om_ok m2 \<and> om_ok md \<and> om_ok mc"
proof -
  have reg: "om_ops m2 = (om_ops m)(uuid \<mapsto> a)" "a < length (om_entries m2)" "om_entries m2 ! a = published cancel ops"
    using registered_entry [OF assms(2,3)] by simp_all
  have ok: "om_ok m2"
    using om_ok_update [OF om_ok_new [OF assms(1), of uuid cancel], of a] assms(2,3) by simp
  have can: "rc = Ok () \<and> om_ops mc = om_ops m2 \<and>
      om_entries mc = (om_entries m2)[a := (om_entries m2 ! a)\<lparr>oe_canceled := cancel\<rparr>]"
    by (rule cancel_registered [OF _ reg(2,3) assms(4)]) (simp add: reg(1))
  have del: "rd = Ok ()" "md = m2\<lparr>om_ops := (om_ops m2)(uuid := None)\<rparr>"
    using assms(5) reg(1) by (simp_all add: delete_operation_def)
  have gone: "get_operation mx n = Err (StatusErr NotFound ''operation %q not found'' [n] None)"
    "wait_operation mx n = Err (StatusErr NotFound ''operation %q not found'' [n] None)" if "om_ops mx n = None" for mx n
    using that by (simp_all add: get_operation_def wait_operation_def om_lookup_def)
  have none: "om_ops mx n = None" if "om_ops mx n = None \<or> mx = md \<and> n = uuid" for mx n
    using that by (auto simp: del(2))
  have "om_ok mc" "om_ok md" using om_ok_cancel [OF ok, of uuid] om_ok_delete [OF ok, of uuid] assms(4,5) by simp_all
  moreover have "wait_operation m2 uuid = Ok a" by (simp add: wait_operation_def om_lookup_def reg(1))
  moreover have "get_operation mc n = get_operation m2 n" for n using cancel_answers [OF ok, of uuid n] assms(4) by simp
  moreover have "get_operation md n = get_operation m2 n" if "n \<noteq> uuid" for n
    using delete_others [OF that, of m2] assms(5) by simp
  ultimately show ?thesis
    using get_new_publish [OF assms(1,2), of ops name] list_operations_eq [of m2 names] ok can del
      gone [OF none] unknown_operation [OF none]
    by (simp add: assms(3) Let_def)
qed

theorem operations_service_witness:
  "\<exists>m2 mc md. m2 = om_update (snd (om_new new_operation_manager ''op-1'' True)) 0 (\<lambda>e. foldl publish_new e demo_ops) \<and>
    cancel_operation m2 ''op-1'' = (Ok (), mc) \<and> delete_operation m2 ''op-1'' = (Ok (), md) \<and>
    get_operation m2 ''op-1'' = Ok (demo_op Completed True) \<and>
    om_entries mc = (om_entries m2)[0 := (om_entries m2 ! 0)\<lparr>oe_canceled := True\<rparr>]"
proof -
  let ?m2 = "om_update (snd (om_new new_operation_manager ''op-1'' True)) 0 (\<lambda>e. foldl publish_new e demo_ops)"
  have ok: "om_ok new_operation_manager" by (simp add: om_ok_def new_operation_manager_def)
  have new: "om_new new_operation_manager ''op-1'' True =
      (0, snd (om_new new_operation_manager ''op-1'' True))"
    by (simp add: om_new_def new_operation_manager_def)
  obtain rc mc rd md where calls: "cancel_operation ?m2 ''op-1'' = (rc, mc)" "delete_operation ?m2 ''op-1'' = (rd, md)"
    by fastforce
  have "last (visible demo_ops) = demo_op Completed True" by (simp add: demo_ops_def demo_op_def)
  then show ?thesis
    using operations_service [OF ok new refl calls, of "''op-1''" "[]"] calls
    by (intro exI [of _ ?m2] exI [of _ mc] exI [of _ md]) (simp add: demo_ops_def)
qed

end
