(* ===== verification/Server.thy ===== *)
theory Server
  imports Operations Cas
begin

text \<open>
  \<^verbatim>\<open>internal/server/server.go\<close>: the server and its capabilities.  A nil \<^verbatim>\<open>Runner\<close> is \<open>None\<close>.
  Registering the services on a gRPC server is in theory \<open>ServerRun\<close>.
\<close>

subsection \<open>The server\<close>

text \<open>
  A runner executes a command over the world \<open>'s\<close> the store lives in: it gets the command, the
  digest of the input root and the timeout in nanoseconds.
\<close>

type_synonym 's runner = "'s \<Rightarrow> command \<Rightarrow> digest_ptr \<Rightarrow> int64 \<Rightarrow> action_result res \<times> 's"

record 's server =
  sv_store :: "'s store"
  sv_exec :: "'s runner option"
  sv_ops :: op_manager
  sv_instance :: string

definition new_server :: "'s store \<Rightarrow> 's runner option \<Rightarrow> string \<Rightarrow> 's server" where
  "new_server st exec instance_name =
     \<lparr>sv_store = st, sv_exec = exec, sv_ops = new_operation_manager, sv_instance = instance_name\<rparr>"

definition execution_enabled :: "'s server \<Rightarrow> bool" where
  "execution_enabled sv \<longleftrightarrow> sv_exec sv \<noteq> None"

subsection \<open>Capabilities\<close>

datatype digest_function = SHA256

datatype symlink_strategy = SYMLINK_ALLOWED

record cache_capabilities =
  cc_digest_functions :: "digest_function list"
  cc_update_enabled :: bool
  cc_max_batch :: int64
  cc_symlinks :: symlink_strategy

record execution_capabilities =
  xc_digest_function :: digest_function
  xc_enabled :: bool
  xc_digest_functions :: "digest_function list"

record server_capabilities =
  sc_cache :: cache_capabilities
  sc_execution :: "execution_capabilities option"
  sc_low_api :: "int32 \<times> int32"
  sc_high_api :: "int32 \<times> int32"

definition max_batch_size :: int64 where
  "max_batch_size = 4 * 1024 * 1024"

definition get_capabilities :: "'s server \<Rightarrow> server_capabilities" where
  "get_capabilities sv =
     \<lparr>sc_cache = \<lparr>cc_digest_functions = [SHA256], cc_update_enabled = True,
        cc_max_batch = max_batch_size, cc_symlinks = SYMLINK_ALLOWED\<rparr>,
      sc_execution =
        (if sv_exec sv \<noteq> None
         then Some \<lparr>xc_digest_function = SHA256, xc_enabled = True, xc_digest_functions = [SHA256]\<rparr>
         else None),
      sc_low_api = (2, 0), sc_high_api = (2, 3)\<rparr>"

end
