(* ===== verification/ActionCache.thy ===== *)
theory ActionCache
  imports CasService
begin

text \<open>
  The ActionCache service (\<^verbatim>\<open>internal/server/actioncache.go\<close>).  The action result of an update
  request is a pointer that may be nil.
\<close>

definition get_action_result :: "'s store \<Rightarrow> 's \<Rightarrow> digest_ptr \<Rightarrow> action_result res \<times> 's" where
  "get_action_result st s d =
     (case validate d of
        Err e \<Rightarrow> (Err (StatusErr InvalidArgument ''%v'' [] (Some e)), s)
      | Panic \<Rightarrow> (Panic, s)
      | Ok _ \<Rightarrow>
          (case st_get_ar st s d of
             (Err e, s') \<Rightarrow>
               (if error_is e ErrNotFound
                then (Err (StatusErr NotFound ''no cached result for %s'' [key d] None), s')
                else (Err (StatusErr Internal ''%v'' [] (Some e)), s'))
           | (Panic, s') \<Rightarrow> (Panic, s')
           | (Ok ar, s') \<Rightarrow> (Ok ar, s')))"

definition update_action_result ::
    "'s store \<Rightarrow> 's \<Rightarrow> digest_ptr \<Rightarrow> action_result option \<Rightarrow> action_result res \<times> 's" where
  "update_action_result st s d ar =
     (case validate d of
        Err e \<Rightarrow> (Err (StatusErr InvalidArgument ''%v'' [] (Some e)), s)
      | Panic \<Rightarrow> (Panic, s)
      | Ok _ \<Rightarrow>
          (case ar of
             None \<Rightarrow> (Err (StatusErr InvalidArgument ''action_result is required'' [] None), s)
           | Some a \<Rightarrow>
               (case st_put_ar st s d a of
                  (Err e, s') \<Rightarrow> (Err (StatusErr Internal ''%v'' [] (Some e)), s')
                | (Panic, s') \<Rightarrow> (Panic, s')
                | (Ok _, s') \<Rightarrow> (Ok a, s'))))"

declare get_action_result_def [handler_defs] update_action_result_def [handler_defs]

subsection \<open>Lemmas\<close>

text \<open>The code of an error a handler returns.\<close>

fun err_code :: "err \<Rightarrow> grpc_code option" where
  "err_code (StatusErr c f as e) = Some c"
| "err_code _ = None"

context blob_store
begin

lemma get_action_result_law:
  assumes "inv s" "get_action_result st s d = (r, s')"
  shows "inv s' \<and> vw s' = vw s \<and> r \<noteq> Panic \<and>
    (\<forall>ar. r = Ok ar \<longrightarrow> (\<exists>b. v_acs (vw s) (get_hash d) = Some b \<and> unmarshal_ar pb b = Inr ar)) \<and>
    (\<forall>e. r = Err e \<longrightarrow> err_code e \<in> {Some InvalidArgument, Some NotFound, Some Internal} \<and>
       (err_code e = Some InvalidArgument \<longleftrightarrow> validate d \<noteq> Ok ()) \<and>
       (err_code e = Some NotFound \<longrightarrow> v_acs (vw s) (get_hash d) = None))"
proof (cases "validate d")
  case (Ok u)
  then have d: "validate d = Ok ()" by simp
  obtain ra s1 where g: "st_get_ar st s d = (ra, s1)" by fastforce
  show ?thesis
    using get_ar_law [OF assms(1) valid_okd [OF d] g] assms(2)
    by (cases ra) (auto simp: get_action_result_def d g split: if_splits)
qed (use assms in \<open>auto simp: get_action_result_def\<close>)

lemma update_action_result_law:
  assumes "inv s" "update_action_result st s d ar = (r, s')"
  shows "inv s' \<and> r \<noteq> Panic \<and>
    (\<forall>x. r = Ok x \<longrightarrow> ar = Some x \<and> validate d = Ok () \<and>
       (\<exists>b. marshal_ar pb x = Inr b \<and> vw s' = put_ac (vw s) d b)) \<and>
    v_blobs (vw s') = v_blobs (vw s) \<and>
    (validate d \<noteq> Ok () \<or> ar = None \<longrightarrow> s' = s)"
proof (cases "validate d = Ok () \<and> ar \<noteq> None")
  case True
  then obtain x where d: "validate d = Ok ()" and x: "ar = Some x" by auto
  obtain ru s1 where p: "st_put_ar st s d x = (ru, s1)" by fastforce
  have blobs: "v_blobs (put_ac v d b) = v_blobs v" for v b by (simp add: put_ac_def)
  show ?thesis
    using put_ar_law [OF assms(1) valid_okd [OF d] p] assms(2)
    by (cases ru) (auto simp: update_action_result_def d x p blobs)
next
  case False
  then show ?thesis
    using assms by (cases "validate d") (auto simp: update_action_result_def)
qed

lemma update_then_get_law:
  assumes "inv s" "ar_roundtrip pb x"
    and "update_action_result st s d (Some x) = (Ok y, s1)" "get_action_result st s1 d = (r, s2)"
  shows "r = Ok x \<or> (\<exists>e. r = Err e \<and> err_code e = Some Internal)"
proof -
  obtain b where b: "marshal_ar pb x = Inr b" "unmarshal_ar pb b = Inr x"
    using assms(2) by (auto simp: ar_roundtrip_def)
  have u: "inv s1" "vw s1 = put_ac (vw s) d b" "validate d = Ok ()"
    using update_action_result_law [OF assms(1,3)] b(1) by auto
  show ?thesis
    using get_action_result_law [OF u(1) assms(4)] u b by (cases r) auto
qed

end

context reliable_store
begin

lemma update_then_get_total:
  assumes "inv s" "ar_roundtrip pb x" "validate d = Ok ()"
    and "update_action_result st s d (Some x) = (r1, s1)" "get_action_result st s1 d = (r2, s2)"
  shows "r1 = Ok x \<and> r2 = Ok x"
proof -
  obtain b where b: "marshal_ar pb x = Inr b" "unmarshal_ar pb b = Inr x"
    using assms(2) by (auto simp: ar_roundtrip_def)
  note d = valid_okd [OF assms(3)]
  have r1: "r1 = Ok x"
    using put_ar_total [OF assms(1) d b(1)] assms(4)
    by (cases "st_put_ar st s d x") (auto simp: update_action_result_def assms(3))
  then have u: "inv s1" "vw s1 = put_ac (vw s) d b"
    using update_action_result_law [OF assms(1,4)] b(1) by auto
  have "fst (st_get_ar st s1 d) = Ok x"
    using get_ar_total [OF u(1) d _ b(2)] u(2) by simp
  then show ?thesis
    using r1 assms(5) by (cases "st_get_ar st s1 d") (auto simp: get_action_result_def assms(3))
qed

end

subsection \<open>Properties\<close>

text \<open>
  \<^verbatim>\<open>GetActionResult\<close> over any store that meets the contract: it returns only a result that is
  stored under the action's hash, answers \<^verbatim>\<open>InvalidArgument\<close> exactly for an invalid digest and
  \<^verbatim>\<open>NotFound\<close> only when there is no entry, and changes nothing.
\<close>

theorem get_action_result_sound:
  assumes "blob_store st pb si okd vw" and "si s" and "get_action_result st s d = (r, s')"
  shows "vw s' = vw s \<and> r \<noteq> Panic \<and>
    (\<forall>ar. r = Ok ar \<longrightarrow> (\<exists>b. v_acs (vw s) (get_hash d) = Some b \<and> unmarshal_ar pb b = Inr ar)) \<and>
    (\<forall>e. r = Err e \<longrightarrow> err_code e \<in> {Some InvalidArgument, Some NotFound, Some Internal} \<and>
       (err_code e = Some InvalidArgument \<longleftrightarrow> validate d \<noteq> Ok ()) \<and>
       (err_code e = Some NotFound \<longrightarrow> v_acs (vw s) (get_hash d) = None))"
  using blob_store.get_action_result_law [OF assms] by blast

theorem get_action_result_sound_witness:
  "v_acs (mem_view new_mem_store) (get_hash (Some zero_digest)) = None \<and> validate (Some zero_digest) = Ok ()"
proof -
  have "mem_view new_mem_store = mem_view new_mem_store \<and> Err (StatusErr NotFound ''no cached result for %s''
      [key (Some zero_digest)] None) \<noteq> (Panic :: action_result res) \<and>
    (\<forall>ar. Err (StatusErr NotFound ''no cached result for %s'' [key (Some zero_digest)] None) = Ok ar \<longrightarrow>
      (\<exists>b. v_acs (mem_view new_mem_store) (get_hash (Some zero_digest)) = Some b \<and>
        unmarshal_ar one_codec b = Inr ar)) \<and>
    (\<forall>e. Err (StatusErr NotFound ''no cached result for %s'' [key (Some zero_digest)] None) =
        (Err e :: action_result res) \<longrightarrow>
       err_code e \<in> {Some InvalidArgument, Some NotFound, Some Internal} \<and>
       (err_code e = Some InvalidArgument \<longleftrightarrow> validate (Some zero_digest) \<noteq> Ok ()) \<and>
       (err_code e = Some NotFound \<longrightarrow> v_acs (mem_view new_mem_store) (get_hash (Some zero_digest)) = None))"
    by (rule get_action_result_sound [OF mem.blob_store_axioms])
       (simp_all add: get_action_result_def zero_valid mem_get_ar_def new_mem_store_def)
  then show ?thesis by simp
qed

text \<open>
  Over the in-memory store a result that was updated is the one a lookup of the same action
  returns, for any result the codec can serialize; an update touches no blob, and one that is
  refused changes nothing.
\<close>

theorem action_cache_roundtrip:
  assumes "ar_roundtrip pb x" and "validate d = Ok ()"
    and "update_action_result (mem_ops pb) m d (Some x) = (r1, m1)"
    and "get_action_result (mem_ops pb) m1 d = (r2, m2)"
  shows "r1 = Ok x \<and> r2 = Ok x \<and> ms_blobs m1 = ms_blobs m"
  using mem.update_then_get_total [OF _ assms] mem.update_action_result_law [OF _ assms(3)] by simp

theorem action_cache_roundtrip_witness:
  "\<exists>r1 m1 r2 m2. update_action_result (mem_ops one_codec) new_mem_store (Some zero_digest) (Some one_result) =
      (r1, m1) \<and> get_action_result (mem_ops one_codec) m1 (Some zero_digest) = (r2, m2) \<and>
    r1 = Ok one_result \<and> r2 = Ok one_result \<and> ms_blobs m1 = ms_blobs new_mem_store"
proof -
  have rt: "ar_roundtrip one_codec one_result"
    by (simp add: one_codec_def table_codec_ar)
  obtain r1 m1 where u: "update_action_result (mem_ops one_codec) new_mem_store (Some zero_digest)
      (Some one_result) = (r1, m1)" by fastforce
  obtain r2 m2 where g: "get_action_result (mem_ops one_codec) m1 (Some zero_digest) = (r2, m2)"
    by fastforce
  show ?thesis
    using action_cache_roundtrip [OF rt zero_valid u g] u g by auto
qed

end
