(* ===== verification/Execution.thy ===== *)
theory Execution
  imports Server ActionCache
begin

text \<open>
  \<^verbatim>\<open>internal/server/execution.go\<close>.  The goroutine of an action is a function of the world that
  returns the operations it publishes, in order; a stream watches them as in theory \<open>Operations\<close>.
  The runner is the \<^verbatim>\<open>Runner\<close> interface, a parameter: the locale \<open>action_runner\<close> states what the
  server relies on.
\<close>

subsection \<open>Stages\<close>

instantiation exec_stage :: linorder
begin

fun stage_rank :: "exec_stage \<Rightarrow> nat" where
  "stage_rank CacheCheck = 0"
| "stage_rank Executing = 1"
| "stage_rank Completed = 2"

definition less_eq_exec_stage :: "exec_stage \<Rightarrow> exec_stage \<Rightarrow> bool" where
  "less_eq_exec_stage a b \<longleftrightarrow> stage_rank a \<le> stage_rank b"

definition less_exec_stage :: "exec_stage \<Rightarrow> exec_stage \<Rightarrow> bool" where
  "less_exec_stage a b \<longleftrightarrow> stage_rank a < stage_rank b"

instance
proof
  fix a b :: exec_stage
  show "a \<le> b \<Longrightarrow> b \<le> a \<Longrightarrow> a = b"
    by (cases a; cases b) (simp_all add: less_eq_exec_stage_def)
qed (auto simp: less_eq_exec_stage_def less_exec_stage_def)

end

subsection \<open>The operations an action publishes\<close>

definition operation_msg ::
    "string \<Rightarrow> digest_ptr \<Rightarrow> exec_stage \<Rightarrow> exec_response option \<Rightarrow> operation" where
  "operation_msg name d stage resp =
     \<lparr>op_name = name, op_stage = stage, op_action = d, op_done = (resp \<noteq> None), op_response = resp\<rparr>"

definition completed :: "string \<Rightarrow> digest_ptr \<Rightarrow> exec_response \<Rightarrow> operation" where
  "completed name d resp = operation_msg name d Completed (Some resp)"

definition failed :: "string \<Rightarrow> digest_ptr \<Rightarrow> grpc_code \<Rightarrow> message \<Rightarrow> operation" where
  "failed name d code msg =
     completed name d \<lparr>er_result = None, er_cached = False, er_status = status_proto code msg\<rparr>"

record execute_request =
  xr_action_digest :: digest_ptr
  xr_skip_cache :: bool

text \<open>Fifteen minutes, in nanoseconds.\<close>

definition default_action_timeout :: int64 where
  "default_action_timeout = 15 * 60 * 1000000000"

definition action_timeout :: "action \<Rightarrow> int64" where
  "action_timeout a = (case a_timeout a of None \<Rightarrow> default_action_timeout | Some t \<Rightarrow> t)"

text \<open>
  What a goroutine did: how it ended (\<open>Ok ()\<close> is a return, \<open>Panic\<close> a panic in a call), what it
  published, and the world.
\<close>

type_synonym 's activity = "(unit res \<times> operation list) \<times> 's"

definition finish_action ::
    "'s store \<Rightarrow> 's \<Rightarrow> string \<Rightarrow> digest_ptr \<Rightarrow> action \<Rightarrow> action_result \<Rightarrow> 's activity" where
  "finish_action st s name d a ar =
     (let fin = completed name d
            \<lparr>er_result = Some ar, er_cached = False, er_status = status_proto OK empty_message\<rparr>
      in if \<not> a_do_not_cache a \<and> ar_exit_code ar = 0 then
           (case st_put_ar st s d ar of
              (Panic, s') \<Rightarrow> ((Panic, []), s')
            | (_, s') \<Rightarrow> ((Ok (), [fin]), s'))
         else ((Ok (), [fin]), s))"

definition run_command ::
    "'s store \<Rightarrow> 's runner \<Rightarrow> 's \<Rightarrow> string \<Rightarrow> digest_ptr \<Rightarrow> action \<Rightarrow> command \<Rightarrow> 's activity" where
  "run_command st run s name d a cmd =
     (case run s cmd (a_input_root a) (action_timeout a) of
        (Err e, s') \<Rightarrow>
          ((Ok (), [failed name d (if error_is e CtxCanceled then Canceled else Internal) e]), s')
      | (Panic, s') \<Rightarrow> ((Panic, []), s')
      | (Ok ar, s') \<Rightarrow> finish_action st s' name d a ar)"

definition run_uncached ::
    "codec \<Rightarrow> 's store \<Rightarrow> 's runner \<Rightarrow> 's \<Rightarrow> string \<Rightarrow> digest_ptr \<Rightarrow> action \<Rightarrow> 's activity" where
  "run_uncached pb st run s name d a =
     (case st_get st s (a_command_digest a) of
        (Err e, s') \<Rightarrow>
          ((Ok (), [failed name d FailedPrecondition
                      (Wrapf ''command %s not found: %v'' [key (a_command_digest a)] e)]), s')
      | (Panic, s') \<Rightarrow> ((Panic, []), s')
      | (Ok data, s') \<Rightarrow>
          (case unmarshal_cmd pb data of
             Inl e \<Rightarrow> ((Ok (), [failed name d Internal (Wrapf ''unmarshal command: %v'' [] (Ext e))]), s')
           | Inr cmd \<Rightarrow>
               (case run_command st run s' name d a cmd of
                  ((r, ops), s'') \<Rightarrow> ((r, operation_msg name d Executing None # ops), s''))))"

definition run_action ::
    "codec \<Rightarrow> 's store \<Rightarrow> 's runner \<Rightarrow> 's \<Rightarrow> string \<Rightarrow> execute_request \<Rightarrow> action \<Rightarrow> 's activity" where
  "run_action pb st run s name req a =
     (let d = xr_action_digest req;
          op0 = operation_msg name d CacheCheck None;
          miss = (\<lambda>s'. case run_uncached pb st run s' name d a of ((r, ops), s'') \<Rightarrow> ((r, op0 # ops), s''))
      in if \<not> xr_skip_cache req \<and> \<not> a_do_not_cache a then
           (case st_get_ar st s d of
              (Ok ar, s') \<Rightarrow>
                ((Ok (), [op0, completed name d
                    \<lparr>er_result = Some ar, er_cached = True, er_status = status_proto OK empty_message\<rparr>]), s')
            | (Panic, s') \<Rightarrow> ((Panic, [op0]), s')
            | (Err e, s') \<Rightarrow> miss s')
         else miss s)"

subsection \<open>The handlers\<close>

definition fetch_action :: "codec \<Rightarrow> 's store \<Rightarrow> 's \<Rightarrow> digest_ptr \<Rightarrow> action res \<times> 's" where
  "fetch_action pb st s d =
     (case st_get st s d of
        (Err e, s') \<Rightarrow>
          (if error_is e ErrNotFound
           then (Err (StatusErr FailedPrecondition ''action %s not found in CAS'' [key d] None), s')
           else (Err (StatusErr Internal ''fetch action: %v'' [] (Some e)), s'))
      | (Panic, s') \<Rightarrow> (Panic, s')
      | (Ok data, s') \<Rightarrow>
          (case unmarshal_action pb data of
             Inl e \<Rightarrow> (Err (StatusErr Internal ''unmarshal action: %v'' [] (Some (Ext e))), s')
           | Inr a \<Rightarrow> (Ok a, s')))"

text \<open>\<^verbatim>\<open>Execute\<close> until the action is fetched: the runner and the action, or the status it answers.\<close>

definition admit :: "codec \<Rightarrow> 's server \<Rightarrow> 's \<Rightarrow> execute_request \<Rightarrow> ('s runner \<times> action) res \<times> 's" where
  "admit pb sv s req =
     (case sv_exec sv of
        None \<Rightarrow> (Err (StatusErr Unimplemented ''remote execution is not enabled on this server'' [] None), s)
      | Some run \<Rightarrow>
          (case validate (xr_action_digest req) of
             Err e \<Rightarrow> (Err (StatusErr InvalidArgument ''%v'' [] (Some e)), s)
           | Panic \<Rightarrow> (Panic, s)
           | Ok _ \<Rightarrow>
               (case fetch_action pb (sv_store sv) s (xr_action_digest req) of
                  (Err e, s') \<Rightarrow> (Err e, s')
                | (Panic, s') \<Rightarrow> (Panic, s')
                | (Ok a, s') \<Rightarrow> (Ok (run, a), s'))))"

text \<open>
  And on, up to the point where its goroutine runs and its stream watches: the runner, the action and
  the address of the new entry.
\<close>

definition execute ::
    "codec \<Rightarrow> 's server \<Rightarrow> 's \<Rightarrow> string \<Rightarrow> execute_request \<Rightarrow>
      (('s runner \<times> action \<times> nat) res \<times> 's server) \<times> 's" where
  "execute pb sv s uuid req =
     (case admit pb sv s req of
        (Err e, s') \<Rightarrow> ((Err e, sv), s')
      | (Panic, s') \<Rightarrow> ((Panic, sv), s')
      | (Ok (run, a), s') \<Rightarrow>
          (case om_new (sv_ops sv) uuid True of
             (addr, om) \<Rightarrow> ((Ok (run, a, addr), sv\<lparr>sv_ops := om\<rparr>), s')))"

text \<open>\<^verbatim>\<open>WaitExecution\<close> up to the point where its stream watches the entry.\<close>

definition wait_execution :: "'s server \<Rightarrow> string \<Rightarrow> nat res" where
  "wait_execution sv name =
     (case om_lookup (sv_ops sv) name of
        None \<Rightarrow> Err (StatusErr NotFound ''operation %q not found'' [name] None)
      | Some a \<Rightarrow> Ok a)"

declare admit_def [handler_defs] execute_def [handler_defs] wait_execution_def [handler_defs]

subsection \<open>The protocol of an action\<close>

text \<open>
  What the operations of a finished action look like: at least one, stages strictly increasing,
  all of one name and action, the last and only the last is done, completed and carries a
  response.
\<close>

definition well_formed_ops :: "string \<Rightarrow> digest_ptr \<Rightarrow> operation list \<Rightarrow> bool" where
  "well_formed_ops name d ops \<longleftrightarrow>
     ops \<noteq> [] \<and> sorted_wrt (\<lambda>x y. op_stage x < op_stage y) ops \<and> op_stage (last ops) = Completed \<and>
     list_all (\<lambda>op. op_name op = name \<and> op_action op = d \<and>
       op_done op = (op_stage op = Completed) \<and> op_done op = (op_response op \<noteq> None)) ops"

lemma stage_less [simp]: "CacheCheck < Executing" "CacheCheck < Completed" "Executing < Completed"
  by (simp_all add: less_exec_stage_def)

lemma operation_msg_sel [simp]:
  "op_name (operation_msg name d stage resp) = name" "op_stage (operation_msg name d stage resp) = stage"
  "op_action (operation_msg name d stage resp) = d"
  "op_done (operation_msg name d stage resp) = (resp \<noteq> None)"
  "op_response (operation_msg name d stage resp) = resp"
  by (simp_all add: operation_msg_def)

lemma completed_sel [simp]:
  "op_name (completed name d resp) = name" "op_stage (completed name d resp) = Completed"
  "op_action (completed name d resp) = d" "op_done (completed name d resp)"
  "op_response (completed name d resp) = Some resp"
  by (simp_all add: completed_def)

lemma failed_sel [simp]:
  "op_name (failed name d code msg) = name" "op_stage (failed name d code msg) = Completed"
  "op_action (failed name d code msg) = d" "op_done (failed name d code msg)"
  "op_response (failed name d code msg) =
     Some \<lparr>er_result = None, er_cached = False, er_status = status_proto code msg\<rparr>"
  by (simp_all add: failed_def)

text \<open>The response of the last operation, and the result in it.\<close>

definition outcome :: "operation list \<Rightarrow> exec_response option" where
  "outcome ops = op_response (last ops)"

definition outcome_result :: "operation list \<Rightarrow> action_result option" where
  "outcome_result ops = (case outcome ops of None \<Rightarrow> None | Some r \<Rightarrow> er_result r)"

text \<open>
  What may happen to the action cache: nothing, or the entry of the action becomes the result of a
  run, when the action may be cached and the command succeeded.
\<close>

definition cache_effect ::
    "codec \<Rightarrow> view \<Rightarrow> view \<Rightarrow> digest_ptr \<Rightarrow> action \<Rightarrow> operation list \<Rightarrow> bool" where
  "cache_effect pb v v' d a ops \<longleftrightarrow>
     v_acs v' = v_acs v \<or>
     (\<not> a_do_not_cache a \<and>
      (\<exists>ar b. outcome_result ops = Some ar \<and> ar_exit_code ar = 0 \<and> marshal_ar pb ar = Inr b \<and>
         v_acs v' = (v_acs v)(get_hash d \<mapsto> b)))"

lemma cache_effect_Cons: "ops \<noteq> [] \<Longrightarrow> cache_effect pb v v' d a (op # ops) = cache_effect pb v v' d a ops"
  by (simp add: cache_effect_def outcome_result_def outcome_def)

locale action_runner = blob_store +
  fixes run :: "'a runner"
  assumes run_law:
    "inv s \<Longrightarrow> run s cmd root timeout = (r, s') \<Longrightarrow>
      inv s' \<and> r \<noteq> Panic \<and> v_acs (vw s') = v_acs (vw s)"
begin

lemma finish_action_law:
  assumes "inv s" "okd d" "finish_action st s name d a ar = ((r, ops), s')"
  shows "inv s' \<and> r = Ok () \<and> (\<exists>resp. ops = [completed name d resp]) \<and> cache_effect pb (vw s) (vw s') d a ops"
proof (cases "\<not> a_do_not_cache a \<and> ar_exit_code ar = 0")
  case True
  obtain ru s1 where p: "st_put_ar st s d ar = (ru, s1)" by fastforce
  note law = put_ar_law [OF assms(1,2) p]
  have ops: "ops = [completed name d
      \<lparr>er_result = Some ar, er_cached = False, er_status = status_proto OK empty_message\<rparr>]"
    "s' = s1" "r = Ok ()"
    using assms(3) True law by (auto simp: finish_action_def p Let_def split: res.splits)
  then have "outcome_result ops = Some ar" by (simp add: outcome_result_def outcome_def)
  then show ?thesis
    using law True ops by (auto simp: cache_effect_def)
next
  case False
  then have "ops = [completed name d
      \<lparr>er_result = Some ar, er_cached = False, er_status = status_proto OK empty_message\<rparr>]"
    "s' = s" "r = Ok ()"
    using assms(3) by (auto simp: finish_action_def Let_def cong: if_cong)
  then show ?thesis using assms(1) by (auto simp: cache_effect_def)
qed

lemma run_command_law:
  assumes "inv s" "okd d" "run_command st run s name d a cmd = ((r, ops), s')"
  shows "inv s' \<and> r = Ok () \<and> (\<exists>resp. ops = [completed name d resp]) \<and> cache_effect pb (vw s) (vw s') d a ops"
proof -
  obtain rr s1 where rn: "run s cmd (a_input_root a) (action_timeout a) = (rr, s1)" by fastforce
  note law = run_law [OF assms(1) rn]
  show ?thesis
  proof (cases rr)
    case (Ok ar)
    then have "finish_action st s1 name d a ar = ((r, ops), s')"
      using assms(3) by (simp add: run_command_def rn)
    from finish_action_law [OF _ assms(2) this] law show ?thesis
      by (auto simp: cache_effect_def)
  next
    case (Err e)
    then show ?thesis
      using assms(3) law by (auto simp: run_command_def rn cache_effect_def failed_def)
  next
    case Panic
    then show ?thesis using law by simp
  qed
qed

lemma run_uncached_law:
  assumes "inv s" "okd d" "okd (a_command_digest a)"
    and "run_uncached pb st run s name d a = ((r, ops), s')"
  shows "inv s' \<and> r = Ok () \<and>
    (\<exists>resp. ops = [completed name d resp] \<or>
       ops = [operation_msg name d Executing None, completed name d resp]) \<and>
    cache_effect pb (vw s) (vw s') d a ops"
proof -
  obtain rg s1 where g: "st_get st s (a_command_digest a) = (rg, s1)" by fastforce
  note law = get_law [OF assms(1,3) g]
  show ?thesis
  proof (cases rg)
    case (Ok data)
    show ?thesis
    proof (cases "unmarshal_cmd pb data")
      case (Inl e)
      then show ?thesis
        using assms(4) law Ok by (auto simp: run_uncached_def g cache_effect_def failed_def)
    next
      case (Inr cmd)
      obtain r2 ops2 s2 where c: "run_command st run s1 name d a cmd = ((r2, ops2), s2)"
        by (metis surj_pair)
      have out: "r = r2" "ops = operation_msg name d Executing None # ops2" "s' = s2"
        using assms(4) Ok Inr by (simp_all add: run_uncached_def g c)
      have "inv s1" "vw s1 = vw s" using law by simp_all
      with run_command_law [OF _ assms(2) c] out show ?thesis
        by (auto simp: cache_effect_Cons)
    qed
  next
    case (Err e)
    then show ?thesis
      using assms(4) law by (auto simp: run_uncached_def g cache_effect_def failed_def)
  next
    case Panic
    then show ?thesis using law by simp
  qed
qed

lemma run_action_law:
  assumes "inv s" "okd (xr_action_digest req)" "okd (a_command_digest a)"
    and "run_action pb st run s name req a = ((r, ops), s')"
  shows "inv s' \<and> r = Ok () \<and> well_formed_ops name (xr_action_digest req) ops \<and>
    cache_effect pb (vw s) (vw s') (xr_action_digest req) a ops"
proof -
  let ?d = "xr_action_digest req" and ?op0 = "operation_msg name (xr_action_digest req) CacheCheck None"
  have miss: "inv s' \<and> r = Ok () \<and> well_formed_ops name ?d ops \<and> cache_effect pb (vw s) (vw s') ?d a ops"
    if "inv s1" "vw s1 = vw s"
      "(case run_uncached pb st run s1 name ?d a of ((r, ops), s'') \<Rightarrow> ((r, ?op0 # ops), s'')) = ((r, ops), s')"
    for s1
  proof -
    obtain r2 ops2 s2 where u: "run_uncached pb st run s1 name ?d a = ((r2, ops2), s2)"
      by (metis surj_pair)
    have out: "r = r2" "ops = ?op0 # ops2" "s' = s2" using that(3) by (simp_all add: u)
    with run_uncached_law [OF that(1) assms(2,3) u] that(2) show ?thesis
      by (auto simp: well_formed_ops_def cache_effect_Cons)
  qed
  show ?thesis
  proof (cases "\<not> xr_skip_cache req \<and> \<not> a_do_not_cache a")
    case False
    then show ?thesis
      using miss [OF assms(1) refl assms(4) [unfolded run_action_def Let_def if_not_P [OF False]]] by blast
  next
    case True
    obtain ra s1 where g: "st_get_ar st s ?d = (ra, s1)" by fastforce
    note law = get_ar_law [OF assms(1,2) g]
    show ?thesis
    proof (cases ra)
      case (Err e)
      then show ?thesis
        using miss [of s1] law assms(4) True by (simp add: run_action_def Let_def g)
    qed (use assms(4) law True in \<open>auto simp: run_action_def Let_def g well_formed_ops_def cache_effect_def\<close>)
  qed
qed

end

context action_runner
begin

text \<open>A successful result is in the cache afterwards, wherever it came from.\<close>

lemma finish_stored:
  assumes "inv s" "okd d" "ar_roundtrip pb ar" "\<not> a_do_not_cache a" "ar_exit_code ar = 0"
    and put: "\<And>s ru s'. inv s \<Longrightarrow> st_put_ar st s d ar = (ru, s') \<Longrightarrow> ru = Ok ()"
    and "finish_action st s name d a ar = ((r, ops), s')"
  shows "\<exists>b. v_acs (vw s') (get_hash d) = Some b \<and> unmarshal_ar pb b = Inr ar"
proof -
  obtain b where b: "marshal_ar pb ar = Inr b" "unmarshal_ar pb b = Inr ar"
    using assms(3) by (auto simp: ar_roundtrip_def)
  obtain ru s1 where p: "st_put_ar st s d ar = (ru, s1)" by fastforce
  have "vw s1 = put_ac (vw s) d b" using put_ar_law [OF assms(1,2) p] put [OF assms(1) p] b(1) by auto
  moreover have "s' = s1" using assms(4,5,7) put [OF assms(1) p] by (simp add: finish_action_def p Let_def)
  ultimately show ?thesis using b(2) by simp
qed

lemma run_uncached_stored:
  assumes "inv s" "okd d" "okd (a_command_digest a)" "ar_roundtrip pb ar" "\<not> a_do_not_cache a"
    and "ar_exit_code ar = 0" "\<And>s ru s'. inv s \<Longrightarrow> st_put_ar st s d ar = (ru, s') \<Longrightarrow> ru = Ok ()"
    and "run_uncached pb st run s name d a = ((r, ops), s')" "outcome_result ops = Some ar"
  shows "\<exists>b. v_acs (vw s') (get_hash d) = Some b \<and> unmarshal_ar pb b = Inr ar"
proof -
  obtain rg s1 where g: "st_get st s (a_command_digest a) = (rg, s1)" by fastforce
  have s1: "inv s1" using get_law [OF assms(1,3) g] by simp
  have not_failed: "outcome_result (ops0 @ [failed name d code m]) \<noteq> Some ar" for ops0 code m
    by (simp add: outcome_result_def outcome_def)
  obtain data cmd where ok: "rg = Ok data" "unmarshal_cmd pb data = Inr cmd"
    using assms(8,9) not_failed [of "[]"] get_law [OF assms(1,3) g]
    by (cases rg) (auto simp: run_uncached_def g outcome_result_def outcome_def split: sum.splits)
  obtain rr s2 where rn: "run s1 cmd (a_input_root a) (action_timeout a) = (rr, s2)" by fastforce
  note law = run_law [OF s1 rn]
  show ?thesis
  proof (cases rr)
    case (Ok ar')
    obtain r3 ops3 s3 where f: "finish_action st s2 name d a ar' = ((r3, ops3), s3)"
      by (metis surj_pair)
    have out: "ops = operation_msg name d Executing None # ops3" "s' = s3"
      using assms(8) ok Ok by (simp_all add: run_uncached_def g run_command_def rn f)
    have "ops3 = [] \<or> outcome_result ops3 = Some ar'"
      using f by (auto simp: finish_action_def Let_def outcome_result_def outcome_def
          split: if_splits prod.splits res.splits)
    moreover have "ops3 \<noteq> []" using finish_action_law [OF _ assms(2) f] law by auto
    ultimately have "ar' = ar"
      using assms(9) out(1) by (simp add: outcome_result_def outcome_def)
    then have f': "finish_action st s2 name d a ar = ((r3, ops3), s3)" using f by simp
    have "inv s2" using law by simp
    from finish_stored [OF this assms(2,4,5,6,7) f'] show ?thesis by (simp add: out(2))
  next
    case (Err e)
    then show ?thesis
      using assms(8,9) ok
      by (auto simp: run_uncached_def g run_command_def rn outcome_result_def outcome_def)
  next
    case Panic
    then show ?thesis using law by simp
  qed
qed

lemma run_action_stored:
  assumes "inv s" "okd (xr_action_digest req)" "okd (a_command_digest a)" "ar_roundtrip pb ar"
    and "\<not> a_do_not_cache a" "ar_exit_code ar = 0"
    and "\<And>s ru s'. inv s \<Longrightarrow> st_put_ar st s (xr_action_digest req) ar = (ru, s') \<Longrightarrow> ru = Ok ()"
    and "run_action pb st run s name req a = ((r, ops), s')" "outcome_result ops = Some ar"
  shows "inv s' \<and> (\<exists>b. v_acs (vw s') (get_hash (xr_action_digest req)) = Some b \<and> unmarshal_ar pb b = Inr ar)"
proof -
  let ?d = "xr_action_digest req" and ?op0 = "operation_msg name (xr_action_digest req) CacheCheck None"
  have miss: "\<exists>b. v_acs (vw s') (get_hash ?d) = Some b \<and> unmarshal_ar pb b = Inr ar"
    if "inv s1"
      "(case run_uncached pb st run s1 name ?d a of ((r, ops), s'') \<Rightarrow> ((r, ?op0 # ops), s'')) = ((r, ops), s')"
    for s1
  proof -
    obtain r2 ops2 s2 where u: "run_uncached pb st run s1 name ?d a = ((r2, ops2), s2)"
      by (metis surj_pair)
    have out: "ops = ?op0 # ops2" "s' = s2" using that(2) by (simp_all add: u)
    have "ops2 \<noteq> []" using run_uncached_law [OF that(1) assms(2,3) u] by auto
    then have "outcome_result ops2 = Some ar"
      using assms(9) out(1) by (simp add: outcome_result_def outcome_def)
    from run_uncached_stored [OF that(1) assms(2-7) u this] out(2) show ?thesis by simp
  qed
  have "\<exists>b. v_acs (vw s') (get_hash ?d) = Some b \<and> unmarshal_ar pb b = Inr ar"
  proof (cases "\<not> xr_skip_cache req \<and> \<not> a_do_not_cache a")
    case False
    then show ?thesis
      using miss [OF assms(1) assms(8) [unfolded run_action_def Let_def if_not_P [OF False]]] by blast
  next
    case True
    obtain ra s1 where g: "st_get_ar st s ?d = (ra, s1)" by fastforce
    note law = get_ar_law [OF assms(1,2) g]
    show ?thesis
    proof (cases ra)
      case (Err e)
      then show ?thesis
        using miss [of s1] law assms(8) True by (simp add: run_action_def Let_def g)
    qed (use assms(8,9) law True in \<open>auto simp: run_action_def Let_def g outcome_result_def outcome_def\<close>)
  qed
  then show ?thesis using run_action_law [OF assms(1-3) assms(8)] by blast
qed

end

subsection \<open>What the last operation says\<close>

text \<open>
  Why a run that was not answered from the cache ended the way its response says: from the view the action
  started with.  The timeout is the action's, or 15 minutes.
\<close>

definition uncached_truth ::
    "'s store \<Rightarrow> codec \<Rightarrow> ('s \<Rightarrow> bool) \<Rightarrow> ('s \<Rightarrow> view) \<Rightarrow> 's runner \<Rightarrow> view \<Rightarrow> action \<Rightarrow> exec_response \<Rightarrow> bool" where
  "uncached_truth st pb si vw run v a resp \<longleftrightarrow>
     (let c = a_command_digest a; limit = (case a_timeout a of None \<Rightarrow> 900000000000 | Some t \<Rightarrow> t);
          ran = (\<lambda>x. \<exists>b cmd s1 s2. lookup_blob v c = Some b \<and> unmarshal_cmd pb b = Inr cmd \<and> si s1 \<and> vw s1 = v \<and>
            run s1 cmd (a_input_root a) limit = (x, s2))
      in case er_result resp of
           Some ar \<Rightarrow> ran (Ok ar) \<and> st_code (er_status resp) = OK
         | None \<Rightarrow>
             (lookup_blob v c = None \<longrightarrow> st_code (er_status resp) = FailedPrecondition) \<and>
             ((\<exists>s1 e. si s1 \<and> vw s1 = v \<and> fst (st_get st s1 c) = Err e \<and> st_code (er_status resp) = FailedPrecondition) \<or>
              (\<exists>b e. lookup_blob v c = Some b \<and> unmarshal_cmd pb b = Inl e \<and> st_code (er_status resp) = Internal) \<or>
              (\<exists>e. ran (Err e) \<and> st_message (er_status resp) = e \<and>
                 st_code (er_status resp) = (if error_is e CtxCanceled then Canceled else Internal))))"

context action_runner
begin

lemma finish_outcome:
  assumes "finish_action st s name d a ar = ((Ok (), ops), s')"
  shows "ops = [completed name d \<lparr>er_result = Some ar, er_cached = False, er_status = status_proto OK empty_message\<rparr>]"
  using assms by (auto simp: finish_action_def Let_def split: if_splits prod.splits res.splits)

lemma run_uncached_outcome:
  assumes "inv s" "okd d" "okd (a_command_digest a)" "run_uncached pb st run s name d a = ((r, ops), s')"
  shows "\<exists>resp. outcome ops = Some resp \<and> \<not> er_cached resp \<and> uncached_truth st pb inv vw run (vw s) a resp \<and>
    (er_result resp = None \<longrightarrow> v_acs (vw s') = v_acs (vw s))"
proof -
  note r = run_uncached_law [OF assms]
  obtain rg s1 where g: "st_get st s (a_command_digest a) = (rg, s1)" by fastforce
  note law = get_law [OF assms(1,3) g]
  have limit: "action_timeout a = (case a_timeout a of None \<Rightarrow> 900000000000 | Some t \<Rightarrow> t)"
    by (cases "a_timeout a") (simp_all add: action_timeout_def default_action_timeout_def)
  show ?thesis
  proof (cases rg)
    case (Err e)
    have "inv s \<and> vw s = vw s \<and> fst (st_get st s (a_command_digest a)) = Err e" by (simp add: g Err assms(1))
    then have cause: "\<exists>s1. inv s1 \<and> vw s1 = vw s \<and> (\<exists>e. fst (st_get st s1 (a_command_digest a)) = Err e)" by blast
    have "ops = [failed name d FailedPrecondition (Wrapf ''command %s not found: %v'' [key (a_command_digest a)] e)]" "s' = s1"
      using assms(4) by (simp_all add: run_uncached_def g Err)
    then show ?thesis
      using law by (simp add: outcome_def uncached_truth_def Let_def cause)
  next
    case Panic
    then show ?thesis using law by simp
  next
    case (Ok data)
    with law have data: "lookup_blob (vw s) (a_command_digest a) = Some data" by simp
    show ?thesis
    proof (cases "unmarshal_cmd pb data")
      case (Inl e)
      with assms(4) data law show ?thesis
        by (auto simp: run_uncached_def g Ok outcome_def uncached_truth_def Let_def)
    next
      case (Inr cmd)
      obtain rr s2 where rn: "run s1 cmd (a_input_root a) (action_timeout a) = (rr, s2)" by fastforce
      have s1: "inv s1" "vw s1 = vw s" using law by simp_all
      let ?run = "\<lambda>s2. run s2 cmd (a_input_root a) (case a_timeout a of None \<Rightarrow> 900000000000 | Some t \<Rightarrow> t)"
      have "inv s1 \<and> vw s1 = vw s \<and> ?run s1 = (rr, s2)" using s1 rn by (simp add: limit)
      then have ran: "\<exists>s1. inv s1 \<and> vw s1 = vw s \<and> (\<exists>s2. ?run s1 = (rr, s2))" by blast
      show ?thesis
      proof (cases rr)
        case (Ok ar)
        obtain r3 ops3 s3 where f: "finish_action st s2 name d a ar = ((r3, ops3), s3)" by (metis surj_pair)
        have "r3 = Ok ()" using finish_action_law [OF _ assms(2) f] run_law [OF s1(1) rn] by blast
        note ops3 = finish_outcome [OF f [unfolded this]]
        have "ops = operation_msg name d Executing None # ops3"
          using assms(4) Inr rn by (simp add: run_uncached_def g \<open>rg = Ok data\<close> run_command_def f Ok)
        then show ?thesis
          using data Inr by (simp add: ops3 outcome_def uncached_truth_def Let_def ran [unfolded Ok])
      next
        case (Err e)
        have "ops = [operation_msg name d Executing None, failed name d (if error_is e CtxCanceled then Canceled else Internal) e]"
          "s' = s2"
          using assms(4) Inr rn by (simp_all add: run_uncached_def g Ok run_command_def Err)
        then show ?thesis
          using data Inr run_law [OF s1(1) rn] s1
          by (simp add: outcome_def uncached_truth_def Let_def ran [unfolded Err])
      next
        case Panic
        with run_law [OF s1(1) rn] show ?thesis by simp
      qed
    qed
  qed
qed

lemma run_action_outcome:
  assumes "inv s" "okd (xr_action_digest req)" "okd (a_command_digest a)"
    and "run_action pb st run s name req a = ((r, ops), s')"
  shows "\<exists>resp. outcome ops = Some resp \<and>
    er_cached resp = (\<not> xr_skip_cache req \<and> \<not> a_do_not_cache a \<and> is_ok (fst (st_get_ar st s (xr_action_digest req)))) \<and>
    (er_cached resp \<longrightarrow> vw s' = vw s \<and> st_code (er_status resp) = OK \<and>
      (\<exists>ar b. er_result resp = Some ar \<and> v_acs (vw s) (get_hash (xr_action_digest req)) = Some b \<and>
        unmarshal_ar pb b = Inr ar)) \<and>
    (\<not> er_cached resp \<longrightarrow> uncached_truth st pb inv vw run (vw s) a resp) \<and>
    (er_result resp = None \<longrightarrow> v_acs (vw s') = v_acs (vw s))"
proof -
  let ?d = "xr_action_digest req" and ?op0 = "operation_msg name (xr_action_digest req) CacheCheck None"
  have miss: ?thesis
    if "inv s1" "vw s1 = vw s"
      "(case run_uncached pb st run s1 name ?d a of ((r, ops), s'') \<Rightarrow> ((r, ?op0 # ops), s'')) = ((r, ops), s')"
      "\<not> (\<not> xr_skip_cache req \<and> \<not> a_do_not_cache a \<and> is_ok (fst (st_get_ar st s ?d)))"
    for s1
  proof -
    obtain r2 ops2 s2 where u: "run_uncached pb st run s1 name ?d a = ((r2, ops2), s2)" by (metis surj_pair)
    have out: "ops = ?op0 # ops2" "s' = s2" using that(3) by (simp_all add: u)
    have "ops2 \<noteq> []" using run_uncached_law [OF that(1) assms(2,3) u] by auto
    then have "outcome ops = outcome ops2" by (simp add: out(1) outcome_def)
    with run_uncached_outcome [OF that(1) assms(2,3) u] show ?thesis
      unfolding that(2) out(2) using that(4) by auto
  qed
  show ?thesis
  proof (cases "\<not> xr_skip_cache req \<and> \<not> a_do_not_cache a")
    case False
    then show ?thesis
      using miss [OF assms(1) refl assms(4) [unfolded run_action_def Let_def if_not_P [OF False]]] by blast
  next
    case True
    obtain ra s1 where g: "st_get_ar st s ?d = (ra, s1)" by fastforce
    note law = get_ar_law [OF assms(1,2) g]
    show ?thesis
    proof (cases ra)
      case (Err e)
      then show ?thesis
        using miss [of s1] law assms(4) True by (simp add: run_action_def Let_def g)
    qed (use assms(4) law True in \<open>auto simp: run_action_def Let_def g outcome_def\<close>)
  qed
qed

end


lemma outcome_result_failed [simp]:
  "outcome_result (x # y # [failed name d code m]) = None" "outcome_result (x # [failed name d code m]) = None"
  "outcome_result [failed name d code m] = None"
  by (simp_all add: outcome_result_def outcome_def)

text \<open>The updates of a finished action are all visible: only the last is final.\<close>

lemma well_formed_butlast:
  "well_formed_ops name d ops \<Longrightarrow> \<forall>op \<in> set (butlast ops). \<not> op_done op"
proof -
  assume wf: "well_formed_ops name d ops"
  then have ops: "ops = butlast ops @ [last ops]" by (simp add: well_formed_ops_def)
  have "op_stage op < Completed" if "op \<in> set (butlast ops)" for op
    using wf that ops unfolding well_formed_ops_def
    by (metis (no_types, lifting) list.set_intros(1) sorted_wrt_append)
  then show ?thesis
    using wf by (fastforce simp: well_formed_ops_def list_all_iff dest: in_set_butlastD)
qed

lemma well_formed_take:
  assumes "well_formed_ops name d ops"
  shows "(\<exists>op \<in> set (take k ops). op_done op) \<longleftrightarrow> length ops \<le> k"
proof
  assume "\<exists>op \<in> set (take k ops). op_done op"
  then obtain op where op: "op \<in> set (take k ops)" "op_done op" by blast
  show "length ops \<le> k"
  proof (rule ccontr)
    assume "\<not> length ops \<le> k"
    then have "take k ops = take k (butlast ops)" by (simp add: take_butlast)
    then have "op \<in> set (butlast ops)" using op(1) by (metis in_set_takeD)
    then show False using well_formed_butlast [OF assms] op(2) by blast
  qed
next
  assume "length ops \<le> k"
  then show "\<exists>op \<in> set (take k ops). op_done op"
    using assms by (auto simp: well_formed_ops_def list_all_iff intro!: bexI [of _ "last ops"])
qed

lemma visible_all: "\<forall>op \<in> set (butlast ops). \<not> op_done op \<Longrightarrow> visible ops = ops"
proof (induction ops)
  case (Cons op ops)
  then show ?case by (cases ops) auto
qed simp

lemma take_visible:
  assumes "well_formed_ops name d ops"
  shows "visible (take k ops) = take k ops"
proof (rule visible_all)
  have "set (butlast (take k ops)) \<subseteq> set (butlast ops)"
  proof (cases "k < length ops")
    case True
    then show ?thesis by (metis butlast_take in_set_butlastD in_set_takeD subsetI take_butlast)
  qed simp
  then show "\<forall>op \<in> set (butlast (take k ops)). \<not> op_done op"
    using well_formed_butlast [OF assms] by blast
qed

subsection \<open>Examples\<close>

definition demo_action :: action where
  "demo_action = \<lparr>a_command_digest = Some \<lparr>d_hash = ''cc'', d_size = 0\<rparr>, a_input_root = Some empty_digest,
     a_timeout = None, a_do_not_cache = False\<rparr>"

definition demo_command :: command where
  "demo_command = \<lparr>c_arguments = [''true''], c_environment = [], c_output_files = [],
     c_output_directories = [], c_output_paths = [], c_working_directory = ''''\<rparr>"

definition demo_codec :: codec where
  "demo_codec = table_codec [] [] [one_result] [demo_action] [demo_command]"

definition demo_store :: mem_store where
  "demo_store = new_mem_store\<lparr>ms_blobs := [d_hash zero_digest \<mapsto> [], ''cc'' \<mapsto> []]\<rparr>"

definition demo_request :: execute_request where
  "demo_request = \<lparr>xr_action_digest = Some zero_digest, xr_skip_cache = False\<rparr>"

text \<open>A runner whose command succeeds, and one whose context is canceled.\<close>

definition ok_runner :: "mem_store runner" where
  "ok_runner s cmd root timeout = (Ok one_result, s)"

definition canceled_runner :: "mem_store runner" where
  "canceled_runner s cmd root timeout = (Err (Wrapf ''dispatch to agent: %w'' [] CtxCanceled), s)"

lemma ok_action_runner:
  "action_runner (mem_ops pb) pb (\<lambda>_. True) (\<lambda>_. True) mem_view ok_runner"
  "action_runner (mem_ops pb) pb (\<lambda>_. True) (\<lambda>_. True) mem_view canceled_runner"
  by (unfold_locales; auto simp: ok_runner_def canceled_runner_def)+

lemma demo_run:
  "run_action demo_codec (mem_ops demo_codec) ok_runner demo_store ''op-1'' demo_request demo_action =
    ((Ok (), [operation_msg ''op-1'' (Some zero_digest) CacheCheck None,
        operation_msg ''op-1'' (Some zero_digest) Executing None,
        completed ''op-1'' (Some zero_digest)
          \<lparr>er_result = Some one_result, er_cached = False, er_status = status_proto OK empty_message\<rparr>]),
     demo_store\<lparr>ms_action := [d_hash zero_digest \<mapsto> []]\<rparr>)"
proof -
  have get: "mem_get demo_store (a_command_digest demo_action) = (Ok [], demo_store)"
    by (simp add: mem_get_def demo_store_def demo_action_def is_empty_eq empty_digest_def empty_hash_def)
  have ar: "mem_get_ar demo_codec demo_store (Some zero_digest) = (Err ErrNotFound, demo_store)"
    by (simp add: mem_get_ar_def demo_store_def new_mem_store_def)
  have put: "mem_put_ar demo_codec demo_store (Some zero_digest) one_result =
      (Ok (), demo_store\<lparr>ms_action := [d_hash zero_digest \<mapsto> []]\<rparr>)"
    by (simp add: mem_put_ar_def demo_codec_def table_encode_def demo_store_def new_mem_store_def)
  have cmd: "unmarshal_cmd demo_codec [] = Inr demo_command"
    by (simp add: demo_codec_def table_decode_def)
  have flags: "\<not> a_do_not_cache demo_action" "ar_exit_code one_result = 0"
    "xr_action_digest demo_request = Some zero_digest" "\<not> xr_skip_cache demo_request"
    by (simp_all add: demo_action_def one_result_def demo_request_def)
  show ?thesis
    by (simp add: run_action_def run_uncached_def run_command_def finish_action_def Let_def
        get ar put cmd flags ok_runner_def)
qed

definition demo_run_ops :: "operation list" where
  "demo_run_ops =
    [operation_msg ''op-1'' (Some zero_digest) CacheCheck None,
     operation_msg ''op-1'' (Some zero_digest) Executing None,
     completed ''op-1'' (Some zero_digest)
       \<lparr>er_result = Some one_result, er_cached = False, er_status = status_proto OK empty_message\<rparr>]"

definition demo_after :: mem_store where
  "demo_after = demo_store\<lparr>ms_action := [d_hash zero_digest \<mapsto> []]\<rparr>"

lemma demo_run_eq:
  "run_action demo_codec (mem_ops demo_codec) ok_runner demo_store ''op-1'' demo_request demo_action =
    ((Ok (), demo_run_ops), demo_after)"
  by (simp add: demo_run demo_run_ops_def demo_after_def)

lemma demo_facts [simp]:
  "\<not> a_do_not_cache demo_action" "ar_exit_code one_result = 0"
  "xr_action_digest demo_request = Some zero_digest" "\<not> xr_skip_cache demo_request"
  "outcome_result demo_run_ops = Some one_result" "ar_roundtrip demo_codec one_result"
  by (simp_all add: demo_action_def one_result_def demo_request_def demo_run_ops_def outcome_result_def
      outcome_def) (simp add: demo_codec_def table_codec_ar one_result_def)

subsection \<open>Properties\<close>

text \<open>
  C8.  The protocol of an action, whatever the store and the runner answer: the goroutine returns,
  and it publishes at most one operation per stage, in the order of the stages, all with the
  operation's name and the action's digest; the last is completed, done and carries the response,
  and no other is done.
\<close>

theorem run_action_protocol:
  assumes "action_runner st pb si okd vw run" and "si s"
    and "okd (xr_action_digest req)" and "okd (a_command_digest a)"
    and "run_action pb st run s name req a = ((r, ops), s')"
  shows "r = Ok () \<and> ops \<noteq> [] \<and> sorted_wrt (\<lambda>x y. op_stage x < op_stage y) ops \<and>
    op_stage (last ops) = Completed \<and>
    list_all (\<lambda>op. op_name op = name \<and> op_action op = xr_action_digest req \<and>
      op_done op = (op_stage op = Completed) \<and> op_done op = (op_response op \<noteq> None)) ops \<and>
    list_all (\<lambda>op. \<not> op_done op) (butlast ops)"
  using action_runner.run_action_law [OF assms] well_formed_butlast [of name "xr_action_digest req" ops]
  unfolding well_formed_ops_def list_all_iff by blast

theorem run_action_protocol_witness:
  "sorted_wrt (\<lambda>x y. op_stage x < op_stage y) demo_run_ops \<and> op_stage (last demo_run_ops) = Completed \<and>
    list_all (\<lambda>op. \<not> op_done op) (butlast demo_run_ops)"
  using run_action_protocol [OF ok_action_runner(1) _ _ _ demo_run_eq] by simp

text \<open>
  The caching policy: an action changes at most its own entry of the action cache, and only
  when it may be cached and its command ended with exit code 0; the entry is then the serialized
  result.  A failed, canceled or opted-out action leaves the cache as it was.
\<close>

theorem run_action_caching:
  assumes "action_runner st pb si okd vw run" and "si s"
    and "okd (xr_action_digest req)" and "okd (a_command_digest a)"
    and "run_action pb st run s name req a = ((r, ops), s')"
  shows "(v_acs (vw s') = v_acs (vw s) \<or>
      (\<exists>ar b. outcome_result ops = Some ar \<and> marshal_ar pb ar = Inr b \<and>
        v_acs (vw s') = (v_acs (vw s))(get_hash (xr_action_digest req) \<mapsto> b))) \<and>
    (a_do_not_cache a \<or> outcome_result ops = None \<or> ar_exit_code (the (outcome_result ops)) \<noteq> 0 \<longrightarrow>
      v_acs (vw s') = v_acs (vw s))"
  using action_runner.run_action_law [OF assms] by (auto simp: cache_effect_def)

lemma demo_canceled:
  "run_action demo_codec (mem_ops demo_codec) canceled_runner demo_store ''op-1'' demo_request demo_action =
    ((Ok (), [operation_msg ''op-1'' (Some zero_digest) CacheCheck None,
        operation_msg ''op-1'' (Some zero_digest) Executing None,
        failed ''op-1'' (Some zero_digest) Canceled (Wrapf ''dispatch to agent: %w'' [] CtxCanceled)]),
     demo_store)"
proof -
  have get: "mem_get demo_store (a_command_digest demo_action) = (Ok [], demo_store)"
    by (simp add: mem_get_def demo_store_def demo_action_def is_empty_eq empty_digest_def empty_hash_def)
  have ar: "mem_get_ar demo_codec demo_store (Some zero_digest) = (Err ErrNotFound, demo_store)"
    by (simp add: mem_get_ar_def demo_store_def new_mem_store_def)
  have cmd: "unmarshal_cmd demo_codec [] = Inr demo_command"
    by (simp add: demo_codec_def table_decode_def)
  show ?thesis
    by (simp add: run_action_def run_uncached_def run_command_def Let_def get ar cmd canceled_runner_def)
qed

theorem run_action_caching_witness:
  "v_acs (mem_view demo_store) = v_acs (mem_view demo_store) \<and>
    outcome_result [operation_msg ''op-1'' (Some zero_digest) CacheCheck None,
        operation_msg ''op-1'' (Some zero_digest) Executing None,
        failed ''op-1'' (Some zero_digest) Canceled (Wrapf ''dispatch to agent: %w'' [] CtxCanceled)] = None"
  using run_action_caching [OF ok_action_runner(2) _ _ _ demo_canceled] by simp





lemma execute_law:
  assumes "blob_store (sv_store sv) pb si okd vw" and "si s" and "om_ok (sv_ops sv)"
    and "execute pb sv s uuid req = ((r, sv'), s')"
  shows "vw s' = vw s \<and> r \<noteq> Panic \<and> om_ok (sv_ops sv') \<and>
    (\<forall>run a. (\<exists>addr. r = Ok (run, a, addr)) \<longleftrightarrow>
      sv_exec sv = Some run \<and> validate (xr_action_digest req) = Ok () \<and>
      (\<exists>b. fst (st_get (sv_store sv) s (xr_action_digest req)) = Ok b \<and> unmarshal_action pb b = Inr a)) \<and>
    (\<forall>e. r = Err e \<longrightarrow> sv' = sv \<and> err_code e = Some
      (if sv_exec sv = None then Unimplemented
       else if validate (xr_action_digest req) \<noteq> Ok () then InvalidArgument
       else if not_found (fst (st_get (sv_store sv) s (xr_action_digest req))) then FailedPrecondition
       else Internal) \<and>
      (err_code e = Some FailedPrecondition \<longrightarrow> lookup_blob (vw s) (xr_action_digest req) = None)) \<and>
    (\<forall>run a addr. r = Ok (run, a, addr) \<longrightarrow>
      (\<exists>b. lookup_blob (vw s) (xr_action_digest req) = Some b \<and> unmarshal_action pb b = Inr a) \<and>
      addr = length (om_entries (sv_ops sv)) \<and> om_lookup (sv_ops sv') uuid = Some addr \<and>
      om_entries (sv_ops sv') = om_entries (sv_ops sv) @ [fresh_entry True] \<and>
      wait_execution sv' uuid = Ok addr)"
proof (cases "sv_exec sv = None \<or> validate (xr_action_digest req) \<noteq> Ok ()")
  case True
  then show ?thesis
    using assms(3,4) validate_no_panic [of "xr_action_digest req"]
    by (cases "sv_exec sv"; cases "validate (xr_action_digest req)") (auto simp: execute_def admit_def)
next
  case False
  then obtain run where run: "sv_exec sv = Some run" and v: "validate (xr_action_digest req) = Ok ()"
    by auto
  obtain rg s1 where g: "st_get (sv_store sv) s (xr_action_digest req) = (rg, s1)" by fastforce
  have law: "vw s1 = vw s" "rg \<noteq> Panic"
    "\<forall>b. rg = Ok b \<longrightarrow> lookup_blob (vw s) (xr_action_digest req) = Some b"
    "not_found rg \<longrightarrow> lookup_blob (vw s) (xr_action_digest req) = None"
    using blob_store.get_law [OF assms(1,2) blob_store.valid_okd [OF assms(1) v] g] by simp_all
  have reg: "om_ok (snd (om_new (sv_ops sv) uuid True))" by (rule om_ok_new [OF assms(3)])
  show ?thesis
  proof (cases rg)
    case (Ok data)
    then show ?thesis
      using assms(3,4) law reg run v
      by (auto simp: execute_def admit_def fetch_action_def g om_new_def wait_execution_def om_lookup_def
          split: sum.splits)
  next
    case (Err e)
    then show ?thesis
      using assms(3,4) law run v by (auto simp: execute_def admit_def fetch_action_def g split: if_splits)
  next
    case Panic
    then show ?thesis using law by simp
  qed
qed

text \<open>
  C26.  Admission: \<^verbatim>\<open>Execute\<close> starts an operation exactly when a runner is configured, the action digest
  is valid and the action read from the store parses; it then registers exactly one fresh entry under the
  new name.  A refused request registers nothing and its code tells why: \<^verbatim>\<open>Unimplemented\<close>,
  \<^verbatim>\<open>InvalidArgument\<close>, \<^verbatim>\<open>FailedPrecondition\<close> when the action is not stored and \<^verbatim>\<open>Internal\<close> when the read
  fails otherwise or the action does not parse.  No request changes the store.
\<close>

theorem execute_admission:
  assumes "blob_store (sv_store sv) pb si okd vw" and "si s" and "om_ok (sv_ops sv)"
    and "execute pb sv s uuid req = ((r, sv'), s')"
  shows "vw s' = vw s \<and> r \<noteq> Panic \<and> om_ok (sv_ops sv') \<and>
    (\<forall>run a. (\<exists>addr. r = Ok (run, a, addr)) \<longleftrightarrow>
      sv_exec sv = Some run \<and> validate (xr_action_digest req) = Ok () \<and>
      (\<exists>b. fst (st_get (sv_store sv) s (xr_action_digest req)) = Ok b \<and> unmarshal_action pb b = Inr a)) \<and>
    (\<forall>e. r = Err e \<longrightarrow> sv' = sv \<and> err_code e = Some
      (if sv_exec sv = None then Unimplemented
       else if validate (xr_action_digest req) \<noteq> Ok () then InvalidArgument
       else if not_found (fst (st_get (sv_store sv) s (xr_action_digest req))) then FailedPrecondition
       else Internal) \<and>
      (err_code e = Some FailedPrecondition \<longrightarrow> lookup_blob (vw s) (xr_action_digest req) = None)) \<and>
    (\<forall>run a addr. r = Ok (run, a, addr) \<longrightarrow>
      (\<exists>b. lookup_blob (vw s) (xr_action_digest req) = Some b \<and> unmarshal_action pb b = Inr a) \<and>
      addr = length (om_entries (sv_ops sv)) \<and> om_lookup (sv_ops sv') uuid = Some addr \<and>
      om_entries (sv_ops sv') = om_entries (sv_ops sv) @ [fresh_entry True] \<and>
      wait_execution sv' uuid = Ok addr)"
  by (rule execute_law [OF assms])

definition demo_server :: "mem_store server" where
  "demo_server = new_server (mem_ops demo_codec) (Some ok_runner) ''main''"

theorem execute_admission_witness:
  "\<exists>sv' s' addr. execute demo_codec demo_server demo_store ''op-1'' demo_request =
      ((Ok (ok_runner, demo_action, addr), sv'), s') \<and>
    mem_view s' = mem_view demo_store \<and> addr = 0 \<and> wait_execution sv' ''op-1'' = Ok addr"
proof -
  have get: "mem_get demo_store (Some zero_digest) = (Ok [], demo_store)"
    by (simp add: mem_get_def demo_store_def is_empty_eq zero_digest_def empty_digest_def)
  have parse: "unmarshal_action demo_codec [] = Inr demo_action"
    by (simp add: demo_codec_def table_decode_def)
  obtain sv' s' addr where e: "execute demo_codec demo_server demo_store ''op-1'' demo_request =
      ((Ok (ok_runner, demo_action, addr), sv'), s')"
    using zero_valid
    by (simp add: execute_def admit_def demo_server_def new_server_def fetch_action_def get parse om_new_def)
  have "blob_store (sv_store demo_server) demo_codec (\<lambda>_. True) (\<lambda>_. True) mem_view"
    by (simp add: demo_server_def new_server_def mem.blob_store_axioms)
  moreover have "sv_ops demo_server = new_operation_manager"
    by (simp add: demo_server_def new_server_def)
  ultimately show ?thesis
    using execute_admission [OF _ _ _ e] e by (simp add: om_ok_def new_operation_manager_def)
qed

text \<open>
  From the goroutine to the client: a stream that watches an action's operation, joined at any
  time and under any interleaving, can end without error only after the whole of the action was
  published, and the last message it sent is then the action's final operation.  Once the
  goroutine is done the stream cannot block.
\<close>

theorem execution_stream_complete:
  assumes "action_runner st pb si okd vw run" and "si s"
    and "okd (xr_action_digest req)" and "okd (a_command_digest a)"
    and "run_action pb st run s name req a = ((r, ops), s')"
    and "watching True (take k ops) w"
  shows "(ss_pc (wt_stream w) = Returned (Ok ()) \<longrightarrow> length ops \<le> k \<and>
      ss_sent (wt_stream w) \<noteq> [] \<and> snd (last (ss_sent (wt_stream w))) = last ops \<and>
      op_stage (last ops) = Completed) \<and>
    subseq (map snd (ss_sent (wt_stream w))) ops \<and>
    (length ops \<le> k \<and> \<not> is_returned (ss_pc (wt_stream w)) \<longrightarrow>
      (\<exists>ss. stream_step (wt_entry w) (wt_stream w) ss))"
proof -
  have wf: "well_formed_ops name (xr_action_digest req) ops"
    using action_runner.run_action_law [OF assms(1-5)] by simp
  have vis: "visible (take k ops) = take k ops" by (rule take_visible [OF wf])
  have "subseq (ss_sent (wt_stream w)) (enumerate 0 (take k ops))"
    using sent_order(1) [OF assms(6)] by (simp add: history_def vis)
  then have "subseq (map snd (ss_sent (wt_stream w))) (map snd (enumerate 0 (take k ops)))"
    by (rule subseq_map)
  then have sub: "subseq (map snd (ss_sent (wt_stream w))) ops"
    by (metis map_snd_enumerate append_take_drop_id list_emb_append2 subseq_order.trans
        subseq_order.order_refl prefix_def prefix_imp_subseq)
  have fin: "length ops \<le> k \<and> ss_sent (wt_stream w) \<noteq> [] \<and>
      snd (last (ss_sent (wt_stream w))) = last ops"
    if "ss_pc (wt_stream w) = Returned (Ok ())"
  proof -
    have ne: "take k ops \<noteq> []" and dn: "op_done (last (take k ops))"
      and l: "last_of (ss_sent (wt_stream w)) = Some (last (history (take k ops)))"
      using sent_order(3) [OF assms(6) that] by (simp_all add: vis)
    then have len: "length ops \<le> k"
      using well_formed_take [OF wf, of k] by (meson last_in_set)
    then have "take k ops = ops" "visible ops = ops" using vis by simp_all
    then show ?thesis
      using l last_history [OF ne] len by (auto simp: last_of_def split: if_splits)
  qed
  have "\<exists>ss. stream_step (wt_entry w) (wt_stream w) ss"
    if "length ops \<le> k" "\<not> is_returned (ss_pc (wt_stream w))"
    using stream_ends [OF assms(6) _ that(2)] well_formed_take [OF wf, of k] that(1) by blast
  then show ?thesis using fin sub wf by (auto simp: well_formed_ops_def)
qed

theorem execution_stream_complete_witness:
  "\<exists>ss. stream_step (published True demo_run_ops) stream_init ss"
proof -
  have "watching True (take 3 demo_run_ops) \<lparr>wt_entry = published True demo_run_ops, wt_stream = stream_init\<rparr>"
    using w_join [of True demo_run_ops] by (simp add: demo_run_ops_def)
  from execution_stream_complete [OF ok_action_runner(1) _ _ _ demo_run_eq this] show ?thesis
    by (simp add: stream_init_def is_returned_def demo_run_ops_def)
qed

end
