(* ===== verification/Task.thy ===== *)
theory Task
  imports GoStd
begin

text \<open>
  \<^verbatim>\<open>internal/task\<close>: the contract between the executor and the agent.  The structs and what
  \<^verbatim>\<open>encoding/json\<close> makes of them by their tags: a JSON value, with \<^verbatim>\<open>[]byte\<close> in base64 and empty
  \<^verbatim>\<open>omitempty\<close> fields left out.  The text of a JSON value (quoting, escapes, white space) is a
  parameter \<open>json_text\<close>, of which \<open>json_text_ok\<close> and \<open>json_sound\<close> state what is relied on.  Also the
  text of an error, which travels as a JSON string.
\<close>

subsection \<open>The text of an error\<close>

definition quote_char :: "char \<Rightarrow> string" where
  "quote_char c =
     (if c = CHR 0x22 then [CHR 0x5C, CHR 0x22]
      else if c = CHR 0x5C then [CHR 0x5C, CHR 0x5C]
      else [c])"

definition quote :: "string \<Rightarrow> string" where
  "quote s = [CHR 0x22] @ concat (map quote_char s) @ [CHR 0x22]"

text \<open>
  \<^verbatim>\<open>fmt.Sprintf\<close> on operands already rendered, for the verbs the program uses (\<^verbatim>\<open>%s\<close>, \<^verbatim>\<open>%d\<close>, \<^verbatim>\<open>%v\<close>,
  \<^verbatim>\<open>%w\<close> and, for printable text, \<^verbatim>\<open>%q\<close>).
\<close>

fun format_text :: "string \<Rightarrow> string list \<Rightarrow> string" where
  "format_text [] as = []"
| "format_text [c] as = [c]"
| "format_text (c # v # f) as =
     (if c = CHR 0x25 then
        (case as of
           [] \<Rightarrow> c # CHR 0x21 # v # ''(MISSING)'' @ format_text f []
         | a # as' \<Rightarrow> (if v = CHR ''q'' then quote a else a) @ format_text f as')
      else c # format_text (v # f) as)"

fun error_text :: "err \<Rightarrow> string" where
  "error_text ErrNotFound = ''cas: not found''"
| "error_text CtxCanceled = ''context canceled''"
| "error_text CtxDeadlineExceeded = ''context deadline exceeded''"
| "error_text EOF = ''EOF''"
| "error_text (Ext s) = s"
| "error_text (Errorf f as) = format_text f as"
| "error_text (Wrapf f as e) = format_text f (as @ [error_text e])"
| "error_text (StatusErr c f as None) = ''rpc error: '' @ format_text f as"
| "error_text (StatusErr c f as (Some e)) = ''rpc error: '' @ format_text f (as @ [error_text e])"

text \<open>The conversions between strings and byte slices.\<close>

definition text_bytes :: "string \<Rightarrow> bytes" where
  "text_bytes s = map (\<lambda>c. of_nat (of_char c)) s"

definition bytes_text :: "bytes \<Rightarrow> string" where
  "bytes_text b = map (\<lambda>x. char_of (unat x)) b"

subsection \<open>encoding/base64\<close>

definition b64_chars :: string where
  "b64_chars = ''ABCDEFGHIJKLMNOPQRSTUVWXYZabcdefghijklmnopqrstuvwxyz0123456789+/''"

definition b64_value :: "char \<Rightarrow> nat option" where
  "b64_value c =
     (let n = of_char c :: nat
      in if 65 \<le> n \<and> n < 91 then Some (n - 65)
         else if 97 \<le> n \<and> n < 123 then Some (n - 71)
         else if 48 \<le> n \<and> n < 58 then Some (n + 4)
         else if n = 43 then Some 62
         else if n = 47 then Some 63
         else None)"

fun b64_encode :: "bytes \<Rightarrow> string" where
  "b64_encode [] = []"
| "b64_encode [a] =
     [b64_chars ! (unat a div 4), b64_chars ! (unat a mod 4 * 16), CHR ''='', CHR ''='']"
| "b64_encode [a, b] =
     [b64_chars ! (unat a div 4), b64_chars ! (unat a mod 4 * 16 + unat b div 16),
      b64_chars ! (unat b mod 16 * 4), CHR ''='']"
| "b64_encode (a # b # c # r) =
     [b64_chars ! (unat a div 4), b64_chars ! (unat a mod 4 * 16 + unat b div 16),
      b64_chars ! (unat b mod 16 * 4 + unat c div 64), b64_chars ! (unat c mod 64)] @ b64_encode r"

text \<open>
  \<^verbatim>\<open>base64.StdEncoding.DecodeString\<close>: line ends are skipped, the trailing bits of the last group
  ignored.
\<close>

definition b64_corrupt :: string where
  "b64_corrupt = ''illegal base64 data''"

definition byte_of :: "nat \<Rightarrow> byte" where
  "byte_of n = of_nat n"

fun b64_groups :: "string \<Rightarrow> string + bytes" where
  "b64_groups [] = Inr []"
| "b64_groups (p # q # r # s # rest) =
     (case (b64_value p, b64_value q) of
        (Some i, Some j) \<Rightarrow>
          if r = CHR ''='' then
            if s = CHR ''='' \<and> rest = [] then Inr [byte_of (i * 4 + j div 16)] else Inl b64_corrupt
          else (case b64_value r of
                  None \<Rightarrow> Inl b64_corrupt
                | Some k \<Rightarrow>
                    if s = CHR ''='' then
                      if rest = [] then Inr [byte_of (i * 4 + j div 16), byte_of (j mod 16 * 16 + k div 4)]
                      else Inl b64_corrupt
                    else (case b64_value s of
                            None \<Rightarrow> Inl b64_corrupt
                          | Some l \<Rightarrow>
                              (case b64_groups rest of
                                 Inl e \<Rightarrow> Inl e
                               | Inr bs \<Rightarrow>
                                   Inr ([byte_of (i * 4 + j div 16), byte_of (j mod 16 * 16 + k div 4),
                                         byte_of (k mod 4 * 64 + l)] @ bs))))
      | _ \<Rightarrow> Inl b64_corrupt)"
| "b64_groups _ = Inl b64_corrupt"

definition b64_decode :: "string \<Rightarrow> string + bytes" where
  "b64_decode s = b64_groups (filter (\<lambda>c. c \<noteq> CHR 0x0A \<and> c \<noteq> CHR 0x0D) s)"

lemma b64_value_char [simp]: "n < 64 \<Longrightarrow> b64_value (b64_chars ! n) = Some n"
proof -
  assume n: "n < 64"
  have "map b64_value b64_chars = map Some [0..<64]"
    by (simp add: b64_chars_def b64_value_def) (simp add: upt_rec)
  moreover have len: "length b64_chars = 64" by (simp add: b64_chars_def)
  ultimately show ?thesis
    using n nth_map [of n b64_chars b64_value] by simp
qed

lemma b64_char_plain [simp]:
  "n < 64 \<Longrightarrow> b64_chars ! n \<noteq> CHR ''=''" "n < 64 \<Longrightarrow> b64_chars ! n \<noteq> CHR 0x0A"
  "n < 64 \<Longrightarrow> b64_chars ! n \<noteq> CHR 0x0D"
proof -
  have none: "b64_value (CHR ''='') = None" "b64_value (CHR 0x0A) = None" "b64_value (CHR 0x0D) = None"
    by (simp_all add: b64_value_def)
  show "n < 64 \<Longrightarrow> b64_chars ! n \<noteq> CHR ''=''" "n < 64 \<Longrightarrow> b64_chars ! n \<noteq> CHR 0x0A"
    "n < 64 \<Longrightarrow> b64_chars ! n \<noteq> CHR 0x0D"
    using b64_value_char [of n] none by (metis option.distinct(1))+
qed

lemma byte_bound: "unat (a :: byte) < 256"
  using unsigned_less [of a] by simp

lemma b64_bounds [simp]:
  "unat (a :: byte) div 4 < 64" "unat (a :: byte) mod 4 * 16 < 64" "unat (b :: byte) mod 16 * 4 < 64"
  "unat (a :: byte) mod 4 * 16 + unat (b :: byte) div 16 < 64"
  "unat (b :: byte) mod 16 * 4 + unat (c :: byte) div 64 < 64" "unat (c :: byte) mod 64 < 64"
  using byte_bound [of a] byte_bound [of b] byte_bound [of c] by linarith+

lemma byte_of_unat [simp]: "byte_of (unat a) = a"
  by (simp add: byte_of_def)

lemma b64_regroup [simp]:
  fixes a b c :: byte
  shows "unat a div 4 * 4 + (unat a mod 4 * 16 + unat b div 16) div 16 = unat a"
    "unat a div 4 * 4 + (unat a mod 4 * 16) div 16 = unat a"
    "(unat a mod 4 * 16 + unat b div 16) mod 16 * 16 + (unat b mod 16 * 4 + unat c div 64) div 4 = unat b"
    "(unat a mod 4 * 16 + unat b div 16) mod 16 * 16 + unat b mod 16 = unat b"
    "(unat b mod 16 * 4 + unat c div 64) mod 4 * 64 + unat c mod 64 = unat c"
proof -
  have hi: "(x * 16 + y) div 16 = x" "(x * 16 + y) mod 16 = y" if "y < 16" for x y :: nat
    using that by simp_all
  have lo: "(x * 4 + y) div 4 = x" "(x * 4 + y) mod 4 = y" if "y < 4" for x y :: nat
    using that by simp_all
  have b: "unat b div 16 < 16" and c: "unat c div 64 < 4"
    using byte_bound [of b] byte_bound [of c] by linarith+
  have s: "x div 4 * 4 + x mod 4 = x" "x div 16 * 16 + x mod 16 = x" "x div 64 * 64 + x mod 64 = x" for x :: nat
    by simp_all
  show "unat a div 4 * 4 + (unat a mod 4 * 16 + unat b div 16) div 16 = unat a"
    by (simp only: hi [OF b] s)
  show "unat a div 4 * 4 + (unat a mod 4 * 16) div 16 = unat a" by simp
  show "(unat a mod 4 * 16 + unat b div 16) mod 16 * 16 + (unat b mod 16 * 4 + unat c div 64) div 4 = unat b"
    by (simp only: hi [OF b] lo [OF c] s)
  show "(unat a mod 4 * 16 + unat b div 16) mod 16 * 16 + unat b mod 16 = unat b"
    by (simp only: hi [OF b] s)
  show "(unat b mod 16 * 4 + unat c div 64) mod 4 * 64 + unat c mod 64 = unat c"
    by (simp only: lo [OF c] s)
qed

lemma b64_groups_encode: "b64_groups (b64_encode bs) = Inr bs"
  by (induction bs rule: b64_encode.induct)
     (simp_all del: div_mult_self1 div_mult_self2 div_mult_self3 div_mult_self4 mod_mult_self1 mod_mult_self2
        mod_mult_self3 mod_mult_self4)

lemma b64_encode_plain: "c \<in> set (b64_encode bs) \<Longrightarrow> c \<noteq> CHR 0x0A \<and> c \<noteq> CHR 0x0D"
  by (induction bs rule: b64_encode.induct) auto

lemma b64_decode_encode [go_std]: "b64_decode (b64_encode bs) = Inr bs"
  using b64_encode_plain [of _ bs] by (simp add: b64_decode_def b64_groups_encode filter_id_conv)


subsection \<open>encoding/json\<close>

text \<open>
  A JSON value; \<open>JOther\<close> is one of a kind no field of the contract takes (a boolean, an array, a
  number that is no integer).
\<close>

datatype json =
    JNull
  | JString string
  | JNumber int
  | JObject "(string \<times> json) list"
  | JOther

record execute_task =
  t_region :: string
  t_bucket :: string
  t_prefix :: string
  t_command :: bytes
  t_root_hash :: string
  t_root_size :: int64
  t_timeout :: int64

record execute_result =
  tr_action_result :: bytes
  tr_error :: string

definition execute_path :: string where "execute_path = ''/v1/execute''"
definition health_path :: string where "health_path = ''/health''"

text \<open>\<^verbatim>\<open>json.Marshal\<close>, field by field in the order of the struct.\<close>

definition json_of_task :: "execute_task \<Rightarrow> json" where
  "json_of_task t =
     JObject ([(''region'', JString (t_region t)), (''bucket'', JString (t_bucket t))]
       @ (if t_prefix t = '''' then [] else [(''prefix'', JString (t_prefix t))])
       @ [(''commandProto'', JString (b64_encode (t_command t))),
          (''inputRootHash'', JString (t_root_hash t)), (''inputRootSize'', JNumber (sint (t_root_size t)))]
       @ (if t_timeout t = 0 then [] else [(''timeoutSeconds'', JNumber (sint (t_timeout t)))]))"

definition json_of_result :: "execute_result \<Rightarrow> json" where
  "json_of_result r =
     JObject ((if tr_action_result r = [] then []
               else [(''actionResult'', JString (b64_encode (tr_action_result r)))])
       @ (if tr_error r = '''' then [] else [(''error'', JString (tr_error r))]))"

text \<open>
  \<^verbatim>\<open>json.Unmarshal\<close>: keys match up to ASCII case, unknown ones are skipped, \<^verbatim>\<open>null\<close> leaves a field
  as it is, a value of another kind or out of range is an error.
\<close>

definition lower :: "char \<Rightarrow> char" where
  "lower c = (let n = of_char c :: nat in if 65 \<le> n \<and> n < 91 then char_of (n + 32) else c)"

definition key_is :: "string \<Rightarrow> string \<Rightarrow> bool" where
  "key_is name k \<longleftrightarrow> map lower k = map lower name"

definition type_error :: string where
  "type_error = ''json: cannot unmarshal''"

fun get_string :: "json \<Rightarrow> string \<Rightarrow> string + string" where
  "get_string JNull old = Inr old"
| "get_string (JString s) old = Inr s"
| "get_string _ old = Inl type_error"

fun get_bytes :: "json \<Rightarrow> bytes \<Rightarrow> string + bytes" where
  "get_bytes JNull old = Inr []"
| "get_bytes (JString s) old = b64_decode s"
| "get_bytes _ old = Inl type_error"

fun get_int64 :: "json \<Rightarrow> int64 \<Rightarrow> string + int64" where
  "get_int64 JNull old = Inr old"
| "get_int64 (JNumber i) old = (if - (2 ^ 63) \<le> i \<and> i < 2 ^ 63 then Inr (of_int i) else Inl type_error)"
| "get_int64 _ old = Inl type_error"

definition map_sum_right :: "('a \<Rightarrow> 'b) \<Rightarrow> string + 'a \<Rightarrow> string + 'b" where
  "map_sum_right f x = (case x of Inl e \<Rightarrow> Inl e | Inr y \<Rightarrow> Inr (f y))"

definition set_task_field :: "string \<Rightarrow> json \<Rightarrow> execute_task \<Rightarrow> string + execute_task" where
  "set_task_field k v t =
     (if key_is ''region'' k then map_sum_right (\<lambda>x. t\<lparr>t_region := x\<rparr>) (get_string v (t_region t))
      else if key_is ''bucket'' k then map_sum_right (\<lambda>x. t\<lparr>t_bucket := x\<rparr>) (get_string v (t_bucket t))
      else if key_is ''prefix'' k then map_sum_right (\<lambda>x. t\<lparr>t_prefix := x\<rparr>) (get_string v (t_prefix t))
      else if key_is ''commandProto'' k then
        map_sum_right (\<lambda>x. t\<lparr>t_command := x\<rparr>) (get_bytes v (t_command t))
      else if key_is ''inputRootHash'' k then
        map_sum_right (\<lambda>x. t\<lparr>t_root_hash := x\<rparr>) (get_string v (t_root_hash t))
      else if key_is ''inputRootSize'' k then
        map_sum_right (\<lambda>x. t\<lparr>t_root_size := x\<rparr>) (get_int64 v (t_root_size t))
      else if key_is ''timeoutSeconds'' k then
        map_sum_right (\<lambda>x. t\<lparr>t_timeout := x\<rparr>) (get_int64 v (t_timeout t))
      else Inr t)"

definition set_result_field :: "string \<Rightarrow> json \<Rightarrow> execute_result \<Rightarrow> string + execute_result" where
  "set_result_field k v r =
     (if key_is ''actionResult'' k then
        map_sum_right (\<lambda>x. r\<lparr>tr_action_result := x\<rparr>) (get_bytes v (tr_action_result r))
      else if key_is ''error'' k then map_sum_right (\<lambda>x. r\<lparr>tr_error := x\<rparr>) (get_string v (tr_error r))
      else Inr r)"

fun set_fields :: "(string \<Rightarrow> json \<Rightarrow> 'r \<Rightarrow> string + 'r) \<Rightarrow> (string \<times> json) list \<Rightarrow> 'r \<Rightarrow> string + 'r" where
  "set_fields f [] r = Inr r"
| "set_fields f ((k, v) # kvs) r = (case f k v r of Inl e \<Rightarrow> Inl e | Inr r' \<Rightarrow> set_fields f kvs r')"

fun of_json :: "(string \<Rightarrow> json \<Rightarrow> 'r \<Rightarrow> string + 'r) \<Rightarrow> 'r \<Rightarrow> json \<Rightarrow> string + 'r" where
  "of_json f zero (JObject kvs) = set_fields f kvs zero"
| "of_json f zero JNull = Inr zero"
| "of_json f zero _ = Inl type_error"

definition zero_task :: execute_task where
  "zero_task = \<lparr>t_region = '''', t_bucket = '''', t_prefix = '''', t_command = [], t_root_hash = '''',
     t_root_size = 0, t_timeout = 0\<rparr>"

definition zero_result :: execute_result where
  "zero_result = \<lparr>tr_action_result = [], tr_error = ''''\<rparr>"

definition task_of_json :: "json \<Rightarrow> string + execute_task" where
  "task_of_json = of_json set_task_field zero_task"

definition result_of_json :: "json \<Rightarrow> string + execute_result" where
  "result_of_json = of_json set_result_field zero_result"

lemma map_sum_right_simps [simp]:
  "map_sum_right f (Inl e) = Inl e" "map_sum_right f (Inr x) = Inr (f x)"
  by (simp_all add: map_sum_right_def)

lemma set_fields_append [simp]:
  "set_fields f (a @ b) r = (case set_fields f a r of Inl e \<Rightarrow> Inl e | Inr r' \<Rightarrow> set_fields f b r')"
  by (induction f a r rule: set_fields.induct) (simp_all split: sum.split)

lemma get_int64_sint [simp]: "get_int64 (JNumber (sint (w :: int64))) old = Inr w"
  using sint_ge [of w] sint_lt [of w] by simp

lemma lower_names:
  "map lower ''region'' = ''region''" "map lower ''bucket'' = ''bucket''" "map lower ''prefix'' = ''prefix''"
  "map lower ''commandProto'' = ''commandproto''" "map lower ''inputRootHash'' = ''inputroothash''"
  "map lower ''inputRootSize'' = ''inputrootsize''" "map lower ''timeoutSeconds'' = ''timeoutseconds''"
  "map lower ''actionResult'' = ''actionresult''" "map lower ''error'' = ''error''"
  by (simp_all add: lower_def char_of_def bit_0)

lemma set_task_simps [simp]:
  "set_task_field ''region'' v t = map_sum_right (\<lambda>x. t\<lparr>t_region := x\<rparr>) (get_string v (t_region t))"
  "set_task_field ''bucket'' v t = map_sum_right (\<lambda>x. t\<lparr>t_bucket := x\<rparr>) (get_string v (t_bucket t))"
  "set_task_field ''prefix'' v t = map_sum_right (\<lambda>x. t\<lparr>t_prefix := x\<rparr>) (get_string v (t_prefix t))"
  "set_task_field ''commandProto'' v t = map_sum_right (\<lambda>x. t\<lparr>t_command := x\<rparr>) (get_bytes v (t_command t))"
  "set_task_field ''inputRootHash'' v t =
     map_sum_right (\<lambda>x. t\<lparr>t_root_hash := x\<rparr>) (get_string v (t_root_hash t))"
  "set_task_field ''inputRootSize'' v t =
     map_sum_right (\<lambda>x. t\<lparr>t_root_size := x\<rparr>) (get_int64 v (t_root_size t))"
  "set_task_field ''timeoutSeconds'' v t =
     map_sum_right (\<lambda>x. t\<lparr>t_timeout := x\<rparr>) (get_int64 v (t_timeout t))"
  unfolding set_task_field_def key_is_def lower_names by simp_all

lemma set_result_simps [simp]:
  "set_result_field ''actionResult'' v r =
     map_sum_right (\<lambda>x. r\<lparr>tr_action_result := x\<rparr>) (get_bytes v (tr_action_result r))"
  "set_result_field ''error'' v r = map_sum_right (\<lambda>x. r\<lparr>tr_error := x\<rparr>) (get_string v (tr_error r))"
  unfolding set_result_field_def key_is_def lower_names by simp_all

lemma task_json_roundtrip: "task_of_json (json_of_task t) = Inr t"
  by (cases t) (simp add: task_of_json_def json_of_task_def zero_task_def b64_decode_encode del: get_int64.simps(2))

lemma result_json_roundtrip: "result_of_json (json_of_result r) = Inr r"
  by (cases r) (simp add: result_of_json_def json_of_result_def zero_result_def b64_decode_encode)

subsection \<open>The text of a JSON value\<close>

text \<open>
  \<open>jt_render\<close> is the text \<^verbatim>\<open>json.Marshal\<close> writes for a value, \<open>jt_parse\<close> reads a whole text
  (\<^verbatim>\<open>json.Unmarshal\<close>), \<open>jt_first\<close> the first value of a stream (\<^verbatim>\<open>json.Decoder\<close>).  \<^verbatim>\<open>json.Encoder\<close>
  ends the text with a line feed, which a parser skips.
\<close>

record json_text =
  jt_render :: "json \<Rightarrow> bytes"
  jt_parse :: "bytes \<Rightarrow> string + json"
  jt_first :: "bytes \<Rightarrow> string + json"

definition json_text_ok :: "json_text \<Rightarrow> json \<Rightarrow> bool" where
  "json_text_ok jt j \<longleftrightarrow>
     jt_first jt (jt_render jt j) = Inr j \<and> jt_parse jt (jt_render jt j @ [10]) = Inr j"

subsection \<open>Strings that are no UTF-8\<close>

text \<open>
  \<^verbatim>\<open>json.Marshal\<close> writes a string as the runes \<^verbatim>\<open>utf8.DecodeRuneInString\<close> finds in it, one U+FFFD for each
  byte that starts none: what is read back is the string with these bytes replaced.  \<open>rune_length\<close> is the
  length of the rune a string starts with, 0 when it starts with none.
\<close>

definition byte_in :: "nat \<Rightarrow> nat \<Rightarrow> string \<Rightarrow> nat \<Rightarrow> bool" where
  "byte_in lo hi s i \<longleftrightarrow> i < length s \<and> lo \<le> of_char (s ! i) \<and> of_char (s ! i) \<le> hi"

definition rune_length :: "string \<Rightarrow> nat" where
  "rune_length s =
     (if byte_in 0 127 s 0 then 1
      else if byte_in 194 223 s 0 \<and> byte_in 128 191 s 1 then 2
      else if (byte_in 224 224 s 0 \<and> byte_in 160 191 s 1 \<or> byte_in 225 236 s 0 \<and> byte_in 128 191 s 1 \<or>
               byte_in 237 237 s 0 \<and> byte_in 128 159 s 1 \<or> byte_in 238 239 s 0 \<and> byte_in 128 191 s 1) \<and>
              byte_in 128 191 s 2 then 3
      else if (byte_in 240 240 s 0 \<and> byte_in 144 191 s 1 \<or> byte_in 241 243 s 0 \<and> byte_in 128 191 s 1 \<or>
               byte_in 244 244 s 0 \<and> byte_in 128 143 s 1) \<and> byte_in 128 191 s 2 \<and> byte_in 128 191 s 3 then 4
      else 0)"

definition replacement :: string where
  "replacement = [CHR 0xEF, CHR 0xBF, CHR 0xBD]"

function coerce_utf8 :: "string \<Rightarrow> string" where
  "coerce_utf8 [] = []"
| "coerce_utf8 (c # s) =
     (case rune_length (c # s) of
        0 \<Rightarrow> replacement @ coerce_utf8 s
      | Suc n \<Rightarrow> c # take n s @ coerce_utf8 (drop n s))"
  by pat_completeness simp_all
termination by (relation "measure length") simp_all

definition utf8 :: "string \<Rightarrow> bool" where
  "utf8 s \<longleftrightarrow> coerce_utf8 s = s"

definition coerce_task :: "execute_task \<Rightarrow> execute_task" where
  "coerce_task t =
     t\<lparr>t_region := coerce_utf8 (t_region t), t_bucket := coerce_utf8 (t_bucket t),
       t_prefix := coerce_utf8 (t_prefix t), t_root_hash := coerce_utf8 (t_root_hash t)\<rparr>"

definition coerce_result :: "execute_result \<Rightarrow> execute_result" where
  "coerce_result r = r\<lparr>tr_error := coerce_utf8 (tr_error r)\<rparr>"

lemma coerce_empty [simp]: "coerce_utf8 s = [] \<longleftrightarrow> s = []"
  by (cases s) (auto simp: replacement_def split: nat.splits)

lemma ascii_utf8: "\<forall>c \<in> set s. of_char c < (128 :: nat) \<Longrightarrow> utf8 s"
proof (induction s)
  case (Cons c s)
  then have "rune_length (c # s) = Suc 0" by (simp add: rune_length_def byte_in_def)
  with Cons show ?case by (simp add: utf8_def)
qed (simp add: utf8_def)

lemma coerce_sel [simp]:
  "tr_action_result (coerce_result r) = tr_action_result r" "tr_error (coerce_result r) = [] \<longleftrightarrow> tr_error r = []"
  "t_command (coerce_task t) = t_command t" "t_bucket (coerce_task t) = coerce_utf8 (t_bucket t)"
  "t_prefix (coerce_task t) = coerce_utf8 (t_prefix t)"
  by (simp_all add: coerce_result_def coerce_task_def)

lemma coerce_example:
  "coerce_utf8 [CHR ''e'', CHR 0xC3, CHR 0xA9, CHR 0xC3, CHR ''x'', CHR 0xFF] =
    [CHR ''e'', CHR 0xC3, CHR 0xA9] @ replacement @ [CHR ''x''] @ replacement"
  by (simp add: rune_length_def byte_in_def)

text \<open>
  Documented behaviour of \<^verbatim>\<open>encoding/json\<close> on the two structs: a task's text reads, if at all, as the task
  with its strings coerced, and so does a result's text with its line feed, wherever it is cut short (the
  text of an object cut short is none).
\<close>

definition json_sound :: "json_text \<Rightarrow> bool" where
  "json_sound jt \<longleftrightarrow>
     (\<forall>t x. jt_first jt (jt_render jt (json_of_task t)) = Inr x \<longrightarrow> x = json_of_task (coerce_task t)) \<and>
     (\<forall>r n x. jt_parse jt (take n (jt_render jt (json_of_result r) @ [10])) = Inr x \<longrightarrow>
        x = json_of_result (coerce_result r))"

lemma json_of_result_inject: "json_of_result r = json_of_result r' \<longleftrightarrow> r = r'"
  by (metis result_json_roundtrip sum.inject(2))

lemma json_of_task_inject: "json_of_task t = json_of_task t' \<longleftrightarrow> t = t'"
  by (metis task_json_roundtrip sum.inject(2))

text \<open>Nothing reads back from an empty text.\<close>

lemma json_sound_Nil: "json_sound jt \<Longrightarrow> jt_parse jt [] \<noteq> Inr x"
proof
  assume sound: "json_sound jt" and "jt_parse jt [] = Inr x"
  then have "x = json_of_result (coerce_result r)" for r unfolding json_sound_def by (metis take_0)
  from this [of "\<lparr>tr_action_result = [0], tr_error = []\<rparr>"] this [of zero_result] show False
    by (simp add: json_of_result_inject coerce_result_def zero_result_def)
qed

end
