(* ===== verification/Microvm.thy ===== *)
theory Microvm
  imports Execution Task "HOL-Library.Signed_Division"
begin

text \<open>
  \<^verbatim>\<open>internal/microvm\<close>: one MicroVM per action, reached over HTTPS.  The Lambda MicroVMs API, the
  HTTP transport, the clock and the context are parameters: the record \<open>mv_client\<close> of operations
  over the world \<open>'w\<close>.  Times are in nanoseconds.  A waiting loop may run for ever when the clock
  does not advance: it is a partial function, and the locale \<open>microvm_world\<close> says when it ends.
\<close>

subsection \<open>The interfaces\<close>

datatype mv_state = Running | Terminating | Terminated | OtherState string

record run_input =
  ri_image :: string
  ri_version :: "string option"
  ri_role :: "string option"
  ri_ingress :: "string list"
  ri_egress :: "string list"
  ri_max_duration :: int32
  ri_token :: string
  ri_auto_resume :: bool
  ri_max_idle :: int32
  ri_suspended :: int32

record run_output =
  ro_id :: string
  ro_endpoint :: string
  ro_state :: mv_state

record get_output =
  go_state :: mv_state
  go_endpoint :: string
  go_reason :: string

record http_request =
  rq_method :: string
  rq_url :: string
  rq_headers :: "(string \<times> string) list"
  rq_body :: bytes

record client_response =
  rs_code :: nat
  rs_status :: string
  rs_body :: reader

text \<open>
  \<open>mv_url\<close> is the error \<^verbatim>\<open>http.NewRequestWithContext\<close> has for a URL; \<open>mv_select\<close> is the \<^verbatim>\<open>select\<close> between
  the context and the timer: the context's error, or \<open>None\<close> when the time has passed.
\<close>

record 'w mv_client =
  mv_run :: "'w \<Rightarrow> run_input \<Rightarrow> (err + run_output) \<times> 'w"
  mv_get :: "'w \<Rightarrow> string \<Rightarrow> (err + get_output) \<times> 'w"
  mv_token :: "'w \<Rightarrow> string \<Rightarrow> (err + (string \<Rightarrow> string option)) \<times> 'w"
  mv_terminate :: "'w \<Rightarrow> string \<Rightarrow> (err + unit) \<times> 'w"
  mv_url :: "string \<Rightarrow> err option"
  mv_do :: "'w \<Rightarrow> http_request \<Rightarrow> (err + client_response) \<times> 'w"
  mv_now :: "'w \<Rightarrow> int \<times> 'w"
  mv_select :: "'w \<Rightarrow> int \<Rightarrow> err option \<times> 'w"
  mv_uuid :: "'w \<Rightarrow> string \<times> 'w"

record mv_config =
  mc_image :: string
  mc_version :: string
  mc_role :: string
  mc_ingress :: "string list"
  mc_egress :: "string list"
  mc_region :: string
  mc_bucket :: string
  mc_prefix :: string
  mc_max_duration :: int32
  mc_agent_port :: int64
  mc_startup :: int64

record 'w executor =
  ex_client :: "'w mv_client"
  ex_cfg :: mv_config

text \<open>\<^verbatim>\<open>New\<close>: a zero port, startup timeout or lifetime takes its default.\<close>

definition new_executor :: "'w mv_client \<Rightarrow> mv_config \<Rightarrow> 'w executor" where
  "new_executor cl cfg =
     (let cfg = (if mc_agent_port cfg = 0 then cfg\<lparr>mc_agent_port := 8080\<rparr> else cfg);
          cfg = (if mc_startup cfg = 0 then cfg\<lparr>mc_startup := 120000000000\<rparr> else cfg);
          cfg = (if mc_max_duration cfg = 0 then cfg\<lparr>mc_max_duration := 3600\<rparr> else cfg)
      in \<lparr>ex_client = cl, ex_cfg = cfg\<rparr>)"

subsection \<open>Helpers\<close>

definition normalize_endpoint :: "string \<Rightarrow> string" where
  "normalize_endpoint e =
     (if 4 \<le> length e \<and> take 4 e = ''http'' then e else ''https://'' @ e)"

definition opt_string :: "string \<Rightarrow> string option" where
  "opt_string s = (if s = '''' then None else Some s)"

definition truncate_text :: "bytes \<Rightarrow> nat \<Rightarrow> string" where
  "truncate_text b n =
     (if n < length b then bytes_text (take n b) @ ''...'' else bytes_text b)"

definition proxy_headers :: "mv_config \<Rightarrow> string \<Rightarrow> (string \<times> string) list" where
  "proxy_headers cfg token =
     [(''X-aws-proxy-auth'', token), (''X-aws-proxy-port'', show_int64 (mc_agent_port cfg))]"

text \<open>What \<^verbatim>\<open>io.ReadAll\<close> has read when it stops, an error included.\<close>

fun read_prefix :: "reader \<Rightarrow> bytes" where
  "read_prefix [] = []"
| "read_prefix ((c, None) # r) = c @ read_prefix r"
| "read_prefix ((c, Some e) # r) = c"

definition max_response :: nat where
  "max_response = 64 * 1048576"

text \<open>A sleep ends early when the context is done.\<close>

definition sleep :: "'w mv_client \<Rightarrow> 'w \<Rightarrow> int \<Rightarrow> unit res \<times> 'w" where
  "sleep cl w d =
     (case mv_select cl w d of (Some e, w') \<Rightarrow> (Err e, w') | (None, w') \<Rightarrow> (Ok (), w'))"

text \<open>
  A duration in an error keeps its number of nanoseconds as the operand, where \<^verbatim>\<open>%s\<close> prints it as
  \<^verbatim>\<open>2m0s\<close>.
\<close>

subsection \<open>Waiting for the MicroVM and its agent\<close>

text \<open>
  One turn of each loop, up to the sleep: the answer of the loop, or \<open>None\<close> to sleep and go on.
\<close>

definition poll_running ::
    "'w executor \<Rightarrow> string \<Rightarrow> int \<Rightarrow> 'w \<Rightarrow> string res option \<times> 'w" where
  "poll_running ex vm deadline w =
     (case mv_get (ex_client ex) w vm of
        (Inl e, w) \<Rightarrow> (Some (Err (Wrapf ''get microvm: %w'' [] e)), w)
      | (Inr out, w) \<Rightarrow>
          (case go_state out of
             Running \<Rightarrow> (Some (Ok (go_endpoint out)), w)
           | Terminating \<Rightarrow>
               (Some (Err (Errorf ''microvm entered state %s: %s'' [''TERMINATING'', go_reason out])), w)
           | Terminated \<Rightarrow>
               (Some (Err (Errorf ''microvm entered state %s: %s'' [''TERMINATED'', go_reason out])), w)
           | OtherState st \<Rightarrow>
               (case mv_now (ex_client ex) w of
                  (t, w) \<Rightarrow>
                    if deadline < t then
                      (Some (Err (Errorf ''microvm did not reach RUNNING within %s (state %s)''
                         [show_int64 (mc_startup (ex_cfg ex)), st])), w)
                    else (case sleep (ex_client ex) w 1000000000 of
                            (Ok _, w) \<Rightarrow> (None, w)
                          | (Err e, w) \<Rightarrow> (Some (Err e), w)
                          | (Panic, w) \<Rightarrow> (Some Panic, w)))))"

partial_function (option) running_loop ::
    "'w executor \<Rightarrow> string \<Rightarrow> int \<Rightarrow> 'w \<Rightarrow> (string res \<times> 'w) option" where
  "running_loop ex vm deadline w =
     (case poll_running ex vm deadline w of
        (Some r, w') \<Rightarrow> Some (r, w')
      | (None, w') \<Rightarrow> running_loop ex vm deadline w')"

definition wait_running :: "'w executor \<Rightarrow> string \<Rightarrow> 'w \<Rightarrow> (string res \<times> 'w) option" where
  "wait_running ex vm w =
     (case mv_now (ex_client ex) w of
        (t, w) \<Rightarrow> running_loop ex vm (t + sint (mc_startup (ex_cfg ex))) w)"

definition poll_healthy ::
    "'w executor \<Rightarrow> string \<Rightarrow> string \<Rightarrow> int \<Rightarrow> 'w \<Rightarrow> unit res option \<times> 'w" where
  "poll_healthy ex base token deadline w =
     (case mv_url (ex_client ex) (base @ health_path) of
        Some e \<Rightarrow> (Some (Err e), w)
      | None \<Rightarrow>
          (case mv_do (ex_client ex) w
                  \<lparr>rq_method = ''GET'', rq_url = base @ health_path,
                   rq_headers = proxy_headers (ex_cfg ex) token, rq_body = []\<rparr> of
             (resp, w) \<Rightarrow>
               if (case resp of Inr r \<Rightarrow> rs_code r = 200 | Inl e \<Rightarrow> False) then (Some (Ok ()), w)
               else (case mv_now (ex_client ex) w of
                       (t, w) \<Rightarrow>
                         if deadline < t then
                           (Some (Err (Errorf ''executor-agent did not become healthy within %s''
                              [show_int64 (mc_startup (ex_cfg ex))])), w)
                         else (case sleep (ex_client ex) w 1000000000 of
                                 (Ok _, w) \<Rightarrow> (None, w)
                               | (Err e, w) \<Rightarrow> (Some (Err e), w)
                               | (Panic, w) \<Rightarrow> (Some Panic, w)))))"

partial_function (option) healthy_loop ::
    "'w executor \<Rightarrow> string \<Rightarrow> string \<Rightarrow> int \<Rightarrow> 'w \<Rightarrow> (unit res \<times> 'w) option" where
  "healthy_loop ex base token deadline w =
     (case poll_healthy ex base token deadline w of
        (Some r, w') \<Rightarrow> Some (r, w')
      | (None, w') \<Rightarrow> healthy_loop ex base token deadline w')"

definition wait_healthy :: "'w executor \<Rightarrow> string \<Rightarrow> string \<Rightarrow> 'w \<Rightarrow> (unit res \<times> 'w) option" where
  "wait_healthy ex base token w =
     (case mv_now (ex_client ex) w of
        (t, w) \<Rightarrow> healthy_loop ex base token (t + sint (mc_startup (ex_cfg ex))) w)"

subsection \<open>Dispatch\<close>

definition decode_response :: "codec \<Rightarrow> json_text \<Rightarrow> client_response \<Rightarrow> action_result res" where
  "decode_response pb jt resp =
     (let data = take max_response (read_prefix (rs_body resp))
      in if rs_code resp \<noteq> 200 then
           Err (Errorf ''agent returned %s: %s'' [rs_status resp, truncate_text data 512])
         else (case (case jt_parse jt data of Inl e \<Rightarrow> Inl e | Inr j \<Rightarrow> result_of_json j) of
                 Inl e \<Rightarrow> Err (Wrapf ''decode agent response: %w'' [] (Ext e))
               | Inr result \<Rightarrow>
                   if tr_error result \<noteq> '''' then
                     Err (Errorf ''agent execution failed: %s'' [tr_error result])
                   else (case unmarshal_ar pb (tr_action_result result) of
                           Inl e \<Rightarrow> Err (Wrapf ''unmarshal action result: %w'' [] (Ext e))
                         | Inr ar \<Rightarrow> Ok ar)))"

definition dispatch ::
    "codec \<Rightarrow> json_text \<Rightarrow> 'w executor \<Rightarrow> string \<Rightarrow> string \<Rightarrow> execute_task \<Rightarrow> 'w \<Rightarrow> action_result res \<times> 'w" where
  "dispatch pb jt ex base token t w =
     (case mv_url (ex_client ex) (base @ execute_path) of
        Some e \<Rightarrow> (Err e, w)
      | None \<Rightarrow>
          (case mv_do (ex_client ex) w
                  \<lparr>rq_method = ''POST'', rq_url = base @ execute_path,
                   rq_headers = proxy_headers (ex_cfg ex) token @ [(''Content-Type'', ''application/json'')],
                   rq_body = jt_render jt (json_of_task t)\<rparr> of
             (Inl e, w) \<Rightarrow> (Err (Wrapf ''dispatch to agent: %w'' [] e), w)
           | (Inr resp, w) \<Rightarrow> (decode_response pb jt resp, w)))"

subsection \<open>Running a command\<close>

text \<open>\<^verbatim>\<open>int64(timeout / time.Second)\<close>: Go's division truncates towards zero.\<close>

definition timeout_seconds :: "int64 \<Rightarrow> int64" where
  "timeout_seconds timeout = of_int (sint timeout sdiv 1000000000)"

definition make_task :: "mv_config \<Rightarrow> bytes \<Rightarrow> digest_ptr \<Rightarrow> int64 \<Rightarrow> execute_task" where
  "make_task cfg command_proto root timeout =
     \<lparr>t_region = mc_region cfg, t_bucket = mc_bucket cfg, t_prefix = mc_prefix cfg,
      t_command = command_proto, t_root_hash = get_hash root, t_root_size = get_size root,
      t_timeout = timeout_seconds timeout\<rparr>"

definition make_input :: "mv_config \<Rightarrow> string \<Rightarrow> run_input" where
  "make_input cfg token =
     \<lparr>ri_image = mc_image cfg, ri_version = opt_string (mc_version cfg), ri_role = opt_string (mc_role cfg),
      ri_ingress = mc_ingress cfg, ri_egress = mc_egress cfg, ri_max_duration = mc_max_duration cfg,
      ri_token = token, ri_auto_resume = False, ri_max_idle = mc_max_duration cfg, ri_suspended = 60\<rparr>"

text \<open>With the MicroVM running and its agent's token: everything up to the answer.\<close>

definition use_agent ::
    "codec \<Rightarrow> json_text \<Rightarrow> 'w executor \<Rightarrow> string \<Rightarrow> string \<Rightarrow> execute_task \<Rightarrow> 'w \<Rightarrow>
      (action_result res \<times> 'w) option" where
  "use_agent pb jt ex vm endpoint t w =
     (case mv_token (ex_client ex) w vm of
        (Inl e, w) \<Rightarrow> Some (Err (Wrapf ''create auth token: %w'' [] e), w)
      | (Inr tok, w) \<Rightarrow>
          (let token = (case tok ''X-aws-proxy-auth'' of None \<Rightarrow> '''' | Some x \<Rightarrow> x)
           in if token = '''' then
                Some (Err (Errorf ''auth token response missing X-aws-proxy-auth'' []), w)
              else
                (let base = normalize_endpoint endpoint
                 in case wait_healthy ex base token w of
                      None \<Rightarrow> None
                    | Some (Ok _, w) \<Rightarrow> Some (dispatch pb jt ex base token t w)
                    | Some (Err e, w) \<Rightarrow> Some (Err e, w)
                    | Some (Panic, w) \<Rightarrow> Some (Panic, w))))"

definition use_vm ::
    "codec \<Rightarrow> json_text \<Rightarrow> 'w executor \<Rightarrow> run_output \<Rightarrow> execute_task \<Rightarrow> 'w \<Rightarrow>
      (action_result res \<times> 'w) option" where
  "use_vm pb jt ex out t w =
     (if ro_state out = Running then use_agent pb jt ex (ro_id out) (ro_endpoint out) t w
      else (case wait_running ex (ro_id out) w of
              None \<Rightarrow> None
            | Some (Ok endpoint, w) \<Rightarrow> use_agent pb jt ex (ro_id out) endpoint t w
            | Some (Err e, w) \<Rightarrow> Some (Err e, w)
            | Some (Panic, w) \<Rightarrow> Some (Panic, w)))"

text \<open>\<^verbatim>\<open>Run\<close>: once a MicroVM exists, the deferred call terminates it last.\<close>

definition executor_run ::
    "codec \<Rightarrow> json_text \<Rightarrow> 'w executor \<Rightarrow> 'w \<Rightarrow> command \<Rightarrow> digest_ptr \<Rightarrow> int64 \<Rightarrow>
      (action_result res \<times> 'w) option" where
  "executor_run pb jt ex w command root timeout =
     (case marshal_cmd pb command of
        Inl e \<Rightarrow> Some (Err (Ext e), w)
      | Inr command_proto \<Rightarrow>
          (case mv_uuid (ex_client ex) w of
             (token, w) \<Rightarrow>
               (case mv_run (ex_client ex) w (make_input (ex_cfg ex) token) of
                  (Inl e, w) \<Rightarrow> Some (Err (Wrapf ''run microvm: %w'' [] e), w)
                | (Inr out, w) \<Rightarrow>
                    map_option (\<lambda>(r, w). (r, snd (mv_terminate (ex_client ex) w (ro_id out))))
                      (use_vm pb jt ex out (make_task (ex_cfg ex) command_proto root timeout) w))))"


subsection \<open>The contract of the platform\<close>

text \<open>
  What the executor relies on: a call keeps the invariant of the world and what \<open>obs\<close> observes of
  it, time does not run backwards, \<^verbatim>\<open>time.Now\<close> reads it, and a sleep that was not cut short has
  taken its time.  The calls may fail in any way.
\<close>

locale microvm_client =
  fixes cl :: "'w mv_client"
    and inv :: "'w \<Rightarrow> bool"
    and clk :: "'w \<Rightarrow> int"
    and obs :: "'w \<Rightarrow> 'v"
  assumes run_keeps: "inv w \<Longrightarrow> mv_run cl w ri = (ro, w') \<Longrightarrow> inv w' \<and> obs w' = obs w \<and> clk w \<le> clk w'"
    and get_keeps: "inv w \<Longrightarrow> mv_get cl w vm = (rg, w') \<Longrightarrow> inv w' \<and> obs w' = obs w \<and> clk w \<le> clk w'"
    and token_keeps: "inv w \<Longrightarrow> mv_token cl w vm = (rt, w') \<Longrightarrow> inv w' \<and> obs w' = obs w \<and> clk w \<le> clk w'"
    and kill_keeps: "inv w \<Longrightarrow> mv_terminate cl w vm = (rk, w') \<Longrightarrow> inv w' \<and> obs w' = obs w \<and> clk w \<le> clk w'"
    and do_keeps: "inv w \<Longrightarrow> mv_do cl w rq = (rd, w') \<Longrightarrow> inv w' \<and> obs w' = obs w \<and> clk w \<le> clk w'"
    and uuid_keeps: "inv w \<Longrightarrow> mv_uuid cl w = (u, w') \<Longrightarrow> inv w' \<and> obs w' = obs w \<and> clk w \<le> clk w'"
    and now_law: "inv w \<Longrightarrow> mv_now cl w = (t, w') \<Longrightarrow>
      inv w' \<and> obs w' = obs w \<and> clk w \<le> t \<and> t \<le> clk w'"
    and sleep_law: "inv w \<Longrightarrow> mv_select cl w d = (rs, w') \<Longrightarrow>
      inv w' \<and> obs w' = obs w \<and> clk w \<le> clk w' \<and> (rs = None \<longrightarrow> clk w + d \<le> clk w')"
begin

definition kept :: "'w \<Rightarrow> 'w \<Rightarrow> bool" where
  "kept w w' \<longleftrightarrow> inv w' \<and> obs w' = obs w \<and> clk w \<le> clk w'"

lemma kept_refl: "inv w \<Longrightarrow> kept w w" and kept_inv: "kept w w' \<Longrightarrow> inv w'"
  and kept_trans: "kept w w' \<Longrightarrow> kept w' w'' \<Longrightarrow> kept w w''"
  by (auto simp: kept_def)

lemmas client_laws = run_keeps get_keeps token_keeps kill_keeps do_keeps uuid_keeps now_law sleep_law

text \<open>A turn that does not answer had time left and has used a second of it.\<close>

lemma poll_running_law:
  assumes "inv w" "ex_client ex = cl" "poll_running ex vm deadline w = (r, w')"
  shows "kept w w' \<and> r \<noteq> Some Panic \<and> (r = None \<longrightarrow> clk w \<le> deadline \<and> clk w + 1000000000 \<le> clk w')"
proof -
  obtain rg w1 where g: "mv_get cl w vm = (rg, w1)" by fastforce
  note l1 = get_keeps [OF assms(1) g]
  show ?thesis
  proof (cases "\<exists>out st. rg = Inr out \<and> go_state out = OtherState st")
    case False
    with l1 assms(2,3) show ?thesis
      by (auto simp: poll_running_def g kept_def split: sum.splits mv_state.splits)
  next
    case True
    then obtain out st where o: "rg = Inr out" "go_state out = OtherState st" by blast
    obtain t w2 where n: "mv_now cl w1 = (t, w2)" by fastforce
    have l2: "inv w2 \<and> obs w2 = obs w1 \<and> clk w1 \<le> t \<and> t \<le> clk w2" using now_law [OF _ n] l1 by blast
    obtain rs w3 where s: "mv_select cl w2 1000000000 = (rs, w3)" by fastforce
    have l3: "inv w3 \<and> obs w3 = obs w2 \<and> clk w2 \<le> clk w3 \<and> (rs = None \<longrightarrow> clk w2 + 1000000000 \<le> clk w3)"
      using sleep_law [OF _ s] l2 by blast
    show ?thesis
      using assms(2,3) l1 l2 l3
      by (auto simp: poll_running_def sleep_def g o n s kept_def split: if_splits option.splits)
  qed
qed

lemma poll_healthy_law:
  assumes "inv w" "ex_client ex = cl" "poll_healthy ex base token deadline w = (r, w')"
  shows "kept w w' \<and> r \<noteq> Some Panic \<and> (r = None \<longrightarrow> clk w \<le> deadline \<and> clk w + 1000000000 \<le> clk w')"
proof (cases "mv_url cl (base @ health_path)")
  case (Some e)
  with assms show ?thesis by (auto simp: poll_healthy_def kept_def)
next
  case None
  let ?rq = "\<lparr>rq_method = ''GET'', rq_url = base @ health_path,
    rq_headers = proxy_headers (ex_cfg ex) token, rq_body = []\<rparr>"
  obtain resp w1 where d: "mv_do cl w ?rq = (resp, w1)" by fastforce
  note l1 = do_keeps [OF assms(1) d]
  obtain t w2 where n: "mv_now cl w1 = (t, w2)" by fastforce
  have l2: "inv w2 \<and> obs w2 = obs w1 \<and> clk w1 \<le> t \<and> t \<le> clk w2" using now_law [OF _ n] l1 by blast
  obtain rs w3 where s: "mv_select cl w2 1000000000 = (rs, w3)" by fastforce
  have l3: "inv w3 \<and> obs w3 = obs w2 \<and> clk w2 \<le> clk w3 \<and> (rs = None \<longrightarrow> clk w2 + 1000000000 \<le> clk w3)"
    using sleep_law [OF _ s] l2 by blast
  show ?thesis
    using assms(2,3) l1 l2 l3 None
    by (auto simp: poll_healthy_def sleep_def d n s kept_def split: if_splits option.splits)
qed

lemma running_loop_returns:
  assumes "inv w" "ex_client ex = cl"
  shows "\<exists>r w'. running_loop ex vm deadline w = Some (r, w') \<and> kept w w' \<and> r \<noteq> Panic"
  using assms(1)
proof (induction "nat (deadline + 1 - clk w)" arbitrary: w rule: less_induct)
  case less
  obtain r w1 where p: "poll_running ex vm deadline w = (r, w1)" by fastforce
  note law = poll_running_law [OF less.prems assms(2) p]
  show ?case
  proof (cases r)
    case (Some x)
    with law show ?thesis by (subst running_loop.simps) (simp add: p)
  next
    case None
    then have "clk w \<le> deadline" "clk w + 1000000000 \<le> clk w1" "kept w w1" using law by simp_all
    then obtain r' w' where "running_loop ex vm deadline w1 = Some (r', w')" "kept w1 w'" "r' \<noteq> Panic"
      using less.hyps [of w1] kept_inv by fastforce
    with None \<open>kept w w1\<close> show ?thesis
      by (subst running_loop.simps) (auto simp: p intro: kept_trans)
  qed
qed

lemma healthy_loop_returns:
  assumes "inv w" "ex_client ex = cl"
  shows "\<exists>r w'. healthy_loop ex base token deadline w = Some (r, w') \<and> kept w w' \<and> r \<noteq> Panic"
  using assms(1)
proof (induction "nat (deadline + 1 - clk w)" arbitrary: w rule: less_induct)
  case less
  obtain r w1 where p: "poll_healthy ex base token deadline w = (r, w1)" by fastforce
  note law = poll_healthy_law [OF less.prems assms(2) p]
  show ?case
  proof (cases r)
    case (Some x)
    with law show ?thesis by (subst healthy_loop.simps) (simp add: p)
  next
    case None
    then have "clk w \<le> deadline" "clk w + 1000000000 \<le> clk w1" "kept w w1" using law by simp_all
    then obtain r' w' where "healthy_loop ex base token deadline w1 = Some (r', w')" "kept w1 w'" "r' \<noteq> Panic"
      using less.hyps [of w1] kept_inv by fastforce
    with None \<open>kept w w1\<close> show ?thesis
      by (subst healthy_loop.simps) (auto simp: p intro: kept_trans)
  qed
qed

lemma wait_running_returns:
  assumes "inv w" "ex_client ex = cl"
  shows "\<exists>r w'. wait_running ex vm w = Some (r, w') \<and> kept w w' \<and> r \<noteq> Panic"
proof -
  obtain t w1 where n: "mv_now cl w = (t, w1)" by fastforce
  have k: "kept w w1" using now_law [OF assms(1) n] by (auto simp: kept_def)
  from running_loop_returns [OF kept_inv [OF k] assms(2)] k show ?thesis
    unfolding wait_running_def assms(2) n prod.case by (blast intro: kept_trans)
qed

lemma wait_healthy_returns:
  assumes "inv w" "ex_client ex = cl"
  shows "\<exists>r w'. wait_healthy ex base token w = Some (r, w') \<and> kept w w' \<and> r \<noteq> Panic"
proof -
  obtain t w1 where n: "mv_now cl w = (t, w1)" by fastforce
  have k: "kept w w1" using now_law [OF assms(1) n] by (auto simp: kept_def)
  from healthy_loop_returns [OF kept_inv [OF k] assms(2)] k show ?thesis
    unfolding wait_healthy_def assms(2) n prod.case by (blast intro: kept_trans)
qed

lemma dispatch_keeps:
  assumes "inv w" "ex_client ex = cl" "dispatch pb jt ex base token t w = (r, w')"
  shows "kept w w' \<and> r \<noteq> Panic"
proof -
  have "decode_response pb jt resp \<noteq> Panic" for resp
    by (simp add: decode_response_def Let_def split: sum.split)
  then show ?thesis
    using assms do_keeps [OF assms(1)] kept_refl [OF assms(1)]
    by (auto simp: dispatch_def kept_def split: option.splits prod.splits sum.splits)
qed

lemma use_agent_returns:
  assumes "inv w" "ex_client ex = cl"
  shows "\<exists>r w'. use_agent pb jt ex vm endpoint t w = Some (r, w') \<and> kept w w' \<and> r \<noteq> Panic"
proof -
  obtain rt w1 where tk: "mv_token cl w vm = (rt, w1)" by fastforce
  have k1: "kept w w1" using token_keeps [OF assms(1) tk] by (simp add: kept_def)
  show ?thesis
  proof (cases rt)
    case (Inl e)
    with k1 show ?thesis by (simp add: use_agent_def assms(2) tk)
  next
    case (Inr tok)
    let ?token = "case tok ''X-aws-proxy-auth'' of None \<Rightarrow> '''' | Some x \<Rightarrow> x"
    show ?thesis
    proof (cases "?token = ''''")
      case True
      with k1 Inr show ?thesis by (simp add: use_agent_def assms(2) tk Let_def)
    next
      case False
      obtain rh w2 where h: "wait_healthy ex (normalize_endpoint endpoint) ?token w1 = Some (rh, w2)"
        "kept w1 w2" "rh \<noteq> Panic"
        using wait_healthy_returns [OF kept_inv [OF k1] assms(2)] by blast
      have k2: "kept w w2" by (rule kept_trans [OF k1 h(2)])
      obtain rd w3 where d: "dispatch pb jt ex (normalize_endpoint endpoint) ?token t w2 = (rd, w3)" by fastforce
      have k3: "kept w w3" "rd \<noteq> Panic"
        using dispatch_keeps [OF kept_inv [OF k2] assms(2) d] kept_trans [OF k2] by auto
      show ?thesis
        using False Inr h k2 k3 d by (cases rh) (simp_all add: use_agent_def assms(2) tk Let_def)
    qed
  qed
qed

lemma use_vm_returns:
  assumes "inv w" "ex_client ex = cl"
  shows "\<exists>r w'. use_vm pb jt ex out t w = Some (r, w') \<and> kept w w' \<and> r \<noteq> Panic"
proof (cases "ro_state out = Running")
  case True
  then show ?thesis using use_agent_returns [OF assms] by (simp add: use_vm_def)
next
  case False
  obtain rw w1 where r: "wait_running ex (ro_id out) w = Some (rw, w1)" "kept w w1" "rw \<noteq> Panic"
    using wait_running_returns [OF assms] by blast
  show ?thesis
  proof (cases rw)
    case (Ok endpoint)
    obtain r2 w2 where u: "use_agent pb jt ex (ro_id out) endpoint t w1 = Some (r2, w2)" "kept w1 w2" "r2 \<noteq> Panic"
      using use_agent_returns [OF kept_inv [OF r(2)] assms(2)] by blast
    then show ?thesis using False r Ok kept_trans [OF r(2) u(2)] by (simp add: use_vm_def)
  next
    case (Err e)
    with False r show ?thesis by (simp add: use_vm_def)
  next
    case Panic
    with r show ?thesis by simp
  qed
qed

lemma executor_run_returns:
  assumes "inv w" "ex_client ex = cl"
  shows "\<exists>r w'. executor_run pb jt ex w command root timeout = Some (r, w') \<and> kept w w' \<and> r \<noteq> Panic"
proof (cases "marshal_cmd pb command")
  case (Inl e)
  with assms show ?thesis by (simp add: executor_run_def kept_refl)
next
  case (Inr cp)
  obtain u w1 where un: "mv_uuid cl w = (u, w1)" by fastforce
  have k1: "kept w w1" using uuid_keeps [OF assms(1) un] by (simp add: kept_def)
  obtain ro w2 where rn: "mv_run cl w1 (make_input (ex_cfg ex) u) = (ro, w2)" by fastforce
  have k2: "kept w w2"
    using run_keeps [OF kept_inv [OF k1] rn] k1 by (auto simp: kept_def)
  show ?thesis
  proof (cases ro)
    case (Inl e)
    with k2 Inr show ?thesis by (simp add: executor_run_def assms(2) un rn)
  next
    case (Inr out)
    obtain r w3 where v: "use_vm pb jt ex out (make_task (ex_cfg ex) cp root timeout) w2 = Some (r, w3)"
      "kept w2 w3" "r \<noteq> Panic"
      using use_vm_returns [OF kept_inv [OF k2] assms(2)] by blast
    obtain rk w4 where t: "mv_terminate cl w3 (ro_id out) = (rk, w4)" by fastforce
    have "kept w w4"
      using kill_keeps [OF kept_inv [OF v(2)] t] kept_trans [OF k2 v(2)] by (auto simp: kept_def)
    with \<open>marshal_cmd pb command = Inr cp\<close> Inr v t show ?thesis
      by (simp add: executor_run_def assms(2) un rn)
  qed
qed

end

subsection \<open>The executor as the server's runner\<close>

definition runner_of :: "codec \<Rightarrow> json_text \<Rightarrow> 'w executor \<Rightarrow> 'w runner" where
  "runner_of pb jt ex = (\<lambda>w command root timeout. the (executor_run pb jt ex w command root timeout))"

text \<open>
  A world with a store and the platform: no call of the platform changes the action cache.  Then
  the executor is a runner as the execution service expects it.
\<close>

locale microvm_world = blob_store st pb inv okd vw + platform: microvm_client cl inv clk "\<lambda>w. v_acs (vw w)"
  for st :: "'w store" and pb inv okd vw and cl :: "'w mv_client" and clk +
  fixes jt :: json_text and ex :: "'w executor"
  assumes client: "ex_client ex = cl"

sublocale microvm_world \<subseteq> executor: action_runner st pb inv okd vw "runner_of pb jt ex"
proof
  fix s command root timeout r s'
  assume "inv s" "runner_of pb jt ex s command root timeout = (r, s')"
  with platform.executor_run_returns [OF _ client, of s pb jt command root timeout]
  show "inv s' \<and> r \<noteq> Panic \<and> v_acs (vw s') = v_acs (vw s)"
    by (auto simp: runner_of_def platform.kept_def)
qed

subsection \<open>The calls an execution makes\<close>

text \<open>
  The client with a log of what it was asked: a MicroVM that was launched, a termination, or
  another call.
\<close>

datatype mv_event = Launched string | Killed string | Called

definition logged :: "'w mv_client \<Rightarrow> ('w \<times> mv_event list) mv_client" where
  "logged cl =
     \<lparr>mv_run = (\<lambda>(w, l) ri. case mv_run cl w ri of
        (Inl e, w') \<Rightarrow> (Inl e, w', l @ [Called]) | (Inr out, w') \<Rightarrow> (Inr out, w', l @ [Launched (ro_id out)])),
      mv_get = (\<lambda>(w, l) vm. case mv_get cl w vm of (r, w') \<Rightarrow> (r, w', l @ [Called])),
      mv_token = (\<lambda>(w, l) vm. case mv_token cl w vm of (r, w') \<Rightarrow> (r, w', l @ [Called])),
      mv_terminate = (\<lambda>(w, l) vm. case mv_terminate cl w vm of (r, w') \<Rightarrow> (r, w', l @ [Killed vm])),
      mv_url = mv_url cl,
      mv_do = (\<lambda>(w, l) rq. case mv_do cl w rq of (r, w') \<Rightarrow> (r, w', l @ [Called])),
      mv_now = (\<lambda>(w, l). case mv_now cl w of (r, w') \<Rightarrow> (r, w', l @ [Called])),
      mv_select = (\<lambda>(w, l) d. case mv_select cl w d of (r, w') \<Rightarrow> (r, w', l @ [Called])),
      mv_uuid = (\<lambda>(w, l). case mv_uuid cl w of (r, w') \<Rightarrow> (r, w', l @ [Called]))\<rparr>"

text \<open>\<open>calls w w'\<close>: from \<open>w\<close> to \<open>w'\<close> nothing was launched and nothing was terminated.\<close>

definition calls :: "'w \<times> mv_event list \<Rightarrow> 'w \<times> mv_event list \<Rightarrow> bool" where
  "calls w w' \<longleftrightarrow> (\<exists>n. snd w' = snd w @ replicate n Called)"

lemma calls_refl [simp]: "calls w w"
  unfolding calls_def by (rule exI [of _ 0]) simp

lemma calls_trans: "calls w w' \<Longrightarrow> calls w' w'' \<Longrightarrow> calls w w''"
  unfolding calls_def by (metis append.assoc replicate_add)

lemma calls_one: "snd w' = snd w @ [Called] \<Longrightarrow> calls w w'"
  unfolding calls_def by (rule exI [of _ 1]) simp

lemma logged_calls:
  "mv_get (logged cl) w vm = (rg, w') \<Longrightarrow> calls w w'"
  "mv_token (logged cl) w vm = (rt, w') \<Longrightarrow> calls w w'"
  "mv_do (logged cl) w rq = (rd, w') \<Longrightarrow> calls w w'"
  "mv_now (logged cl) w = (t, w') \<Longrightarrow> calls w w'"
  "mv_select (logged cl) w d = (rs, w') \<Longrightarrow> calls w w'"
  "mv_uuid (logged cl) w = (u, w') \<Longrightarrow> calls w w'"
  by (auto simp: logged_def intro!: calls_one split: prod.splits)

lemma poll_running_calls:
  assumes "ex_client ex = logged cl" "poll_running ex vm deadline w = (r, w')"
  shows "calls w w'"
  using assms
  by (auto simp: poll_running_def sleep_def split: prod.splits sum.splits mv_state.splits if_splits option.splits
      dest!: logged_calls intro: calls_trans)

lemma poll_healthy_calls:
  assumes "ex_client ex = logged cl" "poll_healthy ex base token deadline w = (r, w')"
  shows "calls w w'"
  using assms
  by (auto simp: poll_healthy_def sleep_def split: prod.splits sum.splits if_splits option.splits
      dest!: logged_calls intro: calls_trans)


lemma running_loop_calls:
  assumes "ex_client ex = logged cl" "running_loop ex vm deadline w = Some (r, w')"
  shows "calls w w'"
proof -
  have "ex_client ex = logged cl \<longrightarrow> calls w (snd x)" if "running_loop ex vm deadline w = Some x" for x
    using that
  proof (rule running_loop.raw_induct [where P = "\<lambda>ex vm deadline w x. ex_client ex = logged cl \<longrightarrow> calls w (snd x)", rotated])
    fix f :: "('a \<times> mv_event list) executor \<Rightarrow> string \<Rightarrow> int \<Rightarrow> 'a \<times> mv_event list \<Rightarrow>
        (string res \<times> 'a \<times> mv_event list) option" and ex vm deadline w x
    assume IH: "\<And>ex vm deadline w x. f ex vm deadline w = Some x \<Longrightarrow> ex_client ex = logged cl \<longrightarrow> calls w (snd x)"
      and s: "(case poll_running ex vm deadline w of (None, w') \<Rightarrow> f ex vm deadline w' | (Some r, w') \<Rightarrow> Some (r, w')) = Some x"
    show "ex_client ex = logged cl \<longrightarrow> calls w (snd x)"
    proof
      assume c: "ex_client ex = logged cl"
      obtain r w1 where p: "poll_running ex vm deadline w = (r, w1)" by (metis surj_pair)
      from poll_running_calls [OF c p] s IH [of ex vm deadline w1 x] c show "calls w (snd x)"
        by (cases r) (auto simp: p intro: calls_trans)
    qed
  qed
  with assms show ?thesis by fastforce
qed

lemma healthy_loop_calls:
  assumes "ex_client ex = logged cl" "healthy_loop ex base token deadline w = Some (r, w')"
  shows "calls w w'"
proof -
  have "ex_client ex = logged cl \<longrightarrow> calls w (snd x)" if "healthy_loop ex base token deadline w = Some x" for x
    using that
  proof (rule healthy_loop.raw_induct
      [where P = "\<lambda>ex base token deadline w x. ex_client ex = logged cl \<longrightarrow> calls w (snd x)", rotated])
    fix f :: "('a \<times> mv_event list) executor \<Rightarrow> string \<Rightarrow> string \<Rightarrow> int \<Rightarrow> 'a \<times> mv_event list \<Rightarrow>
        (unit res \<times> 'a \<times> mv_event list) option" and ex base token deadline w x
    assume IH: "\<And>ex base token deadline w x. f ex base token deadline w = Some x \<Longrightarrow>
        ex_client ex = logged cl \<longrightarrow> calls w (snd x)"
      and s: "(case poll_healthy ex base token deadline w of (None, w') \<Rightarrow> f ex base token deadline w'
        | (Some r, w') \<Rightarrow> Some (r, w')) = Some x"
    show "ex_client ex = logged cl \<longrightarrow> calls w (snd x)"
    proof
      assume c: "ex_client ex = logged cl"
      obtain r w1 where p: "poll_healthy ex base token deadline w = (r, w1)" by (metis surj_pair)
      from poll_healthy_calls [OF c p] s IH [of ex base token deadline w1 x] c show "calls w (snd x)"
        by (cases r) (auto simp: p intro: calls_trans)
    qed
  qed
  with assms show ?thesis by fastforce
qed

lemma use_vm_calls:
  assumes "ex_client ex = logged cl" "use_vm pb jt ex out t w = Some (r, w')"
  shows "calls w w'"
proof -
  have wr: "calls w w'" if "wait_running ex vm w = Some (r, w')" for vm w r w'
    using that assms(1)
    by (auto simp: wait_running_def split: prod.splits dest!: logged_calls running_loop_calls [OF assms(1)]
        intro: calls_trans)
  have wh: "calls w w'" if "wait_healthy ex base token w = Some (r, w')" for base token w r w'
    using that assms(1)
    by (auto simp: wait_healthy_def split: prod.splits dest!: logged_calls healthy_loop_calls [OF assms(1)]
        intro: calls_trans)
  have di: "calls w w'" if "dispatch pb jt ex base token t w = (r, w')" for base token w r w'
    using that assms(1)
    by (auto simp: dispatch_def split: option.splits prod.splits sum.splits dest!: logged_calls)
  have ua: "calls w w'" if "use_agent pb jt ex vm endpoint t w = Some (r, w')" for vm endpoint w r w'
    using that assms(1)
    by (auto simp: use_agent_def Let_def split: prod.splits sum.splits if_splits option.splits res.splits
        dest!: logged_calls wh di intro: calls_trans)
  show ?thesis
    using assms(2)
    by (auto simp: use_vm_def split: if_splits option.splits res.splits prod.splits dest!: wr ua intro: calls_trans)
qed

text \<open>
  C13.  One MicroVM per action, always torn down: for any platform, however its calls answer, an
  execution that returns has made other calls, then launched one MicroVM, made other calls, and
  terminated that MicroVM as its last call; or it never launched one and returns an error.
\<close>

theorem executor_tears_down:
  assumes "ex_client ex = logged cl" "executor_run pb jt ex (w, []) command root timeout = Some (r, w', l)"
  shows "(\<exists>n. l = replicate n Called \<and> (\<exists>e. r = Err e)) \<or>
    (\<exists>n m vm. l = replicate n Called @ [Launched vm] @ replicate m Called @ [Killed vm])"
proof (cases "marshal_cmd pb command")
  case (Inl e)
  with assms(2) show ?thesis by (auto simp: executor_run_def)
next
  case (Inr cp)
  obtain u w1 l1 where un: "mv_uuid (logged cl) (w, []) = (u, w1, l1)" by (metis surj_pair)
  obtain n where l1: "l1 = replicate n Called" using logged_calls(6) [OF un] by (auto simp: calls_def)
  obtain ro w2 l2 where rn: "mv_run (logged cl) (w1, l1) (make_input (ex_cfg ex) u) = (ro, w2, l2)"
    by (metis surj_pair)
  show ?thesis
  proof (cases ro)
    case (Inl e)
    then have "l2 = l1 @ [Called]" using rn by (auto simp: logged_def split: sum.splits prod.splits)
    moreover have "l = l2 \<and> (\<exists>e. r = Err e)"
      using assms(2) Inl Inr by (auto simp: executor_run_def assms(1) un rn)
    ultimately have "l = replicate (Suc n) Called \<and> (\<exists>e. r = Err e)"
      using l1 by (simp add: replicate_append_same)
    then show ?thesis by blast
  next
    case (Inr out)
    then have l2: "l2 = l1 @ [Launched (ro_id out)]" using rn by (auto simp: logged_def split: sum.splits prod.splits)
    obtain r3 w3 l3 where v: "use_vm pb jt ex out (make_task (ex_cfg ex) cp root timeout) (w2, l2) = Some (r3, w3, l3)"
      and t: "snd (mv_terminate (logged cl) (w3, l3) (ro_id out)) = (w', l)"
      using assms(2) Inr \<open>marshal_cmd pb command = Inr cp\<close>
      by (auto simp: executor_run_def assms(1) un rn)
    obtain m where "l3 = l2 @ replicate m Called" using use_vm_calls [OF assms(1) v] by (auto simp: calls_def)
    moreover have "l = l3 @ [Killed (ro_id out)]" using t by (auto simp: logged_def split: prod.splits)
    ultimately show ?thesis using l1 l2 by auto
  qed
qed

end
