(* ===== verification/Filesystem.thy ===== *)
theory Filesystem
  imports GoStd "HOL-Library.List_Lexorder" "HOL-Library.Char_ord" "HOL-Library.Sublist"
begin

text \<open>
  The file system as the \<^verbatim>\<open>os\<close> and \<^verbatim>\<open>path/filepath\<close> packages show it on Unix: a tree of files
  (content, executable bit), symbolic links and directories, path resolution with links, and
  the calls the program makes.  The entries of a directory are kept sorted by name, so equal
  file systems are equal trees.

  A path is the list of the elements of a cleaned absolute path.  A \<^verbatim>\<open>PathError\<close> is its error
  number.  \<open>fs_fault\<close> is what makes a call fail for a reason the tree does not show (permission,
  space, a name the system refuses): it is an argument of the model, arbitrary unless a lemma
  says otherwise.  Ownership, times, the umask and the permission bits other than the executable
  ones are not modelled.
\<close>

subsection \<open>Trees\<close>

datatype node =
    File bytes bool
  | Link string
  | Dir "(string \<times> node) list"

type_synonym fspath = "string list"

primrec is_dir :: "node \<Rightarrow> bool" where
  "is_dir (File b e) = False"
| "is_dir (Link t) = False"
| "is_dir (Dir es) = True"

primrec is_link :: "node \<Rightarrow> bool" where
  "is_link (File b e) = False"
| "is_link (Link t) = True"
| "is_link (Dir es) = False"

text \<open>\<^verbatim>\<open>info.Mode() & 0o111 != 0\<close> of a regular file.\<close>

primrec is_exec :: "node \<Rightarrow> bool" where
  "is_exec (File b e) = e"
| "is_exec (Link t) = True"
| "is_exec (Dir es) = True"

fun node_at :: "node \<Rightarrow> fspath \<Rightarrow> node option" where
  "node_at n [] = Some n"
| "node_at (Dir es) (x # p) = (case map_of es x of None \<Rightarrow> None | Some c \<Rightarrow> node_at c p)"
| "node_at (File b e) (x # p) = None"
| "node_at (Link t) (x # p) = None"

text \<open>Insertion into a sorted list of entries, replacing an entry of the same name.\<close>

fun put_entry :: "string \<Rightarrow> node \<Rightarrow> (string \<times> node) list \<Rightarrow> (string \<times> node) list" where
  "put_entry x c [] = [(x, c)]"
| "put_entry x c ((y, d) # es) =
     (if x = y then (x, c) # es
      else if x < y then (x, c) # (y, d) # es
      else (y, d) # put_entry x c es)"

text \<open>The tree with \<open>c\<close> at a path whose parent is a directory.\<close>

fun set_node :: "node \<Rightarrow> fspath \<Rightarrow> node \<Rightarrow> node" where
  "set_node n [] c = c"
| "set_node (Dir es) (x # p) c =
     (if p = [] then Dir (put_entry x c es)
      else case map_of es x of None \<Rightarrow> Dir es | Some d \<Rightarrow> Dir (put_entry x (set_node d p c) es))"
| "set_node (File b e) (x # p) c = File b e"
| "set_node (Link t) (x # p) c = Link t"

fun del_node :: "node \<Rightarrow> fspath \<Rightarrow> node" where
  "del_node n [] = n"
| "del_node (Dir es) (x # p) =
     (if p = [] then Dir (filter (\<lambda>(y, d). y \<noteq> x) es)
      else case map_of es x of None \<Rightarrow> Dir es | Some d \<Rightarrow> Dir (put_entry x (del_node d p) es))"
| "del_node (File b e) (x # p) = File b e"
| "del_node (Link t) (x # p) = Link t"

text \<open>Well-formed trees: entries strictly sorted by name, names plain, links not empty.\<close>

fun wf_node :: "node \<Rightarrow> bool" where
  "wf_node (File b e) = True"
| "wf_node (Link t) = (t \<noteq> '''')"
| "wf_node (Dir es) =
     (sorted_wrt (<) (map fst es) \<and> list_all (\<lambda>(x, c). plain_name x \<and> wf_node c) es)"

text \<open>The nesting depth of the directories.\<close>

fun depth :: "node \<Rightarrow> nat" where
  "depth (File b e) = 0"
| "depth (Link t) = 0"
| "depth (Dir es) = Suc (foldr (\<lambda>(x, c) m. max (depth c) m) es 0)"

lemma depth_entry: "(x, c) \<in> set es \<Longrightarrow> depth c < depth (Dir es)"
  by (induction es) auto

lemma map_of_put_entry [simp]: "map_of (put_entry x c es) = (map_of es)(x \<mapsto> c)"
  by (induction x c es rule: put_entry.induct) auto

lemma fst_put_entry: "fst ` set (put_entry x c es) = insert x (fst ` set es)"
  by (induction x c es rule: put_entry.induct) auto

lemma set_put_entry: "set (put_entry x c es) \<subseteq> insert (x, c) (set es)"
  by (induction x c es rule: put_entry.induct) auto

lemma sorted_entries_Cons:
  "sorted_wrt (<) (map fst ((y, d) # es)) \<longleftrightarrow>
    (\<forall>z \<in> fst ` set es. y < z) \<and> sorted_wrt (<) (map fst es)"
  by simp

lemma sorted_put_entry:
  "sorted_wrt (<) (map fst es) \<Longrightarrow> sorted_wrt (<) (map fst (put_entry x c es))"
proof (induction x c es rule: put_entry.induct)
  case (1 x c)
  then show ?case by simp
next
  case (2 x c y d es)
  consider "x = y" | "x < y" | "x \<noteq> y" "\<not> x < y" by blast
  then show ?case
  proof cases
    case 1
    with "2.prems" show ?thesis by simp
  next
    case 2
    then have "\<forall>z \<in> fst ` set es. x < z"
      using "2.prems" unfolding sorted_entries_Cons by (metis less_trans)
    with 2 "2.prems" show ?thesis by simp
  next
    case 3
    then have "y < x" by simp
    with 3 "2.prems" "2.IH" show ?thesis
      using fst_put_entry [of x c es] by (simp only: put_entry.simps if_False sorted_entries_Cons) simp
  qed
qed

lemma sorted_entries_unique:
  fixes es es' :: "(string \<times> node) list"
  assumes "sorted_wrt (<) (map fst es)" "sorted_wrt (<) (map fst es')" "map_of es = map_of es'"
  shows "es = es'"
proof -
  have d: "sorted (map fst es)" "distinct (map fst es)" "sorted (map fst es')" "distinct (map fst es')"
    using assms(1,2) by (simp_all only: strict_sorted_iff)
  have "set es = Map.graph (map_of es)" "set es' = Map.graph (map_of es')"
    using d by (simp_all only: graph_map_of_if_distinct_dom)
  then have set: "set es = set es'" by (simp only: assms(3))
  have "inj_on fst (set es \<union> set es')" using d(2) set by (simp add: distinct_map)
  from map_sorted_distinct_set_unique [OF this d set] show ?thesis .
qed


subsection \<open>Looking up and changing\<close>

lemma node_at_append:
  "node_at n (p @ q) = (case node_at n p of None \<Rightarrow> None | Some c \<Rightarrow> node_at c q)"
  by (induction n p rule: node_at.induct) (auto split: option.split)

lemma node_at_snoc:
  "node_at n p = Some (Dir es) \<Longrightarrow> node_at n (p @ [x]) = map_of es x"
  by (simp add: node_at_append split: option.split)

text \<open>A path that leads through a directory that exists.\<close>

lemma set_node_append:
  "node_at n p = Some m \<Longrightarrow> p \<noteq> [] \<or> q \<noteq> [] \<Longrightarrow>
    set_node n (p @ q) c = set_node n p (set_node m q c)"
proof (induction n p arbitrary: m rule: node_at.induct)
  case (2 es x p)
  then show ?case by (cases "p = []"; cases "q = []") (auto split: option.splits)
qed simp_all

lemma put_entry_twice [simp]: "put_entry x d (put_entry x c es) = put_entry x d es"
  by (induction x c es rule: put_entry.induct) auto

lemma set_node_above [simp]: "set_node (set_node n (p @ q) c) p d = set_node n p d"
proof (induction n p arbitrary: d rule: node_at.induct)
  case (2 es x p)
  then show ?case by (cases "p = []"; cases "q = []") (auto split: option.split)
qed simp_all

lemma set_node_set_node [simp]: "set_node (set_node n p c) p d = set_node n p d"
  using set_node_above [of n p "[]"] by simp

lemma node_at_set_node:
  "p = [] \<or> (\<exists>es. node_at n (butlast p) = Some (Dir es)) \<Longrightarrow> node_at (set_node n p c) p = Some c"
proof (induction n p c rule: set_node.induct)
  case (2 es x p c)
  then show ?case by (cases "p = []") (auto split: option.splits)
qed (auto split: if_splits)

lemma node_at_set_below:
  "node_at n p = Some (Dir es) \<Longrightarrow> node_at (set_node n (p @ [x]) c) (p @ x # q) = node_at c q"
  using node_at_set_node [of "p @ [x]" n c] node_at_append [of "set_node n (p @ [x]) c" "p @ [x]" q]
  by simp

lemma node_at_set_parallel:
  "parallel p q \<Longrightarrow> node_at (set_node n p c) q = node_at n q"
proof (induction n p c arbitrary: q rule: set_node.induct)
  case (1 n c)
  then show ?case by simp
next
  case (2 es x p c)
  obtain y q' where q: "q = y # q'" using "2.prems" by (cases q) auto
  show ?case
  proof (cases "x = y")
    case True
    then have "parallel p q'" using "2.prems" q by (auto simp: parallel_def)
    with "2.IH" True q show ?thesis by (auto split: option.split simp: parallel_def)
  next
    case False
    with q show ?thesis by (auto split: option.split)
  qed
next
  case (3 b e x p c)
  then show ?case by simp
next
  case (4 t x p c)
  then show ?case by simp
qed


subsection \<open>Path resolution\<close>

text \<open>
  The canonical path a path leads to, from the directory \<open>cur\<close>, crossing at most \<open>k\<close> symbolic
  links.  The last element may be missing; if it is a link it is followed when \<open>fl\<close>.
\<close>

definition enoent :: err where "enoent = Ext ''no such file or directory''"
definition eexist :: err where "eexist = Ext ''file exists''"
definition enotdir :: err where "enotdir = Ext ''not a directory''"
definition eisdir :: err where "eisdir = Ext ''is a directory''"
definition eloop :: err where "eloop = Ext ''too many levels of symbolic links''"
definition einval :: err where "einval = Ext ''invalid argument''"

function resolve :: "node \<Rightarrow> bool \<Rightarrow> nat \<Rightarrow> fspath \<Rightarrow> string list \<Rightarrow> fspath res" where
  "resolve r fl k cur [] = Ok cur"
| "resolve r fl k cur (x # rest) =
     (if x = '''' \<or> x = dot then resolve r fl k cur rest
      else if x = dotdot then resolve r fl k (butlast cur) rest
      else case node_at r (cur @ [x]) of
             None \<Rightarrow> if rest = [] then Ok (cur @ [x]) else Err enoent
           | Some (File b e) \<Rightarrow> if rest = [] then Ok (cur @ [x]) else Err enotdir
           | Some (Dir es) \<Rightarrow> resolve r fl k (cur @ [x]) rest
           | Some (Link t) \<Rightarrow>
               if rest = [] \<and> \<not> fl then Ok (cur @ [x])
               else (case k of
                       0 \<Rightarrow> Err eloop
                     | Suc k' \<Rightarrow>
                         resolve r fl k' (if rooted t then [] else cur) (split_on CHR ''/'' t @ rest)))"
  by pat_completeness auto
termination
  by (relation "inv_image (less_than <*lex*> less_than) (\<lambda>(r, fl, k, cur, xs). (k, length xs))") auto

declare resolve.simps [simp del]

text \<open>The limit of Linux on the links crossed by one path.\<close>

definition max_links :: nat where
  "max_links = 40"

lemma resolve_no_panic [simp]: "resolve r fl k cur xs \<noteq> Panic"
proof (induction r fl k cur xs rule: resolve.induct)
  case (2 r fl k cur x rest)
  show ?case
  proof (cases "node_at r (cur @ [x])")
    case None
    with 2 show ?thesis by (simp add: resolve.simps)
  next
    case (Some n)
    with 2 show ?thesis by (cases n; cases k) (simp_all add: resolve.simps)
  qed
qed (simp add: resolve.simps)

text \<open>A path of real directories is its own canonical path.\<close>

lemma resolve_dirs:
  "list_all plain_name p \<Longrightarrow> node_at r (cur @ p) = Some (Dir ds) \<Longrightarrow>
    resolve r fl k cur (p @ rest) = resolve r fl k (cur @ p) rest"
proof (induction p arbitrary: cur)
  case (Cons x p)
  have "\<exists>es. node_at r (cur @ [x]) = Some (Dir es)"
  proof (cases "node_at r (cur @ [x])")
    case None
    then show ?thesis using Cons.prems(2) node_at_append [of r "cur @ [x]" p] by simp
  next
    case (Some n)
    then have "node_at n p = Some (Dir ds)"
      using Cons.prems(2) node_at_append [of r "cur @ [x]" p] by simp
    with Some show ?thesis by (cases n; cases p) auto
  qed
  then obtain es where "node_at r (cur @ [x]) = Some (Dir es)" by blast
  with Cons show ?case by (simp add: resolve.simps(2) plain_name_def)
qed simp

lemma resolve_self:
  "list_all plain_name p \<Longrightarrow> node_at r p = Some (Dir ds) \<Longrightarrow> resolve r fl k [] p = Ok p"
  using resolve_dirs [of p r "[]" ds fl k "[]"] by (simp add: resolve.simps)

lemma resolve_entry:
  assumes "list_all plain_name p" "plain_name x" "node_at r p = Some (Dir es)"
    and "\<And>t. fl \<Longrightarrow> map_of es x \<noteq> Some (Link t)"
  shows "resolve r fl k [] (p @ [x]) = Ok (p @ [x])"
proof -
  have "resolve r fl k [] (p @ [x]) = resolve r fl k p [x]"
    using resolve_dirs [of p r "[]" es fl k "[x]"] assms(1,3) by simp
  also have "\<dots> = Ok (p @ [x])"
    using assms(2,4) node_at_snoc [OF assms(3), of x]
    by (auto simp: resolve.simps plain_name_def split: option.split node.split)
  finally show ?thesis .
qed


subsection \<open>The calls\<close>

record fs =
  fs_root :: node
  fs_fault :: "string \<Rightarrow> fspath \<Rightarrow> err option"

text \<open>\<^verbatim>\<open>filepath.Join\<close> of a cleaned absolute path and a path as it comes in a message.\<close>

definition join_path :: "fspath \<Rightarrow> string \<Rightarrow> fspath" where
  "join_path dir e = clean_parts True (dir @ split_on CHR ''/'' e)"

text \<open>It is the \<^verbatim>\<open>filepath.Join\<close> of the path strings.\<close>

definition path_string :: "fspath \<Rightarrow> string" where
  "path_string p = CHR ''/'' # join_with CHR ''/'' p"

lemma join_path_string:
  assumes "list_all plain_name dir"
  shows "path_join [path_string dir, e] = path_string (join_path dir e)"
proof -
  have drop: "clean_parts True ([] # es) = clean_parts True es" for es
    by (simp add: clean_parts_def clean_step_def)
  have "split_on CHR ''/'' (path_string dir @ CHR ''/'' # e) =
      [] # (if dir = [] then [[]] else dir) @ split_on CHR ''/'' e"
    using assms by (simp add: path_string_def split_on_append split_join plain_name_def list_all_iff)
  then have "clean_parts True (split_on CHR ''/'' (path_string dir @ CHR ''/'' # e)) =
      clean_parts True (dir @ split_on CHR ''/'' e)"
    by (simp add: drop)
  moreover have "rooted (path_string dir @ CHR ''/'' # e)" "path_string dir \<noteq> []"
    by (simp_all add: path_string_def rooted_def)
  ultimately show ?thesis
    by (simp add: path_join_def path_clean_def join_path_def path_string_def Let_def)
qed

definition os_stat :: "fs \<Rightarrow> bool \<Rightarrow> string \<Rightarrow> fspath \<Rightarrow> node res" where
  "os_stat f fl call p =
     (case fs_fault f call p of
        Some e \<Rightarrow> Err e
      | None \<Rightarrow>
          (case resolve (fs_root f) fl max_links [] p of
             Ok q \<Rightarrow> (case node_at (fs_root f) q of None \<Rightarrow> Err enoent | Some n \<Rightarrow> Ok n)
           | Err e \<Rightarrow> Err e
           | Panic \<Rightarrow> Panic))"

definition os_lstat :: "fs \<Rightarrow> fspath \<Rightarrow> node res" where
  "os_lstat f p = os_stat f False ''lstat'' p"

definition os_read_file :: "fs \<Rightarrow> fspath \<Rightarrow> bytes res" where
  "os_read_file f p =
     (case os_stat f True ''read'' p of
        Ok (File b e) \<Rightarrow> Ok b
      | Ok (Dir es) \<Rightarrow> Err eisdir
      | Ok (Link t) \<Rightarrow> Err eloop
      | Err e \<Rightarrow> Err e
      | Panic \<Rightarrow> Panic)"

text \<open>\<^verbatim>\<open>os.ReadDir\<close>: the entries sorted by name.\<close>

definition os_read_dir :: "fs \<Rightarrow> fspath \<Rightarrow> (string \<times> node) list res" where
  "os_read_dir f p =
     (case os_stat f True ''readdir'' p of
        Ok (Dir es) \<Rightarrow> Ok es
      | Ok _ \<Rightarrow> Err enotdir
      | Err e \<Rightarrow> Err e
      | Panic \<Rightarrow> Panic)"

definition os_readlink :: "fs \<Rightarrow> fspath \<Rightarrow> string res" where
  "os_readlink f p =
     (case os_stat f False ''readlink'' p of
        Ok (Link t) \<Rightarrow> Ok t
      | Ok _ \<Rightarrow> Err einval
      | Err e \<Rightarrow> Err e
      | Panic \<Rightarrow> Panic)"

text \<open>
  A call that changes the tree at the canonical path it resolves to: \<open>how\<close> says what becomes of
  the node that is there.
\<close>

definition os_change ::
    "fs \<Rightarrow> bool \<Rightarrow> string \<Rightarrow> fspath \<Rightarrow> (node option \<Rightarrow> node res) \<Rightarrow> unit res \<times> fs" where
  "os_change f fl call p how =
     (case fs_fault f call p of
        Some e \<Rightarrow> (Err e, f)
      | None \<Rightarrow>
          (case resolve (fs_root f) fl max_links [] p of
             Ok q \<Rightarrow>
               (case how (node_at (fs_root f) q) of
                  Ok n \<Rightarrow> (Ok (), f\<lparr>fs_root := set_node (fs_root f) q n\<rparr>)
                | Err e \<Rightarrow> (Err e, f)
                | Panic \<Rightarrow> (Panic, f))
           | Err e \<Rightarrow> (Err e, f)
           | Panic \<Rightarrow> (Panic, f)))"

text \<open>\<^verbatim>\<open>os.WriteFile\<close> truncates an existing file and keeps its mode.\<close>

fun overwrite :: "bytes \<Rightarrow> bool \<Rightarrow> node option \<Rightarrow> node res" where
  "overwrite b e None = Ok (File b e)"
| "overwrite b e (Some (File b' e')) = Ok (File b e')"
| "overwrite b e (Some (Dir es)) = Err eisdir"
| "overwrite b e (Some (Link t)) = Err eloop"

definition os_write_file :: "fs \<Rightarrow> fspath \<Rightarrow> bytes \<Rightarrow> bool \<Rightarrow> unit res \<times> fs" where
  "os_write_file f p b e = os_change f True ''open'' p (overwrite b e)"

fun create_only :: "node \<Rightarrow> node option \<Rightarrow> node res" where
  "create_only n None = Ok n"
| "create_only n (Some m) = Err eexist"

definition os_symlink :: "fs \<Rightarrow> string \<Rightarrow> fspath \<Rightarrow> unit res \<times> fs" where
  "os_symlink f t p =
     (if t = '''' then (Err enoent, f) else os_change f False ''symlink'' p (create_only (Link t)))"

definition os_mkdir :: "fs \<Rightarrow> fspath \<Rightarrow> unit res \<times> fs" where
  "os_mkdir f p = os_change f False ''mkdir'' p (create_only (Dir []))"

text \<open>
  \<^verbatim>\<open>os.MkdirAll\<close>, on the reversed path: an existing directory is left alone; otherwise the parent
  first, then \<^verbatim>\<open>mkdir\<close>, whose failure is forgiven when a directory is there.
\<close>

definition mkdir_last :: "fs \<Rightarrow> fspath \<Rightarrow> unit res \<times> fs" where
  "mkdir_last f p =
     (case os_mkdir f p of
        (Ok u, f') \<Rightarrow> (Ok (), f')
      | (r, f') \<Rightarrow>
          (case os_lstat f' p of
             Ok n \<Rightarrow> if is_dir n then (Ok (), f') else (r, f')
           | _ \<Rightarrow> (r, f')))"

primrec mkdir_up :: "string list \<Rightarrow> fs \<Rightarrow> unit res \<times> fs" where
  "mkdir_up [] f = mkdir_last f []"
| "mkdir_up (x # r) f =
     (case os_stat f True ''stat'' (rev (x # r)) of
        Ok n \<Rightarrow> if is_dir n then (Ok (), f) else (Err enotdir, f)
      | _ \<Rightarrow>
          (case mkdir_up r f of
             (Ok u, f') \<Rightarrow> mkdir_last f' (rev (x # r))
           | (e, f') \<Rightarrow> (e, f')))"

definition os_mkdir_all :: "fs \<Rightarrow> fspath \<Rightarrow> unit res \<times> fs" where
  "os_mkdir_all f p = mkdir_up (rev p) f"

text \<open>\<^verbatim>\<open>os.RemoveAll\<close>: a link is removed, not followed; a missing path is no error.\<close>

definition os_remove_all :: "fs \<Rightarrow> fspath \<Rightarrow> unit res \<times> fs" where
  "os_remove_all f p =
     (case fs_fault f ''remove'' p of
        Some e \<Rightarrow> (Err e, f)
      | None \<Rightarrow>
          (case resolve (fs_root f) False max_links [] p of
             Ok q \<Rightarrow> (Ok (), f\<lparr>fs_root := del_node (fs_root f) q\<rparr>)
           | Err e \<Rightarrow> (if e = enoent then Ok () else Err e, f)
           | Panic \<Rightarrow> (Panic, f)))"


subsection \<open>The calls at a real directory\<close>

text \<open>\<open>real_dir f p es\<close>: \<open>p\<close> is a directory with entries \<open>es\<close>, reached without links.\<close>

definition real_dir :: "fs \<Rightarrow> fspath \<Rightarrow> (string \<times> node) list \<Rightarrow> bool" where
  "real_dir f p es \<longleftrightarrow> list_all plain_name p \<and> node_at (fs_root f) p = Some (Dir es)"

definition no_fault :: "fs \<Rightarrow> bool" where
  "no_fault f \<longleftrightarrow> (\<forall>c p. fs_fault f c p = None)"

named_theorems fs_calls \<open>what the file system calls do at a real directory\<close>

lemma no_faultD [simp]: "no_fault f \<Longrightarrow> fs_fault f c p = None"
  by (simp add: no_fault_def)

lemma no_fault_update [simp]: "no_fault (f\<lparr>fs_root := r\<rparr>) = no_fault f"
  by (simp add: no_fault_def)

lemma join_plain [fs_calls]: "list_all plain_name p \<Longrightarrow> plain_name x \<Longrightarrow> join_path p x = p @ [x]"
proof -
  assume "list_all plain_name p" "plain_name x"
  then have "list_all plain_name (p @ [x])" by simp
  moreover have "clean_parts True q = q" if "list_all plain_name q" for q
    using that by (induction q rule: rev_induct) (simp_all add: clean_parts_plain, simp add: clean_parts_def)
  ultimately show "join_path p x = p @ [x]"
    using \<open>plain_name x\<close> by (simp add: join_path_def split_on_no_sep plain_name_def)
qed

lemma change_entry:
  assumes "real_dir f p es" "plain_name x" "\<And>t. fl \<Longrightarrow> map_of es x \<noteq> Some (Link t)"
  shows "os_change f fl call (p @ [x]) how =
    (case fs_fault f call (p @ [x]) of
       Some e \<Rightarrow> (Err e, f)
     | None \<Rightarrow>
         (case how (map_of es x) of
            Ok n \<Rightarrow> (Ok (), f\<lparr>fs_root := set_node (fs_root f) (p @ [x]) n\<rparr>)
          | Err e \<Rightarrow> (Err e, f)
          | Panic \<Rightarrow> (Panic, f)))"
proof -
  have p: "list_all plain_name p" "node_at (fs_root f) p = Some (Dir es)"
    using assms(1) by (simp_all add: real_dir_def)
  show ?thesis
    using resolve_entry [OF p(1) assms(2) p(2) assms(3)] node_at_snoc [OF p(2), of x]
    by (cases "fs_fault f call (p @ [x])") (simp_all add: os_change_def)
qed

lemma stat_entry:
  assumes "real_dir f p es" "plain_name x" "\<And>t. fl \<Longrightarrow> map_of es x \<noteq> Some (Link t)"
  shows "os_stat f fl call (p @ [x]) =
    (case fs_fault f call (p @ [x]) of
       Some e \<Rightarrow> Err e
     | None \<Rightarrow> (case map_of es x of None \<Rightarrow> Err enoent | Some n \<Rightarrow> Ok n))"
proof -
  have p: "list_all plain_name p" "node_at (fs_root f) p = Some (Dir es)"
    using assms(1) by (simp_all add: real_dir_def)
  show ?thesis
    using resolve_entry [OF p(1) assms(2) p(2) assms(3)] node_at_snoc [OF p(2), of x]
    by (cases "fs_fault f call (p @ [x])") (simp_all add: os_stat_def)
qed

lemma stat_self:
  "real_dir f p es \<Longrightarrow> os_stat f fl call p =
    (case fs_fault f call p of Some e \<Rightarrow> Err e | None \<Rightarrow> Ok (Dir es))"
  by (cases "fs_fault f call p") (simp_all add: os_stat_def real_dir_def resolve_self)

lemma os_stat_no_panic [simp]: "os_stat f fl call p \<noteq> Panic"
  by (simp add: os_stat_def split: option.split res.split)

lemma real_dir_parent:
  assumes "real_dir f (p @ [x]) es"
  shows "\<exists>es'. real_dir f p es' \<and> plain_name x \<and> map_of es' x = Some (Dir es)"
proof -
  obtain n where n: "node_at (fs_root f) p = Some n" "node_at n [x] = Some (Dir es)"
    using assms by (auto simp: real_dir_def node_at_append split: option.splits)
  then obtain es' where "n = Dir es'" by (cases n) auto
  with assms n show ?thesis by (auto simp: real_dir_def split: option.splits)
qed

lemma mkdir_last_existing:
  assumes "real_dir f p es"
  shows "snd (mkdir_last f p) = f \<and> fst (mkdir_last f p) \<noteq> Panic \<and> (no_fault f \<longrightarrow> fst (mkdir_last f p) = Ok ())"
proof -
  have mk: "\<exists>e. os_mkdir f p = (Err e, f)"
  proof (cases p rule: rev_exhaust)
    case Nil
    with assms show ?thesis
      by (auto simp: os_mkdir_def os_change_def resolve.simps real_dir_def split: option.split)
  next
    case (snoc q x)
    with real_dir_parent assms obtain es' where
      "real_dir f q es'" "plain_name x" "map_of es' x = Some (Dir es)" by blast
    with snoc show ?thesis by (auto simp: os_mkdir_def change_entry split: option.split)
  qed
  then show ?thesis
    using stat_self [OF assms] by (cases "fs_fault f ''lstat'' p") (auto simp: mkdir_last_def os_lstat_def)
qed

lemma mkdir_all_existing:
  "real_dir f p es \<Longrightarrow>
    snd (os_mkdir_all f p) = f \<and> fst (os_mkdir_all f p) \<noteq> Panic \<and>
    (no_fault f \<longrightarrow> fst (os_mkdir_all f p) = Ok ())"
proof (induction p arbitrary: es rule: rev_induct)
  case Nil
  then show ?case using mkdir_last_existing [OF Nil] by (simp add: os_mkdir_all_def)
next
  case (snoc x p)
  obtain es' where "real_dir f p es'" using real_dir_parent [OF snoc.prems] by blast
  from snoc.IH [OF this] mkdir_last_existing [OF snoc.prems] stat_self [OF snoc.prems, of True "''stat''"]
  show ?case
    by (cases "mkdir_up (rev p) f"; cases "fst (mkdir_up (rev p) f)")
       (auto simp: os_mkdir_all_def split: option.split)
qed

lemma mkdir_all_new:
  assumes "real_dir f p es" "plain_name x" "map_of es x = None"
  shows "os_mkdir_all f (p @ [x]) = (Ok (), f\<lparr>fs_root := set_node (fs_root f) (p @ [x]) (Dir [])\<rparr>) \<or>
    (\<exists>e. os_mkdir_all f (p @ [x]) = (Err e, f)) \<and> \<not> no_fault f"
proof -
  have last: "mkdir_last f (p @ [x]) = (Ok (), f\<lparr>fs_root := set_node (fs_root f) (p @ [x]) (Dir [])\<rparr>) \<or>
    (\<exists>e. mkdir_last f (p @ [x]) = (Err e, f)) \<and> \<not> no_fault f"
    using change_entry [OF assms(1,2), of False "''mkdir''" "create_only (Dir [])"]
      stat_entry [OF assms(1,2), of False "''lstat''"] assms(3)
    by (auto simp: mkdir_last_def os_mkdir_def os_lstat_def no_fault_def split: option.split)
  have stat: "\<exists>e. os_stat f True ''stat'' (p @ [x]) = Err e"
    using stat_entry [OF assms(1,2), of True "''stat''"] assms(3) by (auto split: option.split)
  show ?thesis
    using mkdir_all_existing [OF assms(1)] last stat
    by (cases "mkdir_up (rev p) f"; cases "fst (mkdir_up (rev p) f)")
       (auto simp: os_mkdir_all_def)
qed

end
