(* ===== verification/Casfs.thy ===== *)
theory Casfs
  imports Filesystem MemStore
begin

text \<open>
  \<^verbatim>\<open>internal/casfs\<close>: \<^verbatim>\<open>Materialize\<close> writes a tree of the CAS into a directory, \<^verbatim>\<open>CaptureFile\<close> and
  \<^verbatim>\<open>CaptureDirectory\<close> upload what is there.  The recursion over directories is bounded by a fuel
  that counts nesting: \<open>None\<close> is a tree nested deeper.  The state is the file system together
  with the state \<open>'s\<close> of the store.
\<close>

subsection \<open>The interfaces\<close>

type_synonym 's getter = "'s \<Rightarrow> digest_ptr \<Rightarrow> bytes res \<times> 's"
type_synonym 's putter = "'s \<Rightarrow> digest_ptr \<Rightarrow> bytes \<Rightarrow> unit res \<times> 's"

definition check_name :: "string \<Rightarrow> unit res" where
  "check_name name =
     (if name = '''' \<or> name = dot \<or> name = dotdot \<or> CHR ''/'' \<in> set name
      then Err (Errorf ''invalid tree entry name %q'' [name]) else Ok ())"

subsection \<open>Materialize\<close>

fun mat_files ::
    "'s getter \<Rightarrow> fspath \<Rightarrow> file_node list \<Rightarrow> fs \<times> 's \<Rightarrow> unit res \<times> fs \<times> 's" where
  "mat_files get dir [] w = (Ok (), w)"
| "mat_files get dir (f # fs) (h, s) =
     and_then (check_name (fn_name f), (h, s)) (\<lambda>_ w.
     and_then (wrap_err ''fetch file %q (%s): %w'' [fn_name f, key (fn_digest f)]
                 (on_snd h (get s (fn_digest f)))) (\<lambda>content (h, s).
     and_then (on_fst (os_write_file h (join_path dir (fn_name f)) content (fn_exec f)) s) (\<lambda>_ w.
     mat_files get dir fs w)))"

fun mat_links :: "fspath \<Rightarrow> symlink_node list \<Rightarrow> fs \<times> 's \<Rightarrow> unit res \<times> fs \<times> 's" where
  "mat_links dir [] w = (Ok (), w)"
| "mat_links dir (l # ls) (h, s) =
     and_then (check_name (sn_name l), (h, s)) (\<lambda>_ w.
     and_then (on_fst (os_symlink h (sn_target l) (join_path dir (sn_name l))) s) (\<lambda>_ w.
     mat_links dir ls w))"

fun materialize ::
      "codec \<Rightarrow> 's getter \<Rightarrow> nat \<Rightarrow> digest_ptr \<Rightarrow> fspath \<Rightarrow> fs \<times> 's \<Rightarrow> (unit res \<times> fs \<times> 's) option"
  and mat_subs ::
      "codec \<Rightarrow> 's getter \<Rightarrow> nat \<Rightarrow> fspath \<Rightarrow> dir_node list \<Rightarrow> fs \<times> 's \<Rightarrow> (unit res \<times> fs \<times> 's) option"
where
  "materialize pb get 0 root dir w = None"
| "materialize pb get (Suc n) root dir (h, s) =
     (case and_then (on_fst (os_mkdir_all h dir) s) (\<lambda>_ (h, s).
           and_then (wrap_err ''fetch directory %s: %w'' [key root] (on_snd h (get s root))) (\<lambda>data w.
           and_then (wrap_err ''unmarshal directory %s: %w'' [key root] (of_ext (unmarshal_dir pb data), w))
             (\<lambda>d w.
           and_then (mat_files get dir (dir_files d) w) (\<lambda>_ w.
           and_then (mat_links dir (dir_symlinks d) w) (\<lambda>_ w. (Ok d, w)))))) of
        (Ok d, w) \<Rightarrow> mat_subs pb get n dir (dir_directories d) w
      | (Err e, w) \<Rightarrow> Some (Err e, w)
      | (Panic, w) \<Rightarrow> Some (Panic, w))"
| "mat_subs pb get n dir [] w = Some (Ok (), w)"
| "mat_subs pb get n dir (sub # subs) w =
     (case check_name (dn_name sub) of
        Ok _ \<Rightarrow>
          (case materialize pb get n (dn_digest sub) (join_path dir (dn_name sub)) w of
             None \<Rightarrow> None
           | Some (Ok _, w') \<Rightarrow> mat_subs pb get n dir subs w'
           | Some (r, w') \<Rightarrow> Some (r, w'))
      | r \<Rightarrow> Some (r, w))"

subsection \<open>Capture\<close>

definition capture_file ::
    "'s putter \<Rightarrow> fs \<Rightarrow> string \<Rightarrow> fspath \<Rightarrow> bool \<Rightarrow> 's \<Rightarrow> output_file res \<times> 's" where
  "capture_file put h output_path fs_path executable s =
     and_then (os_read_file h fs_path, s) (\<lambda>content s.
       let d = Some (from_bytes content)
       in and_then (put s d content) (\<lambda>_ s.
            (Ok \<lparr>of_path = output_path, of_digest = d, of_exec = executable\<rparr>, s)))"

text \<open>The children of a \<^verbatim>\<open>Directory\<close> are sorted by name.\<close>

definition sort_dir :: "directory \<Rightarrow> directory" where
  "sort_dir d =
     \<lparr>dir_files = sort_key fn_name (dir_files d),
      dir_directories = sort_key dn_name (dir_directories d),
      dir_symlinks = sort_key sn_name (dir_symlinks d)\<rparr>"

definition empty_directory :: directory where
  "empty_directory = \<lparr>dir_files = [], dir_directories = [], dir_symlinks = []\<rparr>"

definition finish_directory ::
    "codec \<Rightarrow> 's putter \<Rightarrow> directory \<Rightarrow> directory list \<Rightarrow> 's \<Rightarrow> (directory \<times> digest_ptr \<times> directory list) res \<times> 's"
where
  "finish_directory pb put dir descendants s =
     (let dir' = sort_dir dir
      in and_then (of_ext (marshal_dir pb dir'), s) (\<lambda>b s.
           let d = Some (from_bytes b)
           in and_then (put s d b) (\<lambda>_ s. (Ok (dir', d, descendants), s))))"

fun build_directory ::
      "codec \<Rightarrow> 's putter \<Rightarrow> fs \<Rightarrow> nat \<Rightarrow> fspath \<Rightarrow> 's \<Rightarrow>
        ((directory \<times> digest_ptr \<times> directory list) res \<times> 's) option"
  and build_entries ::
      "codec \<Rightarrow> 's putter \<Rightarrow> fs \<Rightarrow> nat \<Rightarrow> fspath \<Rightarrow> (string \<times> node) list \<Rightarrow> directory \<Rightarrow> directory list \<Rightarrow> 's \<Rightarrow>
        ((directory \<times> directory list) res \<times> 's) option"
where
  "build_directory pb put h 0 fs_path s = None"
| "build_directory pb put h (Suc n) fs_path s =
     (case os_read_dir h fs_path of
        Ok entries \<Rightarrow>
          (case build_entries pb put h n fs_path entries empty_directory [] s of
             None \<Rightarrow> None
           | Some (Ok (dir, descendants), s') \<Rightarrow> Some (finish_directory pb put dir descendants s')
           | Some (Err e, s') \<Rightarrow> Some (Err e, s')
           | Some (Panic, s') \<Rightarrow> Some (Panic, s'))
      | Err e \<Rightarrow> Some (Err e, s)
      | Panic \<Rightarrow> Some (Panic, s))"
| "build_entries pb put h n fs_path [] dir descendants s = Some (Ok (dir, descendants), s)"
| "build_entries pb put h n fs_path ((name, entry) # es) dir descendants s =
     (let full = join_path fs_path name
      in case os_lstat h full of
           Err e \<Rightarrow> Some (Err e, s)
         | Panic \<Rightarrow> Some (Panic, s)
         | Ok info \<Rightarrow>
             if is_link info then
               (case os_readlink h full of
                  Ok target \<Rightarrow>
                    build_entries pb put h n fs_path es
                      (dir\<lparr>dir_symlinks := dir_symlinks dir @ [\<lparr>sn_name = name, sn_target = target\<rparr>]\<rparr>)
                      descendants s
                | Err e \<Rightarrow> Some (Err e, s)
                | Panic \<Rightarrow> Some (Panic, s))
             else if is_dir entry then
               (case build_directory pb put h n full s of
                  None \<Rightarrow> None
                | Some (Ok (child, child_digest, child_desc), s') \<Rightarrow>
                    build_entries pb put h n fs_path es
                      (dir\<lparr>dir_directories :=
                         dir_directories dir @ [\<lparr>dn_name = name, dn_digest = child_digest\<rparr>]\<rparr>)
                      (descendants @ [child] @ child_desc) s'
                | Some (Err e, s') \<Rightarrow> Some (Err e, s')
                | Some (Panic, s') \<Rightarrow> Some (Panic, s'))
             else
               (case and_then (os_read_file h full, s) (\<lambda>content s.
                     let d = Some (from_bytes content)
                     in and_then (put s d content) (\<lambda>_ s. (Ok d, s))) of
                  (Ok d, s') \<Rightarrow>
                    build_entries pb put h n fs_path es
                      (dir\<lparr>dir_files :=
                         dir_files dir @ [\<lparr>fn_name = name, fn_digest = d, fn_exec = is_exec info\<rparr>]\<rparr>)
                      descendants s'
                | (Err e, s') \<Rightarrow> Some (Err e, s')
                | (Panic, s') \<Rightarrow> Some (Panic, s')))"

definition capture_directory ::
    "codec \<Rightarrow> 's putter \<Rightarrow> fs \<Rightarrow> nat \<Rightarrow> string \<Rightarrow> fspath \<Rightarrow> 's \<Rightarrow> (output_directory res \<times> 's) option" where
  "capture_directory pb put h n output_path fs_path s =
     (case build_directory pb put h n fs_path s of
        None \<Rightarrow> None
      | Some r \<Rightarrow>
          Some (and_then r (\<lambda>(root, root_digest, descendants) s.
            and_then (of_ext (marshal_tree pb \<lparr>tree_root = root, tree_children = descendants\<rparr>), s) (\<lambda>b s.
              let d = Some (from_bytes b)
              in and_then (put s d b) (\<lambda>_ s.
                   (Ok \<lparr>od_path = output_path, od_tree_digest = d, od_root_digest = root_digest\<rparr>, s))))))"

end
