(* ===== verification/CasTree.thy ===== *)
theory CasTree
  imports Casfs
begin

text \<open>
  What a digest denotes: the abstract tree below it in the view of a store, as an executable
  specification, and the refinement of \<^verbatim>\<open>Materialize\<close> to it.
\<close>

subsection \<open>The tree below a digest\<close>

type_synonym entries = "(string \<times> node) list"

fun spec_files :: "view \<Rightarrow> file_node list \<Rightarrow> entries \<Rightarrow> entries option" where
  "spec_files v [] es = Some es"
| "spec_files v (f # fs) es =
     (if plain_name (fn_name f) then
        (case lookup_blob v (fn_digest f) of
           None \<Rightarrow> None
         | Some b \<Rightarrow> spec_files v fs (put_entry (fn_name f) (File b (fn_exec f)) es))
      else None)"

fun spec_links :: "symlink_node list \<Rightarrow> entries \<Rightarrow> entries option" where
  "spec_links [] es = Some es"
| "spec_links (l # ls) es =
     (if plain_name (sn_name l) \<and> sn_target l \<noteq> '''' then
        spec_links ls (put_entry (sn_name l) (Link (sn_target l)) es)
      else None)"

fun spec_tree :: "codec \<Rightarrow> view \<Rightarrow> nat \<Rightarrow> digest_ptr \<Rightarrow> node option"
  and spec_subs :: "codec \<Rightarrow> view \<Rightarrow> nat \<Rightarrow> dir_node list \<Rightarrow> entries \<Rightarrow> entries option"
where
  "spec_tree pb v 0 d = None"
| "spec_tree pb v (Suc n) d =
     (case lookup_blob v d of
        None \<Rightarrow> None
      | Some data \<Rightarrow>
          (case unmarshal_dir pb data of
             Inl e \<Rightarrow> None
           | Inr dm \<Rightarrow>
               (case spec_files v (dir_files dm) [] of
                  None \<Rightarrow> None
                | Some es1 \<Rightarrow>
                    (case spec_links (dir_symlinks dm) es1 of
                       None \<Rightarrow> None
                     | Some es2 \<Rightarrow> map_option Dir (spec_subs pb v n (dir_directories dm) es2)))))"
| "spec_subs pb v n [] es = Some es"
| "spec_subs pb v n (s # ss) es =
     (if plain_name (dn_name s) then
        (case spec_tree pb v n (dn_digest s) of
           None \<Rightarrow> None
         | Some t \<Rightarrow> spec_subs pb v n ss (put_entry (dn_name s) t es))
      else None)"

text \<open>
  What the REAPI asks of the directories of a tree, as far as they are present: no name twice.
  The digests are ones the store has a law for.
\<close>

definition entry_names :: "directory \<Rightarrow> string list" where
  "entry_names dm =
     map fn_name (dir_files dm) @ map sn_name (dir_symlinks dm) @ map dn_name (dir_directories dm)"

fun good_tree :: "codec \<Rightarrow> (digest_ptr \<Rightarrow> bool) \<Rightarrow> view \<Rightarrow> nat \<Rightarrow> digest_ptr \<Rightarrow> bool" where
  "good_tree pb okd v 0 d = True"
| "good_tree pb okd v (Suc n) d =
     (okd d \<and>
      (case lookup_blob v d of
         None \<Rightarrow> True
       | Some data \<Rightarrow>
           (case unmarshal_dir pb data of
              Inl e \<Rightarrow> True
            | Inr dm \<Rightarrow>
                distinct (entry_names dm) \<and> list_all (\<lambda>f. okd (fn_digest f)) (dir_files dm) \<and>
                list_all (\<lambda>s. good_tree pb okd v n (dn_digest s)) (dir_directories dm))))"

subsection \<open>File systems that differ only below a path\<close>

definition within :: "fspath \<Rightarrow> fs \<Rightarrow> fs \<Rightarrow> bool" where
  "within p h h' \<longleftrightarrow> h' = h \<or> (\<exists>c. h' = h\<lparr>fs_root := set_node (fs_root h) p c\<rparr>)"

lemma within_refl [simp]: "within p h h"
  by (simp add: within_def)

lemma within_set [simp]: "within p h (h\<lparr>fs_root := set_node (fs_root h) p c\<rparr>)"
  by (auto simp: within_def)

lemma within_trans: "within p h h' \<Longrightarrow> within p h' h'' \<Longrightarrow> within p h h''"
  by (auto simp: within_def)

lemma within_no_fault: "within p h h' \<Longrightarrow> no_fault h' = no_fault h"
  by (auto simp: within_def)

lemma within_parallel:
  "within p h h' \<Longrightarrow> parallel p q \<Longrightarrow> node_at (fs_root h') q = node_at (fs_root h) q"
  by (auto simp: within_def node_at_set_parallel)

lemma node_at_set_entry:
  "node_at n p = Some (Dir es) \<Longrightarrow> node_at (set_node n (p @ [x]) c) p = Some (Dir (put_entry x c es))"
  by (induction n p rule: node_at.induct) (auto split: option.splits)

lemma real_dir_put:
  "real_dir h p es \<Longrightarrow> real_dir (h\<lparr>fs_root := set_node (fs_root h) (p @ [x]) c\<rparr>) p (put_entry x c es)"
  by (simp add: real_dir_def node_at_set_entry)

lemma within_below:
  assumes "real_dir h p es" "within (p @ [x]) h h'"
  shows "within p h h' \<and> (h' = h \<or> (\<exists>c. real_dir h' p (put_entry x c es)))"
proof -
  have "set_node (fs_root h) (p @ [x]) c = set_node (fs_root h) p (set_node (Dir es) [x] c)" for c
    using assms(1) by (intro set_node_append) (simp_all add: real_dir_def)
  with assms(2) real_dir_put [OF assms(1)] show ?thesis unfolding within_def by metis
qed

lemma within_step:
  "real_dir h p es \<Longrightarrow> within p h (h\<lparr>fs_root := set_node (fs_root h) (p @ [x]) c\<rparr>)"
  using within_below [of h p es x "h\<lparr>fs_root := set_node (fs_root h) (p @ [x]) c\<rparr>"] by simp

subsection \<open>Refinement\<close>

lemma check_name_iff: "check_name n = Ok () \<longleftrightarrow> plain_name n"
  by (auto simp: check_name_def plain_name_def)

lemma check_name_plain [simp]: "plain_name n \<Longrightarrow> check_name n = Ok ()"
  by (simp add: check_name_iff)

lemma check_name_no_panic [simp]: "check_name n \<noteq> Panic"
  by (simp add: check_name_def)

lemma write_new:
  assumes "real_dir h dir es" "plain_name x" "map_of es x = None"
  shows "os_write_file h (join_path dir x) b e =
      (Ok (), h\<lparr>fs_root := set_node (fs_root h) (dir @ [x]) (File b e)\<rparr>) \<or>
    (\<exists>er. os_write_file h (join_path dir x) b e = (Err er, h)) \<and> \<not> no_fault h"
  using change_entry [OF assms(1,2), of True "''open''" "overwrite b e"] assms
  by (auto simp: os_write_file_def join_plain real_dir_def no_fault_def split: option.split)

lemma symlink_new:
  assumes "real_dir h dir es" "plain_name x" "map_of es x = None"
  shows "os_symlink h t (join_path dir x) =
      (Ok (), h\<lparr>fs_root := set_node (fs_root h) (dir @ [x]) (Link t)\<rparr>) \<and> t \<noteq> '''' \<or>
    (\<exists>er. os_symlink h t (join_path dir x) = (Err er, h)) \<and> (t = '''' \<or> \<not> no_fault h)"
  using change_entry [OF assms(1,2), of False "''symlink''" "create_only (Link t)"] assms
  by (auto simp: os_symlink_def join_plain real_dir_def no_fault_def split: option.split)

text \<open>A place for a new directory: an empty one, or a missing entry of a real directory.\<close>

definition fresh_place :: "fs \<Rightarrow> fspath \<Rightarrow> bool" where
  "fresh_place h dir \<longleftrightarrow>
     real_dir h dir [] \<or>
     (\<exists>q x es. dir = q @ [x] \<and> real_dir h q es \<and> plain_name x \<and> map_of es x = None)"

lemma mkdir_fresh:
  assumes "fresh_place h dir"
  shows "\<exists>h1. within dir h h1 \<and>
    (os_mkdir_all h dir = (Ok (), h1) \<and> real_dir h1 dir [] \<or>
     (\<exists>e. os_mkdir_all h dir = (Err e, h1)) \<and> \<not> no_fault h)"
proof (cases "real_dir h dir []")
  case True
  from mkdir_all_existing [OF this] True show ?thesis
    by (cases "os_mkdir_all h dir"; cases "fst (os_mkdir_all h dir)") auto
next
  case False
  then obtain q x es where p: "dir = q @ [x]" "real_dir h q es" "plain_name x" "map_of es x = None"
    using assms by (auto simp: fresh_place_def)
  have "real_dir (h\<lparr>fs_root := set_node (fs_root h) dir (Dir [])\<rparr>) dir []"
    using p by (auto simp: real_dir_def intro!: node_at_set_node)
  with mkdir_all_new [OF p(2,3,4)] p(1) show ?thesis
    using within_set [of dir h] within_refl by metis
qed

definition mat_result :: "codec \<Rightarrow> view \<Rightarrow> nat \<Rightarrow> digest_ptr \<Rightarrow> fspath \<Rightarrow> fs \<Rightarrow> unit res \<Rightarrow> fs \<Rightarrow> bool" where
  "mat_result pb v n d dir h r h' \<longleftrightarrow>
     r \<noteq> Panic \<and> within dir h h' \<and>
     (r = Ok () \<longrightarrow> (\<exists>t. spec_tree pb v n d = Some t \<and> node_at (fs_root h') dir = Some t))"

context blob_store
begin

lemma mat_files_law:
  assumes "real_dir h dir es" "inv s" "distinct (map fn_name fs)"
    and "fst ` set es \<inter> fn_name ` set fs = {}" "list_all (\<lambda>f. okd (fn_digest f)) fs"
    and "mat_files (st_get st) dir fs (h, s) = (r, h', s')"
  shows "inv s' \<and> vw s' = vw s \<and> r \<noteq> Panic \<and> within dir h h' \<and>
    (\<exists>es'. real_dir h' dir es' \<and> fst ` set es' \<subseteq> fst ` set es \<union> fn_name ` set fs \<and>
       (r = Ok () \<longrightarrow> spec_files (vw s) fs es = Some es'))"
  using assms
proof (induction fs arbitrary: h s es)
  case Nil
  then show ?case by auto
next
  case (Cons f fs)
  show ?case
  proof (cases "plain_name (fn_name f)")
    case False
    with Cons.prems show ?thesis
      by (cases "check_name (fn_name f)") (auto simp: check_name_iff)
  next
    case True
    then have ck: "check_name (fn_name f) = Ok ()" by (simp add: check_name_iff)
    obtain rg s1 where g: "st_get st s (fn_digest f) = (rg, s1)" by fastforce
    have law: "inv s1" "vw s1 = vw s" "rg \<noteq> Panic" "\<And>b. rg = Ok b \<Longrightarrow> lookup_blob (vw s) (fn_digest f) = Some b"
      using get_law [OF Cons.prems(2) _ g] Cons.prems(5) by auto
    show ?thesis
    proof (cases rg)
      case (Ok b)
      have fresh: "map_of es (fn_name f) = None"
        using Cons.prems(4) by (auto simp: map_of_eq_None_iff)
      let ?h1 = "h\<lparr>fs_root := set_node (fs_root h) (dir @ [fn_name f]) (File b (fn_exec f))\<rparr>"
      let ?es1 = "put_entry (fn_name f) (File b (fn_exec f)) es"
      consider (ok) "os_write_file h (join_path dir (fn_name f)) b (fn_exec f) = (Ok (), ?h1)"
        | (bad) er where "os_write_file h (join_path dir (fn_name f)) b (fn_exec f) = (Err er, h)"
        using write_new [OF Cons.prems(1) True fresh, of b "fn_exec f"] by blast
      then show ?thesis
      proof cases
        case ok
        have rd: "real_dir ?h1 dir ?es1" by (rule real_dir_put [OF Cons.prems(1)])
        have "fst ` set ?es1 \<inter> fn_name ` set fs = {}"
          using Cons.prems(3,4) by (auto simp: fst_put_entry)
        moreover have "mat_files (st_get st) dir fs (?h1, s1) = (r, h', s')"
          using Cons.prems(6) by (simp add: ck g Ok ok)
        ultimately have "inv s' \<and> vw s' = vw s1 \<and> r \<noteq> Panic \<and> within dir ?h1 h' \<and>
          (\<exists>es'. real_dir h' dir es' \<and> fst ` set es' \<subseteq> fst ` set ?es1 \<union> fn_name ` set fs \<and>
             (r = Ok () \<longrightarrow> spec_files (vw s1) fs ?es1 = Some es'))"
          using Cons.prems(3,5) by (intro Cons.IH [OF rd law(1)]) simp_all
        then show ?thesis
          using within_trans [OF within_step [OF Cons.prems(1)]] law(2) law(4) [OF Ok] True
          by (auto simp: fst_put_entry)
      next
        case bad
        with Cons.prems law show ?thesis by (auto simp: ck g Ok)
      qed
    next
      case (Err e)
      with Cons.prems law show ?thesis by (auto simp: ck g)
    next
      case Panic
      with law show ?thesis by simp
    qed
  qed
qed

lemma mat_links_law:
  assumes "real_dir h dir es" "distinct (map sn_name ls)" "fst ` set es \<inter> sn_name ` set ls = {}"
    and "mat_links dir ls (h, s) = (r, h', s')"
  shows "s' = s \<and> r \<noteq> Panic \<and> within dir h h' \<and>
    (\<exists>es'. real_dir h' dir es' \<and> fst ` set es' \<subseteq> fst ` set es \<union> sn_name ` set ls \<and>
       (r = Ok () \<longrightarrow> spec_links ls es = Some es'))"
  using assms
proof (induction ls arbitrary: h es)
  case Nil
  then show ?case by auto
next
  case (Cons l ls)
  show ?case
  proof (cases "plain_name (sn_name l)")
    case False
    with Cons.prems show ?thesis
      by (cases "check_name (sn_name l)") (auto simp: check_name_iff)
  next
    case True
    then have ck: "check_name (sn_name l) = Ok ()" by (simp add: check_name_iff)
    have fresh: "map_of es (sn_name l) = None"
      using Cons.prems(3) by (auto simp: map_of_eq_None_iff)
    let ?h1 = "h\<lparr>fs_root := set_node (fs_root h) (dir @ [sn_name l]) (Link (sn_target l))\<rparr>"
    let ?es1 = "put_entry (sn_name l) (Link (sn_target l)) es"
    consider (ok) "os_symlink h (sn_target l) (join_path dir (sn_name l)) = (Ok (), ?h1)" "sn_target l \<noteq> ''''"
      | (bad) er where "os_symlink h (sn_target l) (join_path dir (sn_name l)) = (Err er, h)"
      using symlink_new [OF Cons.prems(1) True fresh, of "sn_target l"] by blast
    then show ?thesis
    proof cases
      case ok
      have rd: "real_dir ?h1 dir ?es1" by (rule real_dir_put [OF Cons.prems(1)])
      have "fst ` set ?es1 \<inter> sn_name ` set ls = {}"
        using Cons.prems(2,3) by (auto simp: fst_put_entry)
      moreover have "mat_links dir ls (?h1, s) = (r, h', s')"
        using Cons.prems(4) by (simp add: ck ok)
      ultimately have "s' = s \<and> r \<noteq> Panic \<and> within dir ?h1 h' \<and>
        (\<exists>es'. real_dir h' dir es' \<and> fst ` set es' \<subseteq> fst ` set ?es1 \<union> sn_name ` set ls \<and>
           (r = Ok () \<longrightarrow> spec_links ls ?es1 = Some es'))"
        using Cons.prems(2) by (intro Cons.IH [OF rd]) simp_all
      then show ?thesis
        using within_trans [OF within_step [OF Cons.prems(1)]] True ok(2)
        by (auto simp: fst_put_entry)
    next
      case bad
      with Cons.prems show ?thesis by (auto simp: ck)
    qed
  qed
qed

lemma mat_entries_law:
  assumes "real_dir h dir []" "inv s" "distinct (entry_names dm)"
    and "list_all (\<lambda>f. okd (fn_digest f)) (dir_files dm)"
    and "and_then (mat_files (st_get st) dir (dir_files dm) (h, s)) (\<lambda>_ w.
          and_then (mat_links dir (dir_symlinks dm) w) (\<lambda>_ w. (Ok dm, w))) = (r, h', s')"
  shows "inv s' \<and> vw s' = vw s \<and> r \<noteq> Panic \<and> within dir h h' \<and>
    (\<forall>dm'. r = Ok dm' \<longrightarrow> dm' = dm \<and>
      (\<exists>es1 es2. real_dir h' dir es2 \<and> fst ` set es2 \<inter> dn_name ` set (dir_directories dm) = {} \<and>
         spec_files (vw s) (dir_files dm) [] = Some es1 \<and> spec_links (dir_symlinks dm) es1 = Some es2))"
proof -
  obtain r1 h1 s1 where f: "mat_files (st_get st) dir (dir_files dm) (h, s) = (r1, h1, s1)"
    by (metis surj_pair)
  have d: "distinct (map fn_name (dir_files dm))" "distinct (map sn_name (dir_symlinks dm))"
    "fn_name ` set (dir_files dm) \<inter> sn_name ` set (dir_symlinks dm) = {}"
    "(fn_name ` set (dir_files dm) \<union> sn_name ` set (dir_symlinks dm)) \<inter> dn_name ` set (dir_directories dm) = {}"
    using assms(3) by (auto simp: entry_names_def)
  from mat_files_law [OF assms(1,2) d(1) _ assms(4) f]
  have fl: "inv s1 \<and> vw s1 = vw s \<and> r1 \<noteq> Panic \<and> within dir h h1 \<and>
    (\<exists>es'. real_dir h1 dir es' \<and> fst ` set es' \<subseteq> fn_name ` set (dir_files dm) \<and>
       (r1 = Ok () \<longrightarrow> spec_files (vw s) (dir_files dm) [] = Some es'))"
    by simp
  then obtain es1 where es1: "real_dir h1 dir es1" "fst ` set es1 \<subseteq> fn_name ` set (dir_files dm)"
    "r1 = Ok () \<Longrightarrow> spec_files (vw s) (dir_files dm) [] = Some es1" by blast
  show ?thesis
  proof (cases r1)
    case (Ok u)
    obtain r2 h2 s2 where l: "mat_links dir (dir_symlinks dm) (h1, s1) = (r2, h2, s2)"
      by (metis surj_pair)
    have "fst ` set es1 \<inter> sn_name ` set (dir_symlinks dm) = {}" using es1(2) d(3) by blast
    from mat_links_law [OF es1(1) d(2) this l]
    obtain es2 where es2: "s2 = s1" "r2 \<noteq> Panic" "within dir h1 h2" "real_dir h2 dir es2"
      "fst ` set es2 \<subseteq> fst ` set es1 \<union> sn_name ` set (dir_symlinks dm)"
      "r2 = Ok () \<Longrightarrow> spec_links (dir_symlinks dm) es1 = Some es2" by blast
    have "fst ` set es2 \<subseteq> fn_name ` set (dir_files dm) \<union> sn_name ` set (dir_symlinks dm)"
      using es2(5) es1(2) by (rule order_trans [OF _ Un_mono [OF _ order_refl]])
    from Int_mono [OF this order_refl [of "dn_name ` set (dir_directories dm)"]]
    have "fst ` set es2 \<inter> dn_name ` set (dir_directories dm) = {}" using d(4) by simp
    then show ?thesis
      using assms(5) Ok fl es1(3) es2 within_trans [of dir h h1 h2]
      by (cases r2) (auto simp: f l)
  next
    case (Err e)
    then show ?thesis using assms(5) fl by (auto simp: f)
  next
    case Panic
    then show ?thesis using fl by simp
  qed
qed

lemma mat_subs_law:
  assumes IH: "\<And>d dir h s r h' s'. fresh_place h dir \<Longrightarrow> inv s \<Longrightarrow> good_tree pb okd (vw s) n d \<Longrightarrow>
      materialize pb (st_get st) n d dir (h, s) = Some (r, h', s') \<Longrightarrow>
      inv s' \<and> vw s' = vw s \<and> mat_result pb (vw s) n d dir h r h'"
    and "real_dir h dir es" "inv s" "distinct (map dn_name subs)" "fst ` set es \<inter> dn_name ` set subs = {}"
    and "list_all (\<lambda>sub. good_tree pb okd (vw s) n (dn_digest sub)) subs"
    and "mat_subs pb (st_get st) n dir subs (h, s) = Some (r, h', s')"
  shows "inv s' \<and> vw s' = vw s \<and> r \<noteq> Panic \<and> within dir h h' \<and>
    (r = Ok () \<longrightarrow> (\<exists>es'. spec_subs pb (vw s) n subs es = Some es' \<and> real_dir h' dir es'))"
  using assms(2-)
proof (induction subs arbitrary: h s es)
  case Nil
  then show ?case by auto
next
  case (Cons sub subs)
  let ?x = "dn_name sub"
  show ?case
  proof (cases "plain_name ?x")
    case False
    with Cons.prems show ?thesis
      by (cases "check_name ?x") (auto simp: check_name_iff)
  next
    case True
    then have ck: "check_name ?x = Ok ()" by (simp add: check_name_iff)
    have fresh: "map_of es ?x = None"
      using Cons.prems(4) by (auto simp: map_of_eq_None_iff)
    have join: "join_path dir ?x = dir @ [?x]"
      using Cons.prems(1) True by (simp add: join_plain real_dir_def)
    obtain r1 h1 s1 where m: "materialize pb (st_get st) n (dn_digest sub) (dir @ [?x]) (h, s) = Some (r1, h1, s1)"
      using Cons.prems(6) by (auto simp: ck join split: option.splits)
    have "fresh_place h (dir @ [?x])"
      using Cons.prems(1) True fresh by (auto simp: fresh_place_def)
    from IH [OF this Cons.prems(2) _ m] Cons.prems(5)
    have law: "inv s1" "vw s1 = vw s" "mat_result pb (vw s) n (dn_digest sub) (dir @ [?x]) h r1 h1" by auto
    then have w: "within (dir @ [?x]) h h1" by (simp add: mat_result_def)
    from within_below [OF Cons.prems(1) w] have wd: "within dir h h1" by simp
    show ?thesis
    proof (cases r1)
      case (Ok u)
      then obtain t where t: "spec_tree pb (vw s) n (dn_digest sub) = Some t"
        "node_at (fs_root h1) (dir @ [?x]) = Some t"
        using law(3) by (auto simp: mat_result_def)
      have "h1 \<noteq> h"
        using t(2) fresh node_at_snoc [of "fs_root h" dir es ?x] Cons.prems(1) by (auto simp: real_dir_def)
      then obtain c where c: "real_dir h1 dir (put_entry ?x c es)"
        using within_below [OF Cons.prems(1) w] by blast
      then have rd: "real_dir h1 dir (put_entry ?x t es)"
        using t(2) node_at_snoc [of "fs_root h1" dir "put_entry ?x c es" ?x] by (simp add: real_dir_def)
      have "mat_subs pb (st_get st) n dir subs (h1, s1) = Some (r, h', s')"
        using Cons.prems(6) m Ok by (simp add: ck join)
      moreover have "fst ` set (put_entry ?x t es) \<inter> dn_name ` set subs = {}"
        using Cons.prems(3,4) by (auto simp: fst_put_entry)
      ultimately have "inv s' \<and> vw s' = vw s1 \<and> r \<noteq> Panic \<and> within dir h1 h' \<and>
        (r = Ok () \<longrightarrow> (\<exists>es'. spec_subs pb (vw s1) n subs (put_entry ?x t es) = Some es' \<and> real_dir h' dir es'))"
        using Cons.prems(3,5) law(2) by (intro Cons.IH [OF rd law(1)]) simp_all
      then show ?thesis
        using within_trans [OF wd] law(2) True t(1) by auto
    next
      case (Err e)
      with Cons.prems(6) m law wd show ?thesis by (auto simp: ck join)
    next
      case Panic
      with law(3) show ?thesis by (simp add: mat_result_def)
    qed
  qed
qed

lemma materialize_law:
  assumes "fresh_place h dir" "inv s" "good_tree pb okd (vw s) n d"
    and "materialize pb (st_get st) n d dir (h, s) = Some (r, h', s')"
  shows "inv s' \<and> vw s' = vw s \<and> mat_result pb (vw s) n d dir h r h'"
  using assms
proof (induction n arbitrary: d dir h s r h' s')
  case 0
  then show ?case by simp
next
  case (Suc n)
  obtain h1 where w1: "within dir h h1"
    and mk: "os_mkdir_all h dir = (Ok (), h1) \<and> real_dir h1 dir [] \<or> (\<exists>e. os_mkdir_all h dir = (Err e, h1))"
    using mkdir_fresh [OF Suc.prems(1)] by blast
  show ?case
  proof (cases "\<exists>e. os_mkdir_all h dir = (Err e, h1)")
    case True
    with Suc.prems w1 show ?thesis by (auto simp: mat_result_def)
  next
    case False
    then have mkok: "os_mkdir_all h dir = (Ok (), h1)" and rd1: "real_dir h1 dir []" using mk by auto
    obtain rg s1 where g: "st_get st s d = (rg, s1)" by fastforce
    have okd: "okd d" using Suc.prems(3) by simp
    note gl = get_law [OF Suc.prems(2) okd g]
    show ?thesis
    proof (cases rg)
      case (Ok data)
      show ?thesis
      proof (cases "unmarshal_dir pb data")
        case (Inl e)
        with Suc.prems(4) gl w1 show ?thesis by (auto simp: mkok g Ok mat_result_def)
      next
        case (Inr dm)
        have gt: "distinct (entry_names dm)" "list_all (\<lambda>f. okd (fn_digest f)) (dir_files dm)"
          "list_all (\<lambda>s. good_tree pb okd (vw s1) n (dn_digest s)) (dir_directories dm)"
          using Suc.prems(3) gl Ok Inr by simp_all
        obtain r2 h2 s2 where e: "and_then (mat_files (st_get st) dir (dir_files dm) (h1, s1)) (\<lambda>_ w.
            and_then (mat_links dir (dir_symlinks dm) w) (\<lambda>_ w. (Ok dm, w))) = (r2, h2, s2)"
          by (metis surj_pair)
        note el = mat_entries_law [OF rd1 _ gt(1,2) e]
        have res: "(case (r2, h2, s2) of
            (Ok d, w) \<Rightarrow> mat_subs pb (st_get st) n dir (dir_directories d) w
          | (Err e, w) \<Rightarrow> Some (Err e, w) | (Panic, w) \<Rightarrow> Some (Panic, w)) = Some (r, h', s')"
          using Suc.prems(4) by (simp add: mkok g Ok Inr e)
        show ?thesis
        proof (cases r2)
          case (Ok dm')
          with el gl obtain es1 es2 where es: "dm' = dm" "real_dir h2 dir es2"
            "fst ` set es2 \<inter> dn_name ` set (dir_directories dm) = {}"
            "spec_files (vw s) (dir_files dm) [] = Some es1" "spec_links (dir_symlinks dm) es1 = Some es2"
            by auto
          have inv2: "inv s2" "vw s2 = vw s" using el gl by simp_all
          have subs: "mat_subs pb (st_get st) n dir (dir_directories dm) (h2, s2) = Some (r, h', s')"
            using res Ok es(1) by simp
          have "vw s1 = vw s" using gl by simp
          with inv2(2) gt(3) have good: "list_all (\<lambda>sub. good_tree pb okd (vw s2) n (dn_digest sub)) (dir_directories dm)"
            by simp
          have dist: "distinct (map dn_name (dir_directories dm))"
            using gt(1) by (simp add: entry_names_def)
          have sl: "inv s' \<and> vw s' = vw s \<and> r \<noteq> Panic \<and> within dir h2 h' \<and>
            (r = Ok () \<longrightarrow> (\<exists>es'. spec_subs pb (vw s) n (dir_directories dm) es2 = Some es' \<and> real_dir h' dir es'))"
            using mat_subs_law [OF Suc.IH es(2) inv2(1) dist es(3) good subs] unfolding inv2(2) .
          moreover have "lookup_blob (vw s) d = Some data" using gl \<open>rg = Ok data\<close> by simp
          moreover have "within dir h h'"
            using w1 el sl gl within_trans by metis
          ultimately show ?thesis
            using Inr es(4,5) by (auto simp: mat_result_def real_dir_def)
        next
          case (Err e)
          with res el gl within_trans [OF w1] show ?thesis by (auto simp: mat_result_def)
        next
          case Panic
          with el gl show ?thesis by simp
        qed
      qed
    next
      case (Err e)
      with Suc.prems(4) gl w1 show ?thesis by (auto simp: mkok g mat_result_def)
    next
      case Panic
      with gl show ?thesis by simp
    qed
  qed
qed

end


subsection \<open>A tree that is there is written\<close>

lemma write_new_no_fault:
  "real_dir h dir es \<Longrightarrow> plain_name x \<Longrightarrow> map_of es x = None \<Longrightarrow> no_fault h \<Longrightarrow>
    os_write_file h (join_path dir x) b e =
      (Ok (), h\<lparr>fs_root := set_node (fs_root h) (dir @ [x]) (File b e)\<rparr>)"
  using write_new by blast

lemma symlink_new_no_fault:
  "real_dir h dir es \<Longrightarrow> plain_name x \<Longrightarrow> map_of es x = None \<Longrightarrow> no_fault h \<Longrightarrow> t \<noteq> '''' \<Longrightarrow>
    os_symlink h t (join_path dir x) =
      (Ok (), h\<lparr>fs_root := set_node (fs_root h) (dir @ [x]) (Link t)\<rparr>)"
  using symlink_new by blast

lemma mat_links_total:
  assumes "real_dir h dir es" "distinct (map sn_name ls)" "fst ` set es \<inter> sn_name ` set ls = {}"
    and "no_fault h" "spec_links ls es \<noteq> None"
  shows "\<exists>h'. mat_links dir ls (h, s) = (Ok (), h', s)"
  using assms
proof (induction ls arbitrary: h es)
  case (Cons l ls)
  let ?es1 = "put_entry (sn_name l) (Link (sn_target l)) es"
  have p: "plain_name (sn_name l)" "sn_target l \<noteq> ''''" "spec_links ls ?es1 \<noteq> None"
    using Cons.prems(5) by (auto split: if_splits)
  have fresh: "map_of es (sn_name l) = None"
    using Cons.prems(3) by (auto simp: map_of_eq_None_iff)
  have "fst ` set ?es1 \<inter> sn_name ` set ls = {}" using Cons.prems(2,3) by (auto simp: fst_put_entry)
  from Cons.IH [OF real_dir_put [OF Cons.prems(1)] _ this _ p(3)] Cons.prems(2,4) p(1)
  show ?case
    by (simp add: symlink_new_no_fault [OF Cons.prems(1) p(1) fresh Cons.prems(4) p(2)] check_name_iff)
qed simp

context reliable_store
begin

lemma mat_files_total:
  assumes "real_dir h dir es" "inv s" "distinct (map fn_name fs)"
    and "fst ` set es \<inter> fn_name ` set fs = {}" "list_all (\<lambda>f. okd (fn_digest f)) fs"
    and "no_fault h" "spec_files (vw s) fs es \<noteq> None"
  shows "\<exists>h' s'. mat_files (st_get st) dir fs (h, s) = (Ok (), h', s')"
  using assms
proof (induction fs arbitrary: h s es)
  case (Cons f fs)
  obtain b where p: "plain_name (fn_name f)" "lookup_blob (vw s) (fn_digest f) = Some b"
    "spec_files (vw s) fs (put_entry (fn_name f) (File b (fn_exec f)) es) \<noteq> None"
    using Cons.prems(7) by (auto split: if_splits option.splits)
  have okd: "okd (fn_digest f)" using Cons.prems(5) by simp
  obtain s1 where g: "st_get st s (fn_digest f) = (Ok b, s1)"
    using get_iff_present [OF Cons.prems(2) okd] p(2) by (cases "st_get st s (fn_digest f)") auto
  have s1: "inv s1" "vw s1 = vw s" using get_law [OF Cons.prems(2) okd g] by simp_all
  have fresh: "map_of es (fn_name f) = None"
    using Cons.prems(4) by (auto simp: map_of_eq_None_iff)
  have "fst ` set (put_entry (fn_name f) (File b (fn_exec f)) es) \<inter> fn_name ` set fs = {}"
    using Cons.prems(3,4) by (auto simp: fst_put_entry)
  from Cons.IH [OF real_dir_put [OF Cons.prems(1)] s1(1) _ this] Cons.prems(3,5,6) p(1,3) s1(2)
  show ?case
    by (simp add: write_new_no_fault [OF Cons.prems(1) p(1) fresh Cons.prems(6)] check_name_iff g)
qed simp

lemma mat_subs_total:
  assumes IH: "\<And>d dir h s. fresh_place h dir \<Longrightarrow> inv s \<Longrightarrow> good_tree pb okd (vw s) n d \<Longrightarrow> no_fault h \<Longrightarrow>
      spec_tree pb (vw s) n d \<noteq> None \<Longrightarrow> \<exists>w. materialize pb (st_get st) n d dir (h, s) = Some (Ok (), w)"
    and "real_dir h dir es" "inv s" "distinct (map dn_name subs)" "fst ` set es \<inter> dn_name ` set subs = {}"
    and "list_all (\<lambda>sub. good_tree pb okd (vw s) n (dn_digest sub)) subs"
    and "no_fault h" "spec_subs pb (vw s) n subs es \<noteq> None"
  shows "\<exists>w. mat_subs pb (st_get st) n dir subs (h, s) = Some (Ok (), w)"
  using assms(2-)
proof (induction subs arbitrary: h s es)
  case (Cons sub subs)
  let ?x = "dn_name sub"
  obtain t where p: "plain_name ?x" "spec_tree pb (vw s) n (dn_digest sub) = Some t"
    "spec_subs pb (vw s) n subs (put_entry ?x t es) \<noteq> None"
    using Cons.prems(7) by (auto split: if_splits option.splits)
  have fresh: "map_of es ?x = None" using Cons.prems(4) by (auto simp: map_of_eq_None_iff)
  then have place: "fresh_place h (dir @ [?x])" using Cons.prems(1) p(1) by (auto simp: fresh_place_def)
  have good: "good_tree pb okd (vw s) n (dn_digest sub)" using Cons.prems(5) by simp
  obtain h1 s1 where m: "materialize pb (st_get st) n (dn_digest sub) (dir @ [?x]) (h, s) = Some (Ok (), h1, s1)"
    using IH [OF place Cons.prems(2) good Cons.prems(6)] p(2) by auto
  have law: "inv s1" "vw s1 = vw s" "within (dir @ [?x]) h h1" "node_at (fs_root h1) (dir @ [?x]) = Some t"
    using materialize_law [OF place Cons.prems(2) good m] p(2) by (auto simp: mat_result_def)
  have "h1 \<noteq> h"
    using law(4) fresh node_at_snoc [of "fs_root h" dir es ?x] Cons.prems(1) by (auto simp: real_dir_def)
  then obtain c where "real_dir h1 dir (put_entry ?x c es)"
    using within_below [OF Cons.prems(1) law(3)] by blast
  then have rd: "real_dir h1 dir (put_entry ?x t es)"
    using law(4) node_at_snoc [of "fs_root h1" dir "put_entry ?x c es" ?x] by (simp add: real_dir_def)
  have dis: "fst ` set (put_entry ?x t es) \<inter> dn_name ` set subs = {}"
    using Cons.prems(3,4) by (auto simp: fst_put_entry)
  have nf: "no_fault h1" using within_no_fault [OF law(3)] Cons.prems(6) by simp
  have "join_path dir ?x = dir @ [?x]" using Cons.prems(1) p(1) by (simp add: join_plain real_dir_def)
  then show ?case
    using Cons.IH [OF rd law(1) _ dis _ nf] Cons.prems(3,5) p(1,3) law(2) m by (simp add: check_name_iff)
qed simp

lemma materialize_total:
  assumes "fresh_place h dir" "inv s" "good_tree pb okd (vw s) n d" "no_fault h"
    and "spec_tree pb (vw s) n d \<noteq> None"
  shows "\<exists>w. materialize pb (st_get st) n d dir (h, s) = Some (Ok (), w)"
  using assms
proof (induction n arbitrary: d dir h s)
  case 0
  then show ?case by simp
next
  case (Suc n)
  obtain data dm es1 es2 where sp: "lookup_blob (vw s) d = Some data" "unmarshal_dir pb data = Inr dm"
    "spec_files (vw s) (dir_files dm) [] = Some es1" "spec_links (dir_symlinks dm) es1 = Some es2"
    "spec_subs pb (vw s) n (dir_directories dm) es2 \<noteq> None"
    using Suc.prems(5) by (auto split: option.splits sum.splits)
  obtain h1 where mk: "os_mkdir_all h dir = (Ok (), h1)" "real_dir h1 dir []" "within dir h h1"
    using mkdir_fresh [OF Suc.prems(1)] Suc.prems(4) by auto
  have nf1: "no_fault h1" using within_no_fault [OF mk(3)] Suc.prems(4) by simp
  have okd: "okd d" using Suc.prems(3) by simp
  obtain s1 where g: "st_get st s d = (Ok data, s1)"
    using get_iff_present [OF Suc.prems(2) okd] sp(1) by (cases "st_get st s d") auto
  have s1: "inv s1" "vw s1 = vw s" using get_law [OF Suc.prems(2) okd g] by simp_all
  have gt: "distinct (entry_names dm)" "list_all (\<lambda>f. okd (fn_digest f)) (dir_files dm)"
    "list_all (\<lambda>s. good_tree pb okd (vw s1) n (dn_digest s)) (dir_directories dm)"
    using Suc.prems(3) sp(1,2) s1(2) by simp_all
  obtain h2 s2 where f: "mat_files (st_get st) dir (dir_files dm) (h1, s1) = (Ok (), h2, s2)"
    using mat_files_total [OF mk(2) s1(1) _ _ gt(2) nf1] gt(1) sp(3) s1(2) by (auto simp: entry_names_def)
  have dist: "distinct (map fn_name (dir_files dm))" using gt(1) by (simp add: entry_names_def)
  obtain fl: "inv s2" "vw s2 = vw s1" "within dir h1 h2" "real_dir h2 dir es1"
      "fst ` set es1 \<subseteq> fn_name ` set (dir_files dm)"
    using mat_files_law [OF mk(2) s1(1) dist _ gt(2) f] sp(3) s1(2) by auto
  have nf2: "no_fault h2" using within_no_fault [OF fl(3)] nf1 by simp
  have "fn_name ` set (dir_files dm) \<inter> sn_name ` set (dir_symlinks dm) = {}"
    using gt(1) by (auto simp: entry_names_def)
  with Int_mono [OF fl(5) order_refl [of "sn_name ` set (dir_symlinks dm)"]]
  have ld: "fst ` set es1 \<inter> sn_name ` set (dir_symlinks dm) = {}" by simp
  have dl: "distinct (map sn_name (dir_symlinks dm))" using gt(1) by (simp add: entry_names_def)
  have "spec_links (dir_symlinks dm) es1 \<noteq> None" using sp(4) by simp
  from mat_links_total [OF fl(4) dl ld nf2 this, of s2]
  obtain h3 where l: "mat_links dir (dir_symlinks dm) (h2, s2) = (Ok (), h3, s2)" ..
  have e: "and_then (mat_files (st_get st) dir (dir_files dm) (h1, s1)) (\<lambda>_ w.
      and_then (mat_links dir (dir_symlinks dm) w) (\<lambda>_ w. (Ok dm, w))) = (Ok dm, h3, s2)"
    by (simp add: f l)
  have el: "within dir h1 h3" "real_dir h3 dir es2" "fst ` set es2 \<inter> dn_name ` set (dir_directories dm) = {}"
    using mat_entries_law [OF mk(2) s1(1) gt(1,2) e] sp(3,4) s1(2) by auto
  have nf3: "no_fault h3" using within_no_fault [OF el(1)] nf1 by simp
  have dd: "distinct (map dn_name (dir_directories dm))" using gt(1) by (simp add: entry_names_def)
  have v2: "vw s2 = vw s" using fl(2) s1(2) by simp
  have good: "list_all (\<lambda>s. good_tree pb okd (vw s2) n (dn_digest s)) (dir_directories dm)"
    using gt(3) fl(2) by simp
  have sp2: "spec_subs pb (vw s2) n (dir_directories dm) es2 \<noteq> None" unfolding v2 by (rule sp(5))
  have "\<exists>w. mat_subs pb (st_get st) n dir (dir_directories dm) (h3, s2) = Some (Ok (), w)"
    by (rule mat_subs_total [OF _ el(2) fl(1) dd el(3) good nf3 sp2]) (rule Suc.IH)
  then show ?case by (simp add: mk g sp(2) f l)
qed

end

end
