(* ===== verification/CasCapture.thy ===== *)
theory CasCapture
  imports CasTree
begin

text \<open>
  \<^verbatim>\<open>CaptureDirectory\<close>: the messages and blobs it makes of a tree as reference functions on the tree,
  the refinement of the code to them, and the round trip with \<^verbatim>\<open>Materialize\<close>.
\<close>

subsection \<open>Reference functions\<close>

definition dir_bytes :: "codec \<Rightarrow> directory \<Rightarrow> bytes" where
  "dir_bytes pb d = (case marshal_dir pb d of Inr b \<Rightarrow> b | Inl e \<Rightarrow> [])"

fun node_dir :: "codec \<Rightarrow> node \<Rightarrow> directory" and entries_dir :: "codec \<Rightarrow> entries \<Rightarrow> directory" where
  "node_dir pb (File b e) = empty_directory"
| "node_dir pb (Link t) = empty_directory"
| "node_dir pb (Dir es) = entries_dir pb es"
| "entries_dir pb [] = empty_directory"
| "entries_dir pb ((x, c) # es) =
     (let d = entries_dir pb es
      in case c of
           File b e \<Rightarrow>
             d\<lparr>dir_files := \<lparr>fn_name = x, fn_digest = Some (from_bytes b), fn_exec = e\<rparr> # dir_files d\<rparr>
         | Link t \<Rightarrow> d\<lparr>dir_symlinks := \<lparr>sn_name = x, sn_target = t\<rparr> # dir_symlinks d\<rparr>
         | Dir es' \<Rightarrow>
             d\<lparr>dir_directories :=
                 \<lparr>dn_name = x, dn_digest = Some (from_bytes (dir_bytes pb (node_dir pb c)))\<rparr> # dir_directories d\<rparr>)"

text \<open>The blobs of a tree in the order they are uploaded, and the directories below its root.\<close>

fun node_blobs :: "codec \<Rightarrow> node \<Rightarrow> bytes list" and entries_blobs :: "codec \<Rightarrow> entries \<Rightarrow> bytes list" where
  "node_blobs pb (File b e) = [b]"
| "node_blobs pb (Link t) = []"
| "node_blobs pb (Dir es) = entries_blobs pb es @ [dir_bytes pb (entries_dir pb es)]"
| "entries_blobs pb [] = []"
| "entries_blobs pb ((x, c) # es) = node_blobs pb c @ entries_blobs pb es"

fun node_desc :: "codec \<Rightarrow> node \<Rightarrow> directory list" and entries_desc :: "codec \<Rightarrow> entries \<Rightarrow> directory list" where
  "node_desc pb (File b e) = []"
| "node_desc pb (Link t) = []"
| "node_desc pb (Dir es) = entries_desc pb es"
| "entries_desc pb [] = []"
| "entries_desc pb ((x, c) # es) =
     (if is_dir c then node_dir pb c # node_desc pb c else []) @ entries_desc pb es"

text \<open>The messages of a tree marshal, and to bytes that unmarshal to them.\<close>

definition dir_roundtrip :: "codec \<Rightarrow> directory \<Rightarrow> bool" where
  "dir_roundtrip pb d \<longleftrightarrow> (\<exists>b. marshal_dir pb d = Inr b \<and> unmarshal_dir pb b = Inr d)"

definition put_blobs :: "view \<Rightarrow> bytes list \<Rightarrow> view" where
  "put_blobs v bs = foldl (\<lambda>v b. put_blob v (Some (from_bytes b)) b) v bs"

lemma put_blobs_simps [simp]:
  "put_blobs v [] = v" "put_blobs v (b # bs) = put_blobs (put_blob v (Some (from_bytes b)) b) bs"
  "put_blobs v (bs @ cs) = put_blobs (put_blobs v bs) cs"
  by (simp_all add: put_blobs_def)

definition append_dir :: "directory \<Rightarrow> directory \<Rightarrow> directory" where
  "append_dir a b =
     \<lparr>dir_files = dir_files a @ dir_files b, dir_directories = dir_directories a @ dir_directories b,
      dir_symlinks = dir_symlinks a @ dir_symlinks b\<rparr>"

lemma append_dir_empty [simp]: "append_dir empty_directory d = d" "append_dir d empty_directory = d"
  by (simp_all add: append_dir_def empty_directory_def)

lemma entries_names:
  "map fn_name (dir_files (entries_dir pb es)) = map fst (filter (\<lambda>(x, c). \<not> is_link c \<and> \<not> is_dir c) es)"
  "map sn_name (dir_symlinks (entries_dir pb es)) = map fst (filter (\<lambda>(x, c). is_link c) es)"
  "map dn_name (dir_directories (entries_dir pb es)) = map fst (filter (\<lambda>(x, c). is_dir c) es)"
  by (induction es) (simp_all add: empty_directory_def Let_def split: prod.split node.split)

lemma sort_dir_sorted:
  fixes es :: entries
  assumes "sorted_wrt (<) (map fst es)"
  shows "sort_dir (entries_dir pb es) = entries_dir pb es"
proof -
  have "sorted (map fst es)" using assms by (simp only: strict_sorted_iff)
  then have "sorted (map fst (filter P es))" for P by (rule sorted_filter)
  then show ?thesis by (simp add: sort_dir_def sort_key_id_if_sorted entries_names)
qed


subsection \<open>Refinement\<close>

definition small_blobs :: "codec \<Rightarrow> node \<Rightarrow> bool" where
  "small_blobs pb c \<longleftrightarrow> (\<forall>b \<in> set (node_blobs pb c). length b < 2 ^ 63)"

definition marshals :: "codec \<Rightarrow> directory list \<Rightarrow> bool" where
  "marshals pb ds \<longleftrightarrow> list_all (\<lambda>d. \<exists>b. marshal_dir pb d = Inr b) ds"

lemma stat_known:
  "real_dir h p full \<Longrightarrow> plain_name x \<Longrightarrow> map_of full x = Some c \<Longrightarrow> \<not> (fl \<and> is_link c) \<Longrightarrow>
    os_stat h fl call (p @ [x]) = (case fs_fault h call (p @ [x]) of Some e \<Rightarrow> Err e | None \<Rightarrow> Ok c)"
  by (subst stat_entry) (auto split: option.split)

context blob_store
begin

text \<open>
  What capturing a tree does: \<open>q\<close> says that nothing can go wrong outside the program.
\<close>

definition captured :: "bool \<Rightarrow> node \<Rightarrow> 's \<Rightarrow> (directory \<times> digest_ptr \<times> directory list) res \<Rightarrow> 's \<Rightarrow> bool" where
  "captured q c s r s' \<longleftrightarrow>
     inv s' \<and> r \<noteq> Panic \<and> (content_addressed (vw s) \<longrightarrow> content_addressed (vw s')) \<and>
     (\<forall>x. r = Ok x \<longrightarrow>
        x = (node_dir pb c, Some (from_bytes (dir_bytes pb (node_dir pb c))), node_desc pb c) \<and>
        vw s' = put_blobs (vw s) (node_blobs pb c)) \<and>
     (q \<longrightarrow> is_ok r)"

lemma put_from_bytes:
  assumes "inv s" "length b < 2 ^ 63" "st_put st s (Some (from_bytes b)) b = (r, s')"
  shows "inv s' \<and> r \<noteq> Panic \<and> (content_addressed (vw s) \<longrightarrow> content_addressed (vw s')) \<and>
    (\<forall>u. r = Ok u \<longrightarrow> vw s' = put_blob (vw s) (Some (from_bytes b)) b)"
proof -
  have okd: "okd (Some (from_bytes b))" using assms(2) by (intro valid_okd validate_from_bytes_lemma)
  show ?thesis
    using put_law [OF assms(1) okd assms(3)] put_content_addressed [OF assms(1) okd _ _ assms(3)] by simp
qed

lemma finish_directory_law:
  assumes "inv s" "sorted_wrt (<) (map fst es)" "length (dir_bytes pb (entries_dir pb es)) < 2 ^ 63"
    and "q \<Longrightarrow> marshals pb [entries_dir pb es]"
    and total: "\<And>s b. q \<Longrightarrow> inv s \<Longrightarrow> length b < 2 ^ 63 \<Longrightarrow> fst (st_put st s (Some (from_bytes b)) b) = Ok ()"
    and "finish_directory pb (st_put st) (entries_dir pb es) ds s = (r, s')"
  shows "inv s' \<and> r \<noteq> Panic \<and> (content_addressed (vw s) \<longrightarrow> content_addressed (vw s')) \<and>
    (\<forall>x. r = Ok x \<longrightarrow> x = (entries_dir pb es, Some (from_bytes (dir_bytes pb (entries_dir pb es))), ds) \<and>
       vw s' = put_blobs (vw s) [dir_bytes pb (entries_dir pb es)]) \<and> (q \<longrightarrow> is_ok r)"
proof (cases "marshal_dir pb (entries_dir pb es)")
  case (Inl e)
  with assms show ?thesis
    by (auto simp: finish_directory_def sort_dir_sorted Let_def marshals_def)
next
  case (Inr b)
  then have b: "dir_bytes pb (entries_dir pb es) = b" by (simp add: dir_bytes_def)
  obtain ru s1 where put: "st_put st s (Some (from_bytes b)) b = (ru, s1)" by fastforce
  have small: "length b < 2 ^ 63" using assms(3) b by simp
  note law = put_from_bytes [OF assms(1) small put]
  have res: "and_then (ru, s1) (\<lambda>_ s. (Ok (entries_dir pb es, Some (from_bytes b), ds), s)) = (r, s')"
    using assms(6) Inr put by (simp add: finish_directory_def sort_dir_sorted [OF assms(2)] Let_def)
  have "q \<Longrightarrow> ru = Ok ()" using total [OF _ assms(1) small] put by simp
  with res law b show ?thesis by (cases ru) auto
qed

lemma append_dir_step [simp]:
  "append_dir (d\<lparr>dir_files := dir_files d @ [f]\<rparr>) e = append_dir d (e\<lparr>dir_files := f # dir_files e\<rparr>)"
  "append_dir (d\<lparr>dir_symlinks := dir_symlinks d @ [l]\<rparr>) e = append_dir d (e\<lparr>dir_symlinks := l # dir_symlinks e\<rparr>)"
  "append_dir (d\<lparr>dir_directories := dir_directories d @ [s]\<rparr>) e =
     append_dir d (e\<lparr>dir_directories := s # dir_directories e\<rparr>)"
  by (simp_all add: append_dir_def)

definition entries_captured ::
    "bool \<Rightarrow> entries \<Rightarrow> directory \<Rightarrow> directory list \<Rightarrow> 's \<Rightarrow> (directory \<times> directory list) res \<Rightarrow> 's \<Rightarrow> bool" where
  "entries_captured q es dir desc s r s' \<longleftrightarrow>
     inv s' \<and> r \<noteq> Panic \<and> (content_addressed (vw s) \<longrightarrow> content_addressed (vw s')) \<and>
     (\<forall>x. r = Ok x \<longrightarrow>
        x = (append_dir dir (entries_dir pb es), desc @ entries_desc pb es) \<and>
        vw s' = put_blobs (vw s) (entries_blobs pb es)) \<and>
     (q \<longrightarrow> is_ok r)"

lemma entries_captured_Cons:
  assumes "entries_captured q es dir' desc' s1 r s'"
    and "content_addressed (vw s) \<longrightarrow> content_addressed (vw s1)"
    and "vw s1 = put_blobs (vw s) (node_blobs pb c)"
    and "append_dir dir' (entries_dir pb es) = append_dir dir (entries_dir pb ((x, c) # es))"
    and "desc' = desc @ (if is_dir c then node_dir pb c # node_desc pb c else [])"
  shows "entries_captured q ((x, c) # es) dir desc s r s'"
  using assms by (auto simp: entries_captured_def)

lemma build_entries_law:
  assumes IH: "\<And>p es s. real_dir h p es \<Longrightarrow> inv s \<Longrightarrow> wf_node (Dir es) \<Longrightarrow> depth (Dir es) \<le> n \<Longrightarrow>
      small_blobs pb (Dir es) \<Longrightarrow> (q \<Longrightarrow> marshals pb (node_dir pb (Dir es) # node_desc pb (Dir es))) \<Longrightarrow>
      \<exists>r s'. build_directory pb (st_put st) h n p s = Some (r, s') \<and> captured q (Dir es) s r s'"
    and total: "\<And>s b. q \<Longrightarrow> inv s \<Longrightarrow> length b < 2 ^ 63 \<Longrightarrow> fst (st_put st s (Some (from_bytes b)) b) = Ok ()"
    and nf: "q \<Longrightarrow> no_fault h"
    and full: "real_dir h p full"
    and "list_all (\<lambda>(x, c). plain_name x \<and> map_of full x = Some c \<and> wf_node c \<and> depth c \<le> n) es"
    and "inv s" "\<forall>b \<in> set (entries_blobs pb es). length b < 2 ^ 63" "q \<Longrightarrow> marshals pb (entries_desc pb es)"
  shows "\<exists>r s'. build_entries pb (st_put st) h n p es dir desc s = Some (r, s') \<and>
    entries_captured q es dir desc s r s'"
  using assms(5-)
proof (induction es arbitrary: dir desc s)
  case Nil
  then show ?case by (simp add: entries_captured_def)
next
  case (Cons entry es)
  obtain x c where e: "entry = (x, c)" by fastforce
  have xc: "plain_name x" "map_of full x = Some c" "wf_node c" "depth c \<le> n"
    using Cons.prems(1) e by simp_all
  have join: "join_path p x = p @ [x]" using full xc(1) by (simp add: join_plain real_dir_def)
  have rest: "list_all (\<lambda>(x, c). plain_name x \<and> map_of full x = Some c \<and> wf_node c \<and> depth c \<le> n) es"
    "\<forall>b \<in> set (entries_blobs pb es). length b < 2 ^ 63" "q \<Longrightarrow> marshals pb (entries_desc pb es)"
    using Cons.prems e by (auto simp: marshals_def)
  note stat = stat_known [OF full xc(1,2)]
  show ?case
  proof (cases "fs_fault h ''lstat'' (p @ [x])")
    case (Some er)
    have "\<not> q" using nf Some by auto
    then show ?thesis
      using Cons.prems(2) by (simp add: e join os_lstat_def stat Some entries_captured_def Let_def)
  next
    case None
    then have ls: "os_lstat h (p @ [x]) = Ok c" by (simp add: os_lstat_def stat)
    show ?thesis
    proof (cases c)
      case (Link t)
      show ?thesis
      proof (cases "fs_fault h ''readlink'' (p @ [x])")
        case (Some er)
        have "\<not> q" using nf Some by auto
        then show ?thesis
          using Cons.prems(2) Link
          by (simp add: e join ls os_readlink_def stat Some entries_captured_def Let_def)
      next
        case None
        then have rl: "os_readlink h (p @ [x]) = Ok t" using Link by (simp add: os_readlink_def stat)
        let ?dir = "dir\<lparr>dir_symlinks := dir_symlinks dir @ [\<lparr>sn_name = x, sn_target = t\<rparr>]\<rparr>"
        obtain r s' where b: "build_entries pb (st_put st) h n p es ?dir desc s = Some (r, s')"
          "entries_captured q es ?dir desc s r s'"
          using Cons.IH [OF rest(1) Cons.prems(2) rest(2,3)] by blast
        have "entries_captured q ((x, c) # es) dir desc s r s'"
          by (rule entries_captured_Cons [OF b(2)]) (simp_all add: Link Let_def)
        with b(1) show ?thesis by (simp add: e join ls rl Link Let_def)
      qed
    next
      case (File bs ex)
      show ?thesis
      proof (cases "fs_fault h ''read'' (p @ [x])")
        case (Some er)
        have "\<not> q" using nf Some by auto
        then show ?thesis
          using Cons.prems(2) File
          by (simp add: e join ls os_read_file_def stat Some entries_captured_def Let_def)
      next
        case None
        then have rf: "os_read_file h (p @ [x]) = Ok bs" using File by (simp add: os_read_file_def stat)
        obtain ru s1 where put: "st_put st s (Some (from_bytes bs)) bs = (ru, s1)" by fastforce
        have small: "length bs < 2 ^ 63" using Cons.prems(3) e File by simp
        note law = put_from_bytes [OF Cons.prems(2) small put]
        show ?thesis
        proof (cases ru)
          case (Ok u)
          let ?dir = "dir\<lparr>dir_files := dir_files dir @
            [\<lparr>fn_name = x, fn_digest = Some (from_bytes bs), fn_exec = ex\<rparr>]\<rparr>"
          have "inv s1" using law by simp
          then obtain r s' where b: "build_entries pb (st_put st) h n p es ?dir desc s1 = Some (r, s')"
            "entries_captured q es ?dir desc s1 r s'"
            using Cons.IH [OF rest(1) _ rest(2,3)] by blast
          have "entries_captured q ((x, c) # es) dir desc s r s'"
            using law Ok by (intro entries_captured_Cons [OF b(2)]) (auto simp: File Let_def)
          with b(1) Ok put show ?thesis by (simp add: e join ls rf File Let_def)
        next
          case (Err er)
          have "\<not> q" using total [OF _ Cons.prems(2) small] put Err by auto
          with Err put law File show ?thesis
            by (auto simp: e join ls rf entries_captured_def Let_def)
        next
          case Panic
          with law show ?thesis by simp
        qed
      qed
    next
      case (Dir des)
      have rd: "real_dir h (p @ [x]) des"
        using full xc(1,2) Dir node_at_snoc [of "fs_root h" p full x] by (simp add: real_dir_def)
      have "small_blobs pb (Dir des)" using Cons.prems(3) e Dir by (auto simp: small_blobs_def)
      moreover have "q \<Longrightarrow> marshals pb (node_dir pb (Dir des) # node_desc pb (Dir des))"
        using Cons.prems(4) e Dir by (simp add: marshals_def)
      ultimately obtain r1 s1 where b1: "build_directory pb (st_put st) h n (p @ [x]) s = Some (r1, s1)"
        "captured q (Dir des) s r1 s1"
        using IH [OF rd Cons.prems(2)] xc(3,4) Dir by blast
      show ?thesis
      proof (cases r1)
        case (Ok y)
        have y: "y = (node_dir pb c, Some (from_bytes (dir_bytes pb (node_dir pb c))), node_desc pb c)"
          "inv s1" "content_addressed (vw s) \<longrightarrow> content_addressed (vw s1)"
          "vw s1 = put_blobs (vw s) (node_blobs pb c)"
          using b1(2) Ok Dir by (auto simp: captured_def)
        let ?dir = "dir\<lparr>dir_directories := dir_directories dir @
          [\<lparr>dn_name = x, dn_digest = Some (from_bytes (dir_bytes pb (node_dir pb c)))\<rparr>]\<rparr>"
        let ?desc = "desc @ [node_dir pb c] @ node_desc pb c"
        obtain r s' where b: "build_entries pb (st_put st) h n p es ?dir ?desc s1 = Some (r, s')"
          "entries_captured q es ?dir ?desc s1 r s'"
          using Cons.IH [OF rest(1) y(2) rest(2,3)] by blast
        have "entries_captured q ((x, c) # es) dir desc s r s'"
          using y(3,4) by (intro entries_captured_Cons [OF b(2)]) (simp_all add: Dir Let_def)
        with b(1) b1(1) Ok y(1) show ?thesis by (simp add: e join ls Dir Let_def)
      next
        case (Err er)
        with b1 show ?thesis by (auto simp: e join ls Dir captured_def entries_captured_def Let_def)
      next
        case Panic
        with b1(2) show ?thesis by (simp add: captured_def)
      qed
    qed
  qed
qed

lemma build_directory_law:
  assumes total: "\<And>s b. q \<Longrightarrow> inv s \<Longrightarrow> length b < 2 ^ 63 \<Longrightarrow> fst (st_put st s (Some (from_bytes b)) b) = Ok ()"
    and nf: "q \<Longrightarrow> no_fault h"
    and "real_dir h p es" "inv s" "wf_node (Dir es)" "depth (Dir es) \<le> n" "small_blobs pb (Dir es)"
    and "q \<Longrightarrow> marshals pb (node_dir pb (Dir es) # node_desc pb (Dir es))"
  shows "\<exists>r s'. build_directory pb (st_put st) h n p s = Some (r, s') \<and> captured q (Dir es) s r s'"
  using assms(3-)
proof (induction n arbitrary: p es s)
  case 0
  then show ?case by simp
next
  case (Suc n)
  have sorted: "sorted_wrt (<) (map fst es)" using Suc.prems(3) by simp
  then have dist: "distinct (map fst es)" using strict_sorted_iff by blast
  have entries: "list_all (\<lambda>(x, c). plain_name x \<and> map_of es x = Some c \<and> wf_node c \<and> depth c \<le> n) es"
    using Suc.prems(3,4) dist depth_entry [of _ _ es] by (fastforce simp: list_all_iff)
  have blobs: "\<forall>b \<in> set (entries_blobs pb es). length b < 2 ^ 63"
    "length (dir_bytes pb (entries_dir pb es)) < 2 ^ 63"
    using Suc.prems(5) by (auto simp: small_blobs_def)
  have ms: "q \<Longrightarrow> marshals pb (entries_desc pb es)" "q \<Longrightarrow> marshals pb [entries_dir pb es]"
    using Suc.prems(6) by (simp_all add: marshals_def)
  show ?case
  proof (cases "fs_fault h ''readdir'' p")
    case (Some er)
    have "\<not> q" using nf Some by auto
    then show ?thesis
      using Suc.prems(2) by (simp add: os_read_dir_def stat_self [OF Suc.prems(1)] Some captured_def)
  next
    case None
    then have rd: "os_read_dir h p = Ok es" by (simp add: os_read_dir_def stat_self [OF Suc.prems(1)])
    obtain r1 s1 where b: "build_entries pb (st_put st) h n p es empty_directory [] s = Some (r1, s1)"
      "entries_captured q es empty_directory [] s r1 s1"
      using build_entries_law [OF Suc.IH total nf Suc.prems(1) entries Suc.prems(2) blobs(1) ms(1)] by blast
    show ?thesis
    proof (cases r1)
      case (Ok y)
      have y: "y = (entries_dir pb es, entries_desc pb es)" "inv s1"
        "content_addressed (vw s) \<longrightarrow> content_addressed (vw s1)" "vw s1 = put_blobs (vw s) (entries_blobs pb es)"
        using b(2) Ok by (auto simp: entries_captured_def)
      obtain r s' where f: "finish_directory pb (st_put st) (entries_dir pb es) (entries_desc pb es) s1 = (r, s')"
        by fastforce
      from finish_directory_law [OF y(2) sorted blobs(2) ms(2) total f] y(3,4)
      have "captured q (Dir es) s r s'" by (auto simp: captured_def)
      with b(1) Ok y(1) f rd show ?thesis by simp
    next
      case (Err er)
      with b rd show ?thesis by (auto simp: captured_def entries_captured_def)
    next
      case Panic
      with b(2) show ?thesis by (simp add: entries_captured_def)
    qed
  qed
qed

end


subsection \<open>The captured blobs denote the tree\<close>

definition put_all :: "entries \<Rightarrow> entries \<Rightarrow> entries" where
  "put_all acc es = foldl (\<lambda>a (x, c). put_entry x c a) acc es"

lemma put_all_simps [simp]:
  "put_all acc [] = acc" "put_all acc ((x, c) # es) = put_all (put_entry x c acc) es"
  "put_all acc (es @ es') = put_all (put_all acc es) es'"
  by (simp_all add: put_all_def)

lemma map_of_put_all:
  "distinct (map fst es) \<Longrightarrow> map_of (put_all acc es) = map_of acc ++ map_of es"
proof (induction es arbitrary: acc)
  case (Cons e es)
  obtain x c where e: "e = (x, c)" by fastforce
  have "map_of es x = None" using Cons.prems e by (simp add: map_of_eq_None_iff)
  with Cons e show ?case by (auto simp: fun_eq_iff map_add_def split: option.split)
qed simp

lemma sorted_put_all:
  "sorted_wrt (<) (map fst acc) \<Longrightarrow> sorted_wrt (<) (map fst (put_all acc es))"
proof (induction es arbitrary: acc)
  case (Cons e es)
  then show ?case by (cases e) (simp add: sorted_put_entry)
qed simp

text \<open>Files, then links, then directories, each inserted in its place, give the sorted entries.\<close>

definition parts :: "entries \<Rightarrow> entries" where
  "parts es = filter (\<lambda>(x, c). \<not> is_link c \<and> \<not> is_dir c) es @ filter (\<lambda>(x, c). is_link c) es @
     filter (\<lambda>(x, c). is_dir c) es"

lemma distinct_parts:
  assumes "distinct (map fst es)"
  shows "distinct (map fst (parts es)) \<and> set (parts es) = set es"
proof -
  have excl: "\<not> (is_link c \<and> is_dir c)" for c by (cases c) auto
  have set: "set (parts es) = set es" by (auto simp: parts_def)
  have inj: "inj_on fst (set es)" "distinct es" using assms by (simp_all add: distinct_map)
  have "distinct (parts es)" using inj(2) excl by (auto simp: parts_def)
  then show ?thesis using inj(1) set by (simp only: distinct_map)
qed

lemma put_all_parts:
  assumes "sorted_wrt (<) (map fst es)"
  shows "put_all [] (parts es) = es"
proof (rule sorted_entries_unique)
  have d: "distinct (map fst es)" using assms strict_sorted_iff by blast
  note dp = distinct_parts [OF d]
  show "map_of (put_all [] (parts es)) = map_of es"
    using map_of_inject_set [of "parts es" es] dp d by (simp add: map_of_put_all)
  show "sorted_wrt (<) (map fst (put_all [] (parts es)))" by (rule sorted_put_all) simp
  show "sorted_wrt (<) (map fst es)" by (rule assms)
qed

lemma entry_names_captured:
  assumes "sorted_wrt (<) (map fst es)"
  shows "distinct (entry_names (entries_dir pb es))"
proof -
  have "entry_names (entries_dir pb es) = map fst (parts es)"
    by (simp add: entry_names_def entries_names parts_def)
  moreover have "distinct (map fst es)" using assms strict_sorted_iff by blast
  ultimately show ?thesis using distinct_parts by simp
qed

definition holds_blobs :: "view \<Rightarrow> bytes list \<Rightarrow> bool" where
  "holds_blobs v bs \<longleftrightarrow> (\<forall>b \<in> set bs. lookup_blob v (Some (from_bytes b)) = Some b)"

lemma spec_files_entries:
  assumes "list_all (\<lambda>(x, c). plain_name x) es" "holds_blobs v (entries_blobs pb es)"
  shows "spec_files v (dir_files (entries_dir pb es)) acc =
    Some (put_all acc (filter (\<lambda>(x, c). \<not> is_link c \<and> \<not> is_dir c) es))"
  using assms
proof (induction es arbitrary: acc)
  case (Cons e es)
  then show ?case
    by (cases e; cases "snd e") (auto simp: holds_blobs_def Let_def)
qed (simp add: empty_directory_def)

lemma spec_links_entries:
  assumes "list_all (\<lambda>(x, c). plain_name x \<and> wf_node c) es"
  shows "spec_links (dir_symlinks (entries_dir pb es)) acc = Some (put_all acc (filter (\<lambda>(x, c). is_link c) es))"
  using assms
proof (induction es arbitrary: acc)
  case (Cons e es)
  then show ?case by (cases e; cases "snd e") (auto simp: Let_def)
qed (simp add: empty_directory_def)

lemma spec_subs_entries:
  assumes "list_all (\<lambda>(x, c). plain_name x) es"
    and "\<And>x c. (x, c) \<in> set es \<Longrightarrow> is_dir c \<Longrightarrow>
      spec_tree pb v n (Some (from_bytes (dir_bytes pb (node_dir pb c)))) = Some c"
  shows "spec_subs pb v n (dir_directories (entries_dir pb es)) acc =
    Some (put_all acc (filter (\<lambda>(x, c). is_dir c) es))"
  using assms
proof (induction es arbitrary: acc)
  case (Cons e es)
  obtain x c where e: "e = (x, c)" by fastforce
  have pl: "list_all (\<lambda>(x, c). plain_name x) es" using Cons.prems(1) by simp
  have below: "spec_tree pb v n (Some (from_bytes (dir_bytes pb (node_dir pb d)))) = Some d"
    if "(y, d) \<in> set es" "is_dir d" for y d
    using Cons.prems(2) [of y d] that by simp
  show ?case
  proof (cases "is_dir c")
    case True
    then obtain des where d: "c = Dir des" by (cases c) auto
    have "spec_tree pb v n (Some (from_bytes (dir_bytes pb (entries_dir pb des)))) = Some c"
      using Cons.prems(2) [of x c] e d by simp
    moreover have "spec_subs pb v n (dir_directories (entries_dir pb es)) (put_entry x c acc) =
        Some (put_all (put_entry x c acc) (filter (\<lambda>(x, c). is_dir c) es))"
      by (rule Cons.IH [OF pl below])
    ultimately show ?thesis using Cons.prems(1) e d by (simp add: Let_def)
  next
    case False
    have "spec_subs pb v n (dir_directories (entries_dir pb es)) acc =
        Some (put_all acc (filter (\<lambda>(x, c). is_dir c) es))"
      by (rule Cons.IH [OF pl below])
    with False e show ?thesis by (cases c) (simp_all add: Let_def)
  qed
qed (simp add: empty_directory_def)

lemma spec_tree_captured:
  assumes "wf_node (Dir es)" "depth (Dir es) \<le> n" "holds_blobs v (node_blobs pb (Dir es))"
    and "list_all (dir_roundtrip pb) (node_dir pb (Dir es) # node_desc pb (Dir es))"
  shows "spec_tree pb v n (Some (from_bytes (dir_bytes pb (node_dir pb (Dir es))))) = Some (Dir es)"
  using assms
proof (induction n arbitrary: es)
  case 0
  then show ?case by simp
next
  case (Suc n)
  have wf: "list_all (\<lambda>(x, c). plain_name x \<and> wf_node c) es" "sorted_wrt (<) (map fst es)"
    using Suc.prems(1) by simp_all
  have pl: "list_all (\<lambda>(x, c). plain_name x) es" using wf(1) by (auto simp: list_all_iff)
  have hb: "holds_blobs v (entries_blobs pb es)"
    "lookup_blob v (Some (from_bytes (dir_bytes pb (entries_dir pb es)))) = Some (dir_bytes pb (entries_dir pb es))"
    using Suc.prems(3) by (auto simp: holds_blobs_def)
  have um: "unmarshal_dir pb (dir_bytes pb (entries_dir pb es)) = Inr (entries_dir pb es)"
    using Suc.prems(4) by (auto simp: dir_roundtrip_def dir_bytes_def)
  have sub: "set (node_blobs pb c) \<subseteq> set (entries_blobs pb es)" if "(x, c) \<in> set es" for x c es
    using that by (induction es) auto
  have desc: "set (node_dir pb c # node_desc pb c) \<subseteq> set (entries_desc pb es)" if "(x, c) \<in> set es" "is_dir c" for x c es
    using that by (induction es) auto
  have child: "spec_tree pb v n (Some (from_bytes (dir_bytes pb (node_dir pb c)))) = Some c"
    if c: "(x, c) \<in> set es" "is_dir c" for x c
  proof -
    obtain des where d: "c = Dir des" using c(2) by (cases c) auto
    have "wf_node c" "depth c \<le> n"
      using wf(1) c(1) depth_entry [OF c(1)] Suc.prems(2) by (auto simp: list_all_iff)
    moreover have "holds_blobs v (node_blobs pb c)" using sub [OF c(1)] hb(1) by (auto simp: holds_blobs_def)
    moreover have "list_all (dir_roundtrip pb) (node_dir pb c # node_desc pb c)"
      using desc [OF c] Suc.prems(4) unfolding list_all_iff node_desc.simps by auto
    ultimately show ?thesis using Suc.IH [of des] d by simp
  qed
  have "spec_tree pb v (Suc n) (Some (from_bytes (dir_bytes pb (node_dir pb (Dir es))))) =
      Some (Dir (put_all [] (parts es)))"
    using hb(2) um
    by (simp add: spec_files_entries [OF pl hb(1)] spec_links_entries [OF wf(1)] spec_subs_entries [OF pl child]
        parts_def)
  then show ?case by (simp only: put_all_parts [OF wf(2)])
qed

lemma is_empty_from_bytes: "length b < 2 ^ 63 \<Longrightarrow> is_empty (Some (from_bytes b)) \<longleftrightarrow> b = []"
  using from_bytes_valid by blast

lemma put_blobs_lookup:
  assumes "inj_on sha256 (set bs)" "\<forall>b \<in> set bs. length b < 2 ^ 63"
  shows "holds_blobs (put_blobs v bs) bs"
  using assms
proof (induction bs rule: rev_induct)
  case (snoc c bs)
  have small: "length c < 2 ^ 63" using snoc.prems(2) by simp
  have "lookup_blob (put_blob (put_blobs v bs) (Some (from_bytes c)) c) (Some (from_bytes b)) = Some b"
    if b: "b \<in> set (bs @ [c])" for b
  proof (cases "b = c")
    case True
    then show ?thesis using is_empty_from_bytes [OF small] by (simp add: lookup_put_same)
  next
    case False
    have "sha256 b \<noteq> sha256 c" using snoc.prems(1) b False unfolding inj_on_def by fastforce
    then have "get_hash (Some (from_bytes c)) \<noteq> get_hash (Some (from_bytes b))"
      using hex_encode_inject by fastforce
    moreover have "holds_blobs (put_blobs v bs) bs"
      using snoc.prems by (intro snoc.IH) (auto simp: inj_on_def)
    ultimately show ?thesis using b False by (simp add: lookup_put_other holds_blobs_def)
  qed
  then show ?case by (simp add: holds_blobs_def)
qed (simp add: holds_blobs_def)


context blob_store
begin

lemma good_tree_captured:
  assumes "wf_node (Dir es)" "small_blobs pb (Dir es)" "holds_blobs v (node_blobs pb (Dir es))"
    and "list_all (dir_roundtrip pb) (node_dir pb (Dir es) # node_desc pb (Dir es))"
  shows "good_tree pb okd v n (Some (from_bytes (dir_bytes pb (node_dir pb (Dir es)))))"
  using assms
proof (induction n arbitrary: es)
  case 0
  then show ?case by simp
next
  case (Suc n)
  have okd: "okd (Some (from_bytes b))" if "b \<in> set (node_blobs pb (Dir es))" for b
    using Suc.prems(2) that unfolding small_blobs_def by (intro valid_okd validate_from_bytes_lemma) blast
  have um: "unmarshal_dir pb (dir_bytes pb (entries_dir pb es)) = Inr (entries_dir pb es)"
    using Suc.prems(4) by (auto simp: dir_roundtrip_def dir_bytes_def)
  have files: "list_all (\<lambda>f. okd (fn_digest f)) (dir_files (entries_dir pb fs))"
    if "set (entries_blobs pb fs) \<subseteq> set (node_blobs pb (Dir es))" for fs
    using that
  proof (induction fs)
    case (Cons e fs)
    then show ?case using okd by (cases e; cases "snd e") (auto simp: Let_def)
  qed (simp add: empty_directory_def)
  have dirs: "list_all (\<lambda>s. good_tree pb okd v n (dn_digest s)) (dir_directories (entries_dir pb fs))"
    if "list_all (\<lambda>(x, c). wf_node c) fs" "set (entries_blobs pb fs) \<subseteq> set (node_blobs pb (Dir es))"
      "set (entries_desc pb fs) \<subseteq> set (entries_desc pb es)" for fs
    using that
  proof (induction fs)
    case (Cons e fs)
    obtain x c where e: "e = (x, c)" by fastforce
    show ?case
    proof (cases c)
      case (Dir des)
      have sub: "set (node_blobs pb c) \<subseteq> set (node_blobs pb (Dir es))"
        and desc: "set (node_dir pb c # node_desc pb c) \<subseteq> set (entries_desc pb es)"
        using Cons.prems e Dir by auto
      have "small_blobs pb c" "holds_blobs v (node_blobs pb c)"
        using Suc.prems(2,3) sub by (auto simp: small_blobs_def holds_blobs_def)
      moreover have "list_all (dir_roundtrip pb) (node_dir pb c # node_desc pb c)"
        using Suc.prems(4) desc unfolding list_all_iff by auto
      ultimately have "good_tree pb okd v n (Some (from_bytes (dir_bytes pb (node_dir pb c))))"
        using Suc.IH [of des] Cons.prems(1) e Dir by simp
      with Cons e Dir show ?thesis by (simp add: Let_def)
    qed (use Cons e in \<open>simp_all add: Let_def\<close>)
  qed (simp add: empty_directory_def)
  have "lookup_blob v (Some (from_bytes (dir_bytes pb (entries_dir pb es)))) = Some (dir_bytes pb (entries_dir pb es))"
    using Suc.prems(3) by (simp add: holds_blobs_def)
  moreover have wf: "list_all (\<lambda>(x, c). wf_node c) es" using Suc.prems(1) by (auto simp: list_all_iff)
  moreover have sub: "set (entries_blobs pb es) \<subseteq> set (node_blobs pb (Dir es))" by auto
  ultimately show ?case
    using um okd entry_names_captured [of es pb] files [OF sub] dirs [OF wf sub order_refl] Suc.prems(1) by simp
qed

end


context blob_store
begin

lemma capture_directory_law:
  assumes total: "\<And>s b. q \<Longrightarrow> inv s \<Longrightarrow> length b < 2 ^ 63 \<Longrightarrow> fst (st_put st s (Some (from_bytes b)) b) = Ok ()"
    and nf: "q \<Longrightarrow> no_fault h"
    and "real_dir h p es" "inv s" "wf_node (Dir es)" "depth (Dir es) \<le> n" "small_blobs pb (Dir es)"
    and ms: "q \<Longrightarrow> marshals pb (node_dir pb (Dir es) # node_desc pb (Dir es))"
    and small: "\<And>b. marshal_tree pb \<lparr>tree_root = node_dir pb (Dir es), tree_children = node_desc pb (Dir es)\<rparr> = Inr b \<Longrightarrow>
      length b < 2 ^ 63"
  shows "\<exists>r s'. capture_directory pb (st_put st) h n out p s = Some (r, s') \<and> inv s' \<and> r \<noteq> Panic \<and>
    (content_addressed (vw s) \<longrightarrow> content_addressed (vw s')) \<and>
    (\<forall>od. r = Ok od \<longrightarrow>
       (\<exists>tb. marshal_tree pb \<lparr>tree_root = node_dir pb (Dir es), tree_children = node_desc pb (Dir es)\<rparr> = Inr tb \<and>
          od = \<lparr>od_path = out, od_tree_digest = Some (from_bytes tb),
                od_root_digest = Some (from_bytes (dir_bytes pb (node_dir pb (Dir es))))\<rparr> \<and>
          vw s' = put_blobs (vw s) (node_blobs pb (Dir es) @ [tb]))) \<and>
    (q \<and> (\<exists>tb. marshal_tree pb \<lparr>tree_root = node_dir pb (Dir es), tree_children = node_desc pb (Dir es)\<rparr> = Inr tb) \<longrightarrow>
       is_ok r)"
proof -
  let ?t = "\<lparr>tree_root = node_dir pb (Dir es), tree_children = node_desc pb (Dir es)\<rparr>"
  obtain r1 s1 where b: "build_directory pb (st_put st) h n p s = Some (r1, s1)" "captured q (Dir es) s r1 s1"
    using build_directory_law [OF total nf assms(3-7) ms] by blast
  show ?thesis
  proof (cases r1)
    case (Ok y)
    have y: "y = (node_dir pb (Dir es), Some (from_bytes (dir_bytes pb (node_dir pb (Dir es)))), node_desc pb (Dir es))"
      "inv s1" "content_addressed (vw s) \<longrightarrow> content_addressed (vw s1)"
      "vw s1 = put_blobs (vw s) (node_blobs pb (Dir es))"
      using b(2) Ok by (auto simp: captured_def)
    show ?thesis
    proof (cases "marshal_tree pb ?t")
      case (Inl e)
      with b(1) Ok y show ?thesis by (simp add: capture_directory_def del: node_dir.simps node_desc.simps)
    next
      case (Inr tb)
      obtain ru s2 where put: "st_put st s1 (Some (from_bytes tb)) tb = (ru, s2)" by fastforce
      note law = put_from_bytes [OF y(2) small [OF Inr] put]
      have ok: "q \<Longrightarrow> ru = Ok ()" using total [OF _ y(2) small [OF Inr]] put by simp
      have "capture_directory pb (st_put st) h n out p s = Some (and_then (ru, s2) (\<lambda>_ s.
          (Ok \<lparr>od_path = out, od_tree_digest = Some (from_bytes tb),
               od_root_digest = Some (from_bytes (dir_bytes pb (node_dir pb (Dir es))))\<rparr>, s)))"
        using b(1) Ok y(1) Inr put by (simp add: capture_directory_def Let_def del: node_dir.simps node_desc.simps)
      with law ok y(3,4) Inr show ?thesis
        by (cases ru) (auto simp del: node_dir.simps node_desc.simps node_blobs.simps)
    qed
  next
    case (Err e)
    with b show ?thesis by (auto simp: capture_directory_def captured_def)
  next
    case Panic
    with b(2) show ?thesis by (simp add: captured_def)
  qed
qed

end

context reliable_store
begin

lemma capture_materialize_law:
  assumes "inv s" "no_fault h" "real_dir h p es" "wf_node (Dir es)" "depth (Dir es) \<le> n" "small_blobs pb (Dir es)"
    and "list_all (dir_roundtrip pb) (node_dir pb (Dir es) # node_desc pb (Dir es))"
    and tb: "marshal_tree pb \<lparr>tree_root = node_dir pb (Dir es), tree_children = node_desc pb (Dir es)\<rparr> = Inr tb"
    and small: "length tb < 2 ^ 63" and inj: "inj_on sha256 (set (node_blobs pb (Dir es) @ [tb]))"
    and "no_fault h'" "fresh_place h' dst"
  shows "\<exists>od s1 h2 s2. capture_directory pb (st_put st) h n out p s = Some (Ok od, s1) \<and>
    materialize pb (st_get st) n (od_root_digest od) dst (h', s1) = Some (Ok (), h2, s2) \<and>
    node_at (fs_root h2) dst = Some (Dir es) \<and> within dst h' h2"
proof -
  let ?root = "Some (from_bytes (dir_bytes pb (node_dir pb (Dir es))))"
  have ms: "marshals pb (node_dir pb (Dir es) # node_desc pb (Dir es))"
    using assms(7) by (auto simp: marshals_def list_all_iff dir_roundtrip_def)
  have total: "fst (st_put st s (Some (from_bytes b)) b) = Ok ()" if "inv s" "length b < 2 ^ 63" for s b
    using that by (intro put_total valid_okd validate_from_bytes_lemma)
  have smallt: "length b < 2 ^ 63"
    if "marshal_tree pb \<lparr>tree_root = node_dir pb (Dir es), tree_children = node_desc pb (Dir es)\<rparr> = Inr b" for b
    using that tb small by simp
  obtain r s1 where law: "capture_directory pb (st_put st) h n out p s = Some (r, s1)" "inv s1"
    "\<forall>od. r = Ok od \<longrightarrow>
       (\<exists>tb. marshal_tree pb \<lparr>tree_root = node_dir pb (Dir es), tree_children = node_desc pb (Dir es)\<rparr> = Inr tb \<and>
          od = \<lparr>od_path = out, od_tree_digest = Some (from_bytes tb), od_root_digest = ?root\<rparr> \<and>
          vw s1 = put_blobs (vw s) (node_blobs pb (Dir es) @ [tb]))" "is_ok r"
    using capture_directory_law [of True h p es s n out, OF total assms(2,3,1,4,5,6) ms smallt] tb by blast
  then obtain od where od: "r = Ok od" by (auto simp: is_ok_iff)
  have c: "capture_directory pb (st_put st) h n out p s = Some (r, s1)" "inv s1" "od_root_digest od = ?root"
    "vw s1 = put_blobs (vw s) (node_blobs pb (Dir es) @ [tb])"
    using law(1,2) law(3) [rule_format, OF od] tb by auto
  have "\<forall>b \<in> set (node_blobs pb (Dir es) @ [tb]). length b < 2 ^ 63"
    using assms(6) small unfolding small_blobs_def by auto
  from put_blobs_lookup [OF inj this, of "vw s"] c(4)
  have holds: "holds_blobs (vw s1) (node_blobs pb (Dir es))" by (auto simp: holds_blobs_def)
  have spec: "spec_tree pb (vw s1) n ?root = Some (Dir es)"
    by (rule spec_tree_captured [OF assms(4,5) holds assms(7)])
  have good: "good_tree pb okd (vw s1) n ?root"
    by (rule good_tree_captured [OF assms(4,6) holds assms(7)])
  obtain h2 s2 where m: "materialize pb (st_get st) n ?root dst (h', s1) = Some (Ok (), h2, s2)"
    using materialize_total [OF assms(12) c(2) good assms(11)] spec by auto
  from materialize_law [OF assms(12) c(2) good m] spec
  have "node_at (fs_root h2) dst = Some (Dir es)" "within dst h' h2" by (auto simp: mat_result_def)
  with c(1,3) od m show ?thesis by auto
qed

end

subsection \<open>Properties\<close>

text \<open>
  C22.  \<^verbatim>\<open>Materialize\<close> into a fresh directory, of a tree whose directories name no entry twice, over
  any store and any file system, failing or not: it never panics, it leaves the store's content
  and everything outside the directory as it was, and when it succeeds the directory holds
  exactly the tree the digest denotes in the store.
\<close>

theorem materialize_refines_tree:
  assumes "blob_store st pb si okd vw" and "si s" and "fresh_place h dir" and "good_tree pb okd (vw s) n root"
    and "materialize pb (st_get st) n root dir (h, s) = Some (r, h', s')"
  shows "r \<noteq> Panic \<and> vw s' = vw s \<and>
    (\<forall>q. parallel dir q \<longrightarrow> node_at (fs_root h') q = node_at (fs_root h) q) \<and>
    (r = Ok () \<longrightarrow> (\<exists>t. spec_tree pb (vw s) n root = Some t \<and> node_at (fs_root h') dir = Some t))"
  using blob_store.materialize_law [OF assms(1,3,2,4,5)] within_parallel [of dir h h']
  by (auto simp: mat_result_def)

text \<open>
  A tree with a file, an executable in a subdirectory and a link, the codec of its messages, a
  store that holds it and a file system with an empty directory.
\<close>

definition demo_tree :: "(string \<times> node) list" where
  "demo_tree = [(''bin'', Dir [(''run'', File [0] True)]), (''link'', Link ''bin/run''), (''note'', File [] False)]"

definition demo_bin :: directory where
  "demo_bin = \<lparr>dir_files = [\<lparr>fn_name = ''run'', fn_digest = Some (from_bytes [0]), fn_exec = True\<rparr>],
     dir_directories = [], dir_symlinks = []\<rparr>"

definition demo_root :: directory where
  "demo_root = \<lparr>dir_files = [\<lparr>fn_name = ''note'', fn_digest = Some (from_bytes []), fn_exec = False\<rparr>],
     dir_directories = [\<lparr>dn_name = ''bin'', dn_digest = Some (from_bytes [])\<rparr>],
     dir_symlinks = [\<lparr>sn_name = ''link'', sn_target = ''bin/run''\<rparr>]\<rparr>"

definition tree_codec :: codec where
  "tree_codec = table_codec [demo_bin, demo_root] [\<lparr>tree_root = demo_root, tree_children = [demo_bin]\<rparr>] [] [] []"

definition tree_store :: mem_store where
  "tree_store = new_mem_store\<lparr>ms_blobs := [d_hash (from_bytes [0]) \<mapsto> [0]]\<rparr>"

definition tree_host :: fs where
  "tree_host = \<lparr>fs_root = Dir [(''in'', Dir demo_tree), (''work'', Dir [])], fs_fault = (\<lambda>_ _. None)\<rparr>"

lemma plain_demo [simp]:
  "plain_name ''bin''" "plain_name ''run''" "plain_name ''link''" "plain_name ''note''" "plain_name ''in''"
  "plain_name ''work''"
  by (simp_all add: plain_name_def dot_def dotdot_def)

lemma tree_place: "real_dir tree_host [''work''] []" "real_dir tree_host [''in''] demo_tree" "no_fault tree_host"
  by (simp_all add: real_dir_def tree_host_def no_fault_def)

lemma demo_neq [simp]: "demo_bin \<noteq> demo_root" "demo_root \<noteq> demo_bin"
  by (simp_all add: demo_bin_def demo_root_def)

lemma demo_lookup [simp]:
  "lookup_blob (mem_view tree_store) (Some (from_bytes [0])) = Some [0]"
  "lookup_blob v (Some (from_bytes [])) = Some []"
  using is_empty_from_bytes [of "[0]"] is_empty_from_bytes [of "[]"]
  by (simp_all add: lookup_blob_def tree_store_def new_mem_store_def)

lemma demo_decode [simp]:
  "unmarshal_dir tree_codec [0] = Inr demo_root" "unmarshal_dir tree_codec [] = Inr demo_bin"
  "marshal_dir tree_codec demo_root = Inr [0]" "marshal_dir tree_codec demo_bin = Inr []"
  "marshal_tree tree_codec \<lparr>tree_root = demo_root, tree_children = [demo_bin]\<rparr> = Inr []"
  by (simp_all add: tree_codec_def table_decode_def table_encode_def)

lemma demo_spec: "spec_tree tree_codec (mem_view tree_store) 2 (Some (from_bytes [0])) = Some (Dir demo_tree)"
  by (simp add: numeral_2_eq_2) (simp add: demo_root_def demo_bin_def demo_tree_def)

lemma demo_good: "good_tree tree_codec (\<lambda>_. True) (mem_view tree_store) 2 (Some (from_bytes [0]))"
  by (simp add: numeral_2_eq_2) (simp add: demo_root_def demo_bin_def entry_names_def)

theorem materialize_refines_tree_witness:
  "\<exists>h' m'. materialize tree_codec mem_get 2 (Some (from_bytes [0])) [''work''] (tree_host, tree_store) =
      Some (Ok (), h', m') \<and>
    node_at (fs_root h') [''work''] = Some (Dir demo_tree) \<and>
    node_at (fs_root h') [''in''] = node_at (fs_root tree_host) [''in'']"
proof -
  have place: "fresh_place tree_host [''work'']" using tree_place by (simp add: fresh_place_def)
  obtain h' m' where m: "materialize tree_codec (st_get (mem_ops tree_codec)) 2 (Some (from_bytes [0])) [''work'']
      (tree_host, tree_store) = Some (Ok (), h', m')"
    using mem.materialize_total [OF place TrueI demo_good tree_place(3)] demo_spec by auto
  have "parallel [''work''] [''in'']" by (simp add: parallel_def)
  with materialize_refines_tree [OF mem.blob_store_axioms TrueI place demo_good m] demo_spec m
  show ?thesis by auto
qed

text \<open>
  C32.  \<^verbatim>\<open>CaptureDirectory\<close> of a real directory, over any store and file system, failing or not:
  with enough fuel for the nesting it returns, never panics and keeps a content-addressed store
  content-addressed; when it succeeds the digests are those of the reference messages, and the
  store holds what it held plus every file, every directory and the tree message, each under its
  own digest.
\<close>

theorem capture_refines_reference:
  assumes "blob_store st pb si okd vw" and "si s" and "real_dir h p es" and "wf_node (Dir es)"
    and "depth (Dir es) \<le> n" and "small_blobs pb (Dir es)"
    and "\<And>b. marshal_tree pb \<lparr>tree_root = node_dir pb (Dir es), tree_children = node_desc pb (Dir es)\<rparr> = Inr b \<Longrightarrow>
      length b < 2 ^ 63"
  shows "\<exists>r s'. capture_directory pb (st_put st) h n out p s = Some (r, s') \<and> r \<noteq> Panic \<and>
    (content_addressed (vw s) \<longrightarrow> content_addressed (vw s')) \<and>
    (\<forall>od. r = Ok od \<longrightarrow>
       (\<exists>tb. marshal_tree pb \<lparr>tree_root = node_dir pb (Dir es), tree_children = node_desc pb (Dir es)\<rparr> = Inr tb \<and>
          od = \<lparr>od_path = out, od_tree_digest = Some (from_bytes tb),
                od_root_digest = Some (from_bytes (dir_bytes pb (node_dir pb (Dir es))))\<rparr> \<and>
          vw s' = put_blobs (vw s) (node_blobs pb (Dir es) @ [tb])))"
  using blob_store.capture_directory_law [OF assms(1), of False h p es s n out] assms(2-) by blast


lemma demo_bin_eq [simp]:
  "empty_directory\<lparr>dir_files := \<lparr>fn_name = ''run'', fn_digest = Some (from_bytes [0]), fn_exec = True\<rparr> #
     dir_files empty_directory\<rparr> = demo_bin"
  by (simp add: demo_bin_def empty_directory_def)

lemma demo_messages [simp]:
  "entries_dir tree_codec demo_tree = demo_root" "entries_desc tree_codec demo_tree = [demo_bin]"
  by (simp_all add: demo_tree_def dir_bytes_def) (simp add: demo_root_def empty_directory_def)

lemma demo_blobs: "node_blobs tree_codec (Dir demo_tree) = [[0], [], [], [0]]"
  by (simp add: dir_bytes_def) (simp add: demo_tree_def dir_bytes_def)

lemma demo_wf: "wf_node (Dir demo_tree)" "depth (Dir demo_tree) \<le> 2" "small_blobs tree_codec (Dir demo_tree)"
proof -
  show "wf_node (Dir demo_tree)" by (simp add: demo_tree_def less_char_def)
  show "depth (Dir demo_tree) \<le> 2" by (simp add: demo_tree_def)
  show "small_blobs tree_codec (Dir demo_tree)" unfolding small_blobs_def demo_blobs by simp
qed

theorem capture_refines_reference_witness:
  "\<exists>r s'. capture_directory tree_codec mem_put tree_host 2 ''out'' [''in''] new_mem_store = Some (r, s') \<and>
    r \<noteq> Panic \<and> content_addressed (mem_view s')"
proof -
  have "content_addressed (mem_view new_mem_store)"
    by (simp add: content_addressed_def new_mem_store_def)
  with capture_refines_reference [OF mem.blob_store_axioms TrueI tree_place(2) demo_wf,
      where s = new_mem_store and out = "''out''"]
  show ?thesis by fastforce
qed

text \<open>
  C21.  A captured directory materializes again: over a store that does not fail and file systems
  without faults, for a tree whose messages the codec round-trips and whose blobs do not collide
  under SHA-256, capturing succeeds, and materializing the root digest it returns into any fresh
  place gives an equal tree there and changes nothing else.
\<close>

theorem capture_materialize:
  assumes "reliable_store st pb si okd vw" and "si s" and "no_fault h" and "real_dir h p es"
    and "wf_node (Dir es)" and "depth (Dir es) \<le> n" and "small_blobs pb (Dir es)"
    and "list_all (dir_roundtrip pb) (node_dir pb (Dir es) # node_desc pb (Dir es))"
    and "marshal_tree pb \<lparr>tree_root = node_dir pb (Dir es), tree_children = node_desc pb (Dir es)\<rparr> = Inr tb"
    and "length tb < 2 ^ 63" and "inj_on sha256 (set (node_blobs pb (Dir es) @ [tb]))"
    and "no_fault h'" and "fresh_place h' dst"
  shows "\<exists>od s1 h2 s2. capture_directory pb (st_put st) h n out p s = Some (Ok od, s1) \<and>
    materialize pb (st_get st) n (od_root_digest od) dst (h', s1) = Some (Ok (), h2, s2) \<and>
    node_at (fs_root h2) dst = Some (Dir es) \<and>
    (\<forall>q. parallel dst q \<longrightarrow> node_at (fs_root h2) q = node_at (fs_root h') q)"
  using reliable_store.capture_materialize_law [OF assms(1-13), of out] within_parallel [of dst h'] by blast

theorem capture_materialize_witness:
  "\<exists>od s1 h2 s2. capture_directory tree_codec mem_put tree_host 2 ''out'' [''in''] new_mem_store = Some (Ok od, s1) \<and>
    materialize tree_codec mem_get 2 (od_root_digest od) [''work''] (tree_host, s1) = Some (Ok (), h2, s2) \<and>
    node_at (fs_root h2) [''work''] = Some (Dir demo_tree)"
proof -
  have rt: "list_all (dir_roundtrip tree_codec) (node_dir tree_codec (Dir demo_tree) # node_desc tree_codec (Dir demo_tree))"
    by (simp add: dir_roundtrip_def)
  have "d_hash (from_bytes [0]) \<noteq> d_hash (from_bytes [])"
    unfolding from_bytes_zero from_bytes_Nil by (simp add: zero_digest_def empty_digest_def empty_hash_def)
  then have "sha256 [0] \<noteq> sha256 []" by auto
  then have inj: "inj_on sha256 (set (node_blobs tree_codec (Dir demo_tree) @ [[]]))"
    unfolding demo_blobs by auto
  have tb: "marshal_tree tree_codec \<lparr>tree_root = node_dir tree_codec (Dir demo_tree),
      tree_children = node_desc tree_codec (Dir demo_tree)\<rparr> = Inr []"
    by simp
  have place: "fresh_place tree_host [''work'']" using tree_place by (simp add: fresh_place_def)
  from capture_materialize [OF mem.reliable_store_axioms TrueI tree_place(3,2) demo_wf rt tb _ inj tree_place(3) place]
  show ?thesis by fastforce
qed

definition escape_codec :: codec where
  "escape_codec = table_codec
     [\<lparr>dir_files = [\<lparr>fn_name = ''passwd'', fn_digest = Some empty_digest, fn_exec = False\<rparr>],
       dir_directories = [], dir_symlinks = []\<rparr>,
      \<lparr>dir_files = [], dir_directories = [\<lparr>dn_name = ''x'', dn_digest = Some empty_digest\<rparr>],
       dir_symlinks = [\<lparr>sn_name = ''x'', sn_target = ''/etc''\<rparr>]\<rparr>] [] [] [] []"

definition escape_host :: fs where
  "escape_host = \<lparr>fs_root = Dir [(''etc'', Dir []), (''work'', Dir [])], fs_fault = (\<lambda>_ _. None)\<rparr>"

text \<open>
  C34.  Confinement needs the distinct names: symlinks are made before the subdirectories and
  \<^verbatim>\<open>MkdirAll\<close> follows them, so an input root with a link and a directory of one name writes
  through the link, outside the directory it is materialized in, and reports success.
\<close>

theorem materialize_follows_symlinks:
  "\<exists>h' s'. materialize escape_codec mem_get 2 (Some (from_bytes [0])) [''work''] (escape_host, tree_store) =
      Some (Ok (), h', s') \<and>
    node_at (fs_root escape_host) [''etc'', ''passwd''] = None \<and>
    node_at (fs_root h') [''etc'', ''passwd''] = Some (File [] False)"
proof -
  have get: "mem_get tree_store (Some (from_bytes [0])) = (Ok [0], tree_store)"
    "mem_get tree_store (Some empty_digest) = (Ok [], tree_store)"
    using is_empty_from_bytes [of "[0]"]
    by (simp_all add: mem_get_def tree_store_def is_empty_eq)
  show ?thesis
    by (simp add: numeral_2_eq_2 get escape_codec_def table_decode_def escape_host_def os_mkdir_all_def mkdir_last_def
       os_stat_def os_mkdir_def os_lstat_def os_change_def os_symlink_def os_write_file_def resolve.simps
       join_path_def clean_parts_def clean_step_def max_links_def dot_def dotdot_def check_name_def rooted_def
       eval_nat_numeral less_char_def)
qed

end
