(* ===== verification/S3Store.thy ===== *)
theory S3Store
  imports Cas
begin

text \<open>
  \<^verbatim>\<open>internal/cas/cas.go\<close>: the S3-backed store.  The S3 client is outside the repository: it is
  the record \<open>s3_client\<close> of the calls the store makes, over a world \<open>'w\<close>.  The locale
  \<open>s3_bucket\<close> states the documented behaviour of S3 the store relies on (read-after-write
  consistency, HTTP byte ranges); in it the store is shown to meet the contract of theory
  \<open>Cas\<close>.  A reference bucket with a schedule of connection failures interprets it.
\<close>

subsection \<open>Errors of the SDK\<close>

text \<open>
  An SDK error is a chain: the typed errors \<^verbatim>\<open>NoSuchKey\<close> and \<^verbatim>\<open>NotFound\<close>, any other
  \<^verbatim>\<open>smithy.APIError\<close> by its code, an error that is none of these, and a wrapper.
\<close>

datatype aws_error =
    NoSuchKey
  | NotFoundType
  | APIError string
  | OtherError string
  | OperationError string aws_error

primrec as_no_such_key :: "aws_error \<Rightarrow> bool" where
  "as_no_such_key NoSuchKey = True"
| "as_no_such_key NotFoundType = False"
| "as_no_such_key (APIError c) = False"
| "as_no_such_key (OtherError t) = False"
| "as_no_such_key (OperationError t e) = as_no_such_key e"

primrec as_not_found :: "aws_error \<Rightarrow> bool" where
  "as_not_found NoSuchKey = False"
| "as_not_found NotFoundType = True"
| "as_not_found (APIError c) = False"
| "as_not_found (OtherError t) = False"
| "as_not_found (OperationError t e) = as_not_found e"

text \<open>\<^verbatim>\<open>errors.As(err, &ae)\<close> and the \<^verbatim>\<open>ErrorCode\<close> of what it found.\<close>

primrec as_api_error :: "aws_error \<Rightarrow> string option" where
  "as_api_error NoSuchKey = Some ''NoSuchKey''"
| "as_api_error NotFoundType = Some ''NotFound''"
| "as_api_error (APIError c) = Some c"
| "as_api_error (OtherError t) = None"
| "as_api_error (OperationError t e) = as_api_error e"

definition is_not_found :: "aws_error \<Rightarrow> bool" where
  "is_not_found e =
     (if as_no_such_key e \<or> as_not_found e then True
      else case as_api_error e of
             None \<Rightarrow> False
           | Some c \<Rightarrow> c = ''NoSuchKey'' \<or> c = ''NotFound'' \<or> c = ''404'')"

primrec aws_text :: "aws_error \<Rightarrow> string" where
  "aws_text NoSuchKey = ''NoSuchKey''"
| "aws_text NotFoundType = ''NotFound''"
| "aws_text (APIError c) = c"
| "aws_text (OtherError t) = t"
| "aws_text (OperationError t e) = t @ '': '' @ aws_text e"

subsection \<open>The store\<close>

record 'w s3_client =
  head_object :: "'w \<Rightarrow> string \<Rightarrow> string \<Rightarrow> (aws_error + unit) \<times> 'w"
  get_object :: "'w \<Rightarrow> string \<Rightarrow> string \<Rightarrow> string option \<Rightarrow> (aws_error + reader) \<times> 'w"
  put_object :: "'w \<Rightarrow> string \<Rightarrow> string \<Rightarrow> bytes \<Rightarrow> (aws_error + unit) \<times> 'w"
  upload :: "'w \<Rightarrow> string \<Rightarrow> string \<Rightarrow> reader \<Rightarrow> (aws_error + unit) \<times> 'w"

record s3_config =
  s3_bucket_name :: string
  s3_prefix :: string

definition blob_key :: "s3_config \<Rightarrow> digest_ptr \<Rightarrow> string" where
  "blob_key cfg d = path_join [s3_prefix cfg, ''cas'', get_hash d]"

definition ac_key :: "s3_config \<Rightarrow> digest_ptr \<Rightarrow> string" where
  "ac_key cfg d = path_join [s3_prefix cfg, ''ac'', get_hash d]"

definition byte_range :: "int64 \<Rightarrow> int64 \<Rightarrow> string" where
  "byte_range offset limit =
     (if sint offset \<le> 0 \<and> sint limit \<le> 0 then ''''
      else if sint limit \<le> 0 then ''bytes='' @ show_int64 offset @ ''-''
      else ''bytes='' @ show_int64 offset @ ''-'' @ show_int64 (offset + limit - 1))"

definition s3_contains ::
    "'w s3_client \<Rightarrow> s3_config \<Rightarrow> 'w \<Rightarrow> digest_ptr \<Rightarrow> bool res \<times> 'w" where
  "s3_contains cl cfg w d =
     (if is_empty d then (Ok True, w)
      else case head_object cl w (s3_bucket_name cfg) (blob_key cfg d) of
             (Inl e, w') \<Rightarrow>
               if is_not_found e then (Ok False, w')
               else (Err (Wrapf ''head %s: %w'' [key d] (Ext (aws_text e))), w')
           | (Inr u, w') \<Rightarrow> (Ok True, w'))"

definition s3_reader ::
    "'w s3_client \<Rightarrow> s3_config \<Rightarrow> 'w \<Rightarrow> digest_ptr \<Rightarrow> int64 \<Rightarrow> int64 \<Rightarrow> reader res \<times> 'w" where
  "s3_reader cl cfg w d offset limit =
     (if is_empty d then (Ok (bytes_reader []), w)
      else
        (let rng = (if byte_range offset limit \<noteq> '''' then Some (byte_range offset limit) else None)
         in case get_object cl w (s3_bucket_name cfg) (blob_key cfg d) rng of
              (Inl e, w') \<Rightarrow>
                if is_not_found e then (Err ErrNotFound, w')
                else (Err (Wrapf ''get %s: %w'' [key d] (Ext (aws_text e))), w')
            | (Inr body, w') \<Rightarrow> (Ok body, w')))"

definition s3_get :: "'w s3_client \<Rightarrow> s3_config \<Rightarrow> 'w \<Rightarrow> digest_ptr \<Rightarrow> bytes res \<times> 'w" where
  "s3_get cl cfg w d =
     (if is_empty d then (Ok [], w)
      else case s3_reader cl cfg w d 0 0 of
             (Err e, w') \<Rightarrow> (Err e, w')
           | (Panic, w') \<Rightarrow> (Panic, w')
           | (Ok rc, w') \<Rightarrow> (read_all rc, w'))"

text \<open>For the empty digest \<^verbatim>\<open>PutStream\<close> drains the reader and ignores what that gives.\<close>

definition s3_put_stream ::
    "'w s3_client \<Rightarrow> s3_config \<Rightarrow> 'w \<Rightarrow> digest_ptr \<Rightarrow> int64 \<Rightarrow> reader \<Rightarrow> unit res \<times> 'w" where
  "s3_put_stream cl cfg w d n r =
     (if is_empty d then (Ok (), w)
      else case upload cl w (s3_bucket_name cfg) (blob_key cfg d) r of
             (Inl e, w') \<Rightarrow> (Err (Wrapf ''put %s: %w'' [key d] (Ext (aws_text e))), w')
           | (Inr u, w') \<Rightarrow> (Ok (), w'))"

definition s3_put ::
    "'w s3_client \<Rightarrow> s3_config \<Rightarrow> 'w \<Rightarrow> digest_ptr \<Rightarrow> bytes \<Rightarrow> unit res \<times> 'w" where
  "s3_put cl cfg w d data =
     (if is_empty d then (Ok (), w)
      else s3_put_stream cl cfg w d (of_nat (length data)) (bytes_reader data))"

definition s3_get_ar ::
    "'w s3_client \<Rightarrow> s3_config \<Rightarrow> codec \<Rightarrow> 'w \<Rightarrow> digest_ptr \<Rightarrow> action_result res \<times> 'w" where
  "s3_get_ar cl cfg pb w d =
     (case get_object cl w (s3_bucket_name cfg) (ac_key cfg d) None of
        (Inl e, w') \<Rightarrow>
          if is_not_found e then (Err ErrNotFound, w')
          else (Err (Wrapf ''get action result %s: %w'' [key d] (Ext (aws_text e))), w')
      | (Inr body, w') \<Rightarrow>
          (case read_all body of
             Err e \<Rightarrow> (Err e, w')
           | Panic \<Rightarrow> (Panic, w')
           | Ok data \<Rightarrow>
               (case unmarshal_ar pb data of
                  Inl e \<Rightarrow> (Err (Wrapf ''unmarshal action result: %w'' [] (Ext e)), w')
                | Inr ar \<Rightarrow> (Ok ar, w'))))"

definition s3_put_ar ::
    "'w s3_client \<Rightarrow> s3_config \<Rightarrow> codec \<Rightarrow> 'w \<Rightarrow> digest_ptr \<Rightarrow> action_result \<Rightarrow> unit res \<times> 'w" where
  "s3_put_ar cl cfg pb w d ar =
     (case marshal_ar pb ar of
        Inl e \<Rightarrow> (Err (Ext e), w)
      | Inr data \<Rightarrow>
          (case put_object cl w (s3_bucket_name cfg) (ac_key cfg d) data of
             (Inl e, w') \<Rightarrow> (Err (Wrapf ''put action result %s: %w'' [key d] (Ext (aws_text e))), w')
           | (Inr u, w') \<Rightarrow> (Ok (), w')))"

definition s3_ops :: "'w s3_client \<Rightarrow> s3_config \<Rightarrow> codec \<Rightarrow> 'w store" where
  "s3_ops cl cfg pb =
     \<lparr>st_contains = s3_contains cl cfg, st_get = s3_get cl cfg, st_reader = s3_reader cl cfg,
      st_put = s3_put cl cfg, st_put_stream = s3_put_stream cl cfg,
      st_get_ar = s3_get_ar cl cfg pb, st_put_ar = s3_put_ar cl cfg pb\<rparr>"

lemma s3_ops_sel [simp]:
  "st_contains (s3_ops cl cfg pb) = s3_contains cl cfg" "st_get (s3_ops cl cfg pb) = s3_get cl cfg"
  "st_reader (s3_ops cl cfg pb) = s3_reader cl cfg" "st_put (s3_ops cl cfg pb) = s3_put cl cfg"
  "st_put_stream (s3_ops cl cfg pb) = s3_put_stream cl cfg"
  "st_get_ar (s3_ops cl cfg pb) = s3_get_ar cl cfg pb"
  "st_put_ar (s3_ops cl cfg pb) = s3_put_ar cl cfg pb"
  by (simp_all add: s3_ops_def)

subsection \<open>Object keys\<close>

definition prefix_parts :: "string \<Rightarrow> string list" where
  "prefix_parts p = (if p = '''' then [] else clean_parts (rooted p) (split_on (CHR ''/'') p))"

lemma object_key:
  assumes "plain_name seg" and "plain_name h"
  shows "path_join [p, seg, h] =
    (if rooted p then ''/'' else '''') @ join_with (CHR ''/'') (prefix_parts p @ [seg, h])"
proof -
  have sh: "seg \<noteq> ''''" "h \<noteq> ''''" "CHR ''/'' \<notin> set seg" "CHR ''/'' \<notin> set h"
    using assms by (auto dest: plain_nameD)
  then have two: "split_on (CHR ''/'') (seg @ CHR ''/'' # h) = [seg, h]"
    by (simp add: split_on_step split_on_no_sep)
  show ?thesis
  proof (cases "p = ''''")
    case True
    moreover have "hd seg \<noteq> CHR ''/''" using sh by (cases seg) auto
    ultimately show ?thesis
      using sh two clean_parts_plain2 [OF assms, of False "[]"]
      by (simp add: path_join_def path_clean_def rooted_def prefix_parts_def clean_parts_def)
  next
    case False
    have "split_on (CHR ''/'') (p @ CHR ''/'' # seg @ CHR ''/'' # h) = split_on (CHR ''/'') p @ [seg, h]"
      using sh by (simp add: split_on_append split_on_no_sep)
    moreover have "rooted (p @ CHR ''/'' # seg @ CHR ''/'' # h) = rooted p"
      using False by (simp add: rooted_def)
    moreover have "join_with (CHR ''/'') (us @ [seg, h]) \<noteq> ''''" for us
      using sh by (cases us) (auto simp: join_with_Cons)
    ultimately show ?thesis
      using False sh
      by (simp add: path_join_def path_clean_def prefix_parts_def clean_parts_plain2 [OF assms] Let_def)
  qed
qed

lemma plain_segments: "plain_name ''cas''" "plain_name ''ac''"
  by (simp_all add: plain_name_def dot_def dotdot_def)

lemma join_last: "join_with c (us @ [s, h]) = join_with c (us @ [s]) @ c # h"
  using join_with_append [of "us @ [s]" "[h]" c] by simp

lemma object_key_inject:
  assumes "plain_name seg" "plain_name h" "plain_name h'"
    and "path_join [p, seg, h] = path_join [p, seg, h']"
  shows "h = h'"
  using assms by (simp add: object_key join_last)

text \<open>The last two elements of a key can be read off it, whatever the prefix.\<close>

lemma object_key_tail:
  assumes "plain_name seg" "plain_name h"
  shows "\<exists>us. split_on (CHR ''/'') (path_join [p, seg, h]) = us @ [seg, h]"
proof -
  have plain: "CHR ''/'' \<notin> set seg" "CHR ''/'' \<notin> set h" using assms by (auto dest: plain_nameD)
  have two: "split_on (CHR ''/'') (seg @ CHR ''/'' # h) = [seg, h]"
    using plain by (simp add: split_on_step split_on_no_sep)
  have tail: "\<exists>us. split_on (CHR ''/'') (join_with (CHR ''/'') (vs @ [seg, h])) = us @ [seg, h]" for vs
  proof (cases "vs = []")
    case False
    then show ?thesis
      using two plain by (simp add: join_with_append split_on_append split_on_no_sep)
  qed (simp add: two)
  then show ?thesis
    unfolding object_key [OF assms]
    by (cases "rooted p") (simp_all, metis append_Cons)
qed

lemma object_key_last:
  assumes "plain_name seg" "plain_name h" "plain_name seg'" "plain_name h'"
    and "path_join [p, seg, h] = path_join [q, seg', h']"
  shows "seg = seg' \<and> h = h'"
  using object_key_tail [OF assms(1,2), of p] object_key_tail [OF assms(3,4), of q] assms(5) by auto

lemma object_key_disjoint:
  assumes "plain_name h" "plain_name h'"
  shows "path_join [p, ''cas'', h] \<noteq> path_join [p, ''ac'', h']"
  using object_key_last [OF plain_segments(1) assms(1) plain_segments(2) assms(2), of p p] by auto

subsection \<open>Byte ranges\<close>

text \<open>What the \<^verbatim>\<open>Range\<close> header of a request asks for, as RFC 9110 reads it.\<close>

definition range_from :: "nat \<Rightarrow> string" where
  "range_from n = ''bytes='' @ dec n @ ''-''"

definition range_between :: "nat \<Rightarrow> nat \<Rightarrow> string" where
  "range_between n m = ''bytes='' @ dec n @ ''-'' @ dec m"

lemma show_int64_nonneg: "0 \<le> sint w \<Longrightarrow> show_int64 w = dec (nat (sint w))"
  by (simp add: show_int64_def show_int_def)

lemma byte_range_cases:
  assumes "good_range off lim"
  shows "sint off = 0 \<and> sint lim = 0 \<and> byte_range off lim = ''''
    \<or> 0 < sint off \<and> sint lim = 0 \<and> byte_range off lim = range_from (nat (sint off))
    \<or> 0 < sint lim \<and>
      byte_range off lim = range_between (nat (sint off)) (nat (sint off + sint lim - 1))"
proof (cases "0 < sint lim")
  case True
  have "sint (off + lim - 1) = sint off + sint lim - 1"
  proof -
    have eq: "off + lim - 1 = (of_int (sint off + sint lim - 1) :: int64)" by simp
    show ?thesis
      unfolding eq by (rule sint_of_int64) (use assms True in \<open>auto simp: good_range_def\<close>)
  qed
  with assms True show ?thesis
    by (simp add: byte_range_def good_range_def range_between_def show_int64_nonneg)
next
  case False
  with assms show ?thesis
    by (auto simp: byte_range_def good_range_def range_from_def show_int64_nonneg)
qed

subsection \<open>The S3 contract and the store built on it\<close>

text \<open>The digests the key layout separates, and the view of a bucket as a store.\<close>

definition good_digest :: "digest_ptr \<Rightarrow> bool" where
  "good_digest d \<longleftrightarrow> plain_name (get_hash d)"

definition s3_view ::
    "('w \<Rightarrow> string \<Rightarrow> string \<Rightarrow> bytes option) \<Rightarrow> s3_config \<Rightarrow> 'w \<Rightarrow> view" where
  "s3_view objs cfg w =
     \<lparr>v_blobs = (\<lambda>h. if plain_name h
                    then objs w (s3_bucket_name cfg) (path_join [s3_prefix cfg, ''cas'', h]) else None),
      v_acs = (\<lambda>h. if plain_name h
                  then objs w (s3_bucket_name cfg) (path_join [s3_prefix cfg, ''ac'', h]) else None)\<rparr>"

text \<open>
  What the store relies on.  \<open>objs w b k\<close> is the object of key \<open>k\<close> in bucket \<open>b\<close>.  A read
  changes no object; a successful one delivers the object, cut to the requested range, and a
  body never fails with the store's own \<^verbatim>\<open>ErrNotFound\<close>; a not-found answer means there is no
  object.  A write that succeeds has stored the object; one that fails may or may not have.
\<close>

locale s3_bucket =
  fixes cl :: "'w s3_client"
    and winv :: "'w \<Rightarrow> bool"
    and objs :: "'w \<Rightarrow> string \<Rightarrow> string \<Rightarrow> bytes option"
    and cfg :: s3_config
    and pb :: codec
  assumes head_law:
      "winv w \<Longrightarrow> head_object cl w b k = (rh, w') \<Longrightarrow>
        winv w' \<and> objs w' = objs w \<and> (\<forall>u. rh = Inr u \<longrightarrow> objs w b k \<noteq> None) \<and>
        (\<forall>e. rh = Inl e \<and> is_not_found e \<longrightarrow> objs w b k = None)"
    and object_law:
      "winv w \<Longrightarrow> get_object cl w b k rng = (ro, w') \<Longrightarrow>
        winv w' \<and> objs w' = objs w \<and>
        (\<forall>body. ro = Inr body \<longrightarrow> objs w b k \<noteq> None \<and> \<not> not_found (read_all body)) \<and>
        (\<forall>e. ro = Inl e \<and> is_not_found e \<longrightarrow> objs w b k = None)"
    and whole_law:
      "winv w \<Longrightarrow> get_object cl w b k None = (Inr body, w') \<Longrightarrow> read_all body = Ok x \<Longrightarrow>
        objs w b k = Some x"
    and from_law:
      "winv w \<Longrightarrow> get_object cl w b k (Some (range_from n)) = (Inr body, w') \<Longrightarrow>
        read_all body = Ok x \<Longrightarrow> objs w b k = Some ob \<Longrightarrow> x = drop n ob"
    and between_law:
      "winv w \<Longrightarrow> get_object cl w b k (Some (range_between n m)) = (Inr body, w') \<Longrightarrow> n \<le> m \<Longrightarrow>
        read_all body = Ok x \<Longrightarrow> objs w b k = Some ob \<Longrightarrow> x = take (m - n + 1) (drop n ob)"
    and put_object_law:
      "winv w \<Longrightarrow> put_object cl w b k x = (rp, w') \<Longrightarrow>
        winv w' \<and> (\<forall>u. rp = Inr u \<longrightarrow> objs w' = (objs w)(b := (objs w b)(k \<mapsto> x))) \<and>
        (objs w' = objs w \<or> objs w' = (objs w)(b := (objs w b)(k \<mapsto> x)))"
    and upload_law:
      "winv w \<Longrightarrow> upload cl w b k rd = (rp, w') \<Longrightarrow> read_all rd = Ok x \<Longrightarrow>
        winv w' \<and> (\<forall>u. rp = Inr u \<longrightarrow> objs w' = (objs w)(b := (objs w b)(k \<mapsto> x))) \<and>
        (objs w' = objs w \<or> objs w' = (objs w)(b := (objs w b)(k \<mapsto> x)))"
begin

lemma view_blob:
  "good_digest d \<Longrightarrow> v_blobs (s3_view objs cfg w) (get_hash d) = objs w (s3_bucket_name cfg) (blob_key cfg d)"
  by (simp add: s3_view_def good_digest_def blob_key_def)

lemma view_ac:
  "good_digest d \<Longrightarrow> v_acs (s3_view objs cfg w) (get_hash d) = objs w (s3_bucket_name cfg) (ac_key cfg d)"
  by (simp add: s3_view_def good_digest_def ac_key_def)

lemma view_cong: "objs w' = objs w \<Longrightarrow> s3_view objs cfg w' = s3_view objs cfg w"
  by (simp add: s3_view_def cong: if_cong)

text \<open>Writing one object changes the view at one hash, in the half of the key's segment.\<close>

lemma view_put_blob:
  assumes "good_digest d" "\<not> is_empty d"
    and "objs w' = (objs w)(s3_bucket_name cfg := (objs w (s3_bucket_name cfg))(blob_key cfg d \<mapsto> x))"
  shows "s3_view objs cfg w' = put_blob (s3_view objs cfg w) d x"
  using assms
  by (auto simp: s3_view_def put_blob_def good_digest_def blob_key_def fun_eq_iff
      dest: object_key_inject [OF plain_segments(1)] object_key_disjoint [symmetric, THEN notE])

lemma view_put_ac:
  assumes "good_digest d"
    and "objs w' = (objs w)(s3_bucket_name cfg := (objs w (s3_bucket_name cfg))(ac_key cfg d \<mapsto> x))"
  shows "s3_view objs cfg w' = put_ac (s3_view objs cfg w) d x"
  using assms
  by (auto simp: s3_view_def put_ac_def good_digest_def ac_key_def fun_eq_iff
      dest: object_key_inject [OF plain_segments(2)] object_key_disjoint)

lemma s3_contains_law:
  assumes "winv w" "good_digest d" "s3_contains cl cfg w d = (r, w')"
  shows "winv w' \<and> s3_view objs cfg w' = s3_view objs cfg w \<and> r \<noteq> Panic \<and>
    (\<forall>b. r = Ok b \<longrightarrow> b = (lookup_blob (s3_view objs cfg w) d \<noteq> None))"
proof (cases "is_empty d")
  case True
  with assms show ?thesis by (auto simp: s3_contains_def lookup_blob_def)
next
  case False
  obtain rh w1 where h: "head_object cl w (s3_bucket_name cfg) (blob_key cfg d) = (rh, w1)"
    by fastforce
  from head_law [OF assms(1) h] view_cong [of w1 w] False assms h show ?thesis
    by (auto simp: s3_contains_def lookup_blob_def view_blob split: sum.splits if_splits)
qed

text \<open>The bytes a ranged request delivers are the window the caller asked for.\<close>

lemma ranged_object:
  assumes "winv w" "good_range off lim"
    and rng: "rng = (if byte_range off lim \<noteq> '''' then Some (byte_range off lim) else None)"
    and g: "get_object cl w b k rng = (Inr body, w')"
    and x: "read_all body = Ok x" and ob: "objs w b k = Some ob"
  shows "x = window off lim ob"
proof -
  from byte_range_cases [OF assms(2)] rng consider
      "rng = None" "sint off = 0" "sint lim = 0"
    | "rng = Some (range_from (nat (sint off)))" "sint lim = 0"
    | "rng = Some (range_between (nat (sint off)) (nat (sint off + sint lim - 1)))" "0 < sint lim"
    by (auto simp: range_from_def range_between_def)
  then show ?thesis
  proof cases
    case 1
    with g x ob whole_law [OF assms(1)] show ?thesis by (auto simp: window_def)
  next
    case 2
    with g x ob from_law [OF assms(1)] show ?thesis by (auto simp: window_def)
  next
    case 3
    have "0 \<le> sint off" using assms(2) by (simp add: good_range_def)
    with 3 have le: "nat (sint off) \<le> nat (sint off + sint lim - 1)"
      and len: "nat (sint off + sint lim - 1) - nat (sint off) + 1 = nat (sint lim)"
      by auto
    from g 3(1) have "x = take (nat (sint lim)) (drop (nat (sint off)) ob)"
      using between_law [OF assms(1) _ le x ob] len by auto
    with 3 show ?thesis by (simp add: window_def)
  qed
qed

lemma s3_reader_law:
  assumes "winv w" "good_digest d" "good_range off lim" "s3_reader cl cfg w d off lim = (r, w')"
  shows "winv w' \<and> s3_view objs cfg w' = s3_view objs cfg w \<and> r \<noteq> Panic \<and>
    (\<forall>rd. r = Ok rd \<longrightarrow> \<not> not_found (read_all rd) \<and>
       (\<exists>b. lookup_blob (s3_view objs cfg w) d = Some b \<and>
            (\<forall>x. read_all rd = Ok x \<longrightarrow> x = window off lim b))) \<and>
    (not_found r \<longrightarrow> lookup_blob (s3_view objs cfg w) d = None)"
proof (cases "is_empty d")
  case True
  with assms(1,4) show ?thesis by (auto simp: s3_reader_def lookup_blob_def window_def Let_def)
next
  case False
  let ?b = "s3_bucket_name cfg" and ?k = "blob_key cfg d"
  define rng where "rng = (if byte_range off lim \<noteq> '''' then Some (byte_range off lim) else None)"
  obtain ro w1 where g: "get_object cl w ?b ?k rng = (ro, w1)" by fastforce
  note law = object_law [OF assms(1) g] view_cong [of w1 w]
  show ?thesis
  proof (cases ro)
    case (Inl e)
    with law g False assms(2,4) show ?thesis
      by (auto simp: s3_reader_def Let_def lookup_blob_def view_blob
          simp flip: rng_def split: if_splits)
  next
    case (Inr body)
    with law obtain ob where ob: "objs w ?b ?k = Some ob" by auto
    have win: "x = window off lim ob" if "read_all body = Ok x" for x
      using ranged_object [OF assms(1,3) rng_def _ that ob] g Inr by simp
    from Inr law g False assms(2,4) ob win show ?thesis
      by (auto simp: s3_reader_def Let_def lookup_blob_def view_blob simp flip: rng_def)
  qed
qed

lemma s3_get_law:
  assumes "winv w" "good_digest d" "s3_get cl cfg w d = (r, w')"
  shows "winv w' \<and> s3_view objs cfg w' = s3_view objs cfg w \<and> r \<noteq> Panic \<and>
    (\<forall>b. r = Ok b \<longrightarrow> lookup_blob (s3_view objs cfg w) d = Some b) \<and>
    (not_found r \<longrightarrow> lookup_blob (s3_view objs cfg w) d = None)"
proof (cases "is_empty d")
  case True
  with assms show ?thesis by (auto simp: s3_get_def lookup_blob_def)
next
  case False
  obtain rr w1 where g: "s3_reader cl cfg w d 0 0 = (rr, w1)" by fastforce
  have "good_range 0 0" by (simp add: good_range_def)
  from s3_reader_law [OF assms(1,2) this g] False assms(3) g show ?thesis
    by (auto simp: s3_get_def window_def split: res.splits)
qed

lemma s3_put_stream_law:
  assumes "winv w" "good_digest d" "s3_put_stream cl cfg w d n rd = (r, w')" "read_all rd = Ok b"
  shows "winv w' \<and> r \<noteq> Panic \<and> (r = Ok () \<longrightarrow> s3_view objs cfg w' = put_blob (s3_view objs cfg w) d b) \<and>
    (s3_view objs cfg w' = s3_view objs cfg w \<or> s3_view objs cfg w' = put_blob (s3_view objs cfg w) d b)"
proof (cases "is_empty d")
  case True
  with assms show ?thesis by (auto simp: s3_put_stream_def put_blob_def)
next
  case False
  obtain rp w1 where u: "upload cl w (s3_bucket_name cfg) (blob_key cfg d) rd = (rp, w1)"
    by fastforce
  from upload_law [OF assms(1) u assms(4)] view_put_blob [OF assms(2) False]
  have "winv w1" "\<forall>u. rp = Inr u \<longrightarrow> s3_view objs cfg w1 = put_blob (s3_view objs cfg w) d b"
    "s3_view objs cfg w1 = s3_view objs cfg w \<or> s3_view objs cfg w1 = put_blob (s3_view objs cfg w) d b"
    by (auto dest: view_cong)
  with False assms(3) u show ?thesis
    by (auto simp: s3_put_stream_def split: sum.splits)
qed

lemma s3_put_law:
  assumes "winv w" "good_digest d" "s3_put cl cfg w d b = (r, w')"
  shows "winv w' \<and> r \<noteq> Panic \<and> (r = Ok () \<longrightarrow> s3_view objs cfg w' = put_blob (s3_view objs cfg w) d b) \<and>
    (s3_view objs cfg w' = s3_view objs cfg w \<or> s3_view objs cfg w' = put_blob (s3_view objs cfg w) d b)"
proof (cases "is_empty d")
  case True
  with assms show ?thesis by (auto simp: s3_put_def put_blob_def)
next
  case False
  with assms s3_put_stream_law [OF assms(1,2), where rd = "bytes_reader b"] show ?thesis
    by (simp add: s3_put_def)
qed

lemma s3_get_ar_law:
  assumes "winv w" "good_digest d" "s3_get_ar cl cfg pb w d = (r, w')"
  shows "winv w' \<and> s3_view objs cfg w' = s3_view objs cfg w \<and> r \<noteq> Panic \<and>
    (\<forall>ar. r = Ok ar \<longrightarrow>
       (\<exists>b. v_acs (s3_view objs cfg w) (get_hash d) = Some b \<and> unmarshal_ar pb b = Inr ar)) \<and>
    (not_found r \<longrightarrow> v_acs (s3_view objs cfg w) (get_hash d) = None)"
proof -
  obtain ro w1 where g: "get_object cl w (s3_bucket_name cfg) (ac_key cfg d) None = (ro, w1)"
    by fastforce
  note law = object_law [OF assms(1) g] view_cong [of w1 w]
  show ?thesis
  proof (cases ro)
    case (Inl e)
    with law g assms(2,3) show ?thesis
      by (auto simp: s3_get_ar_def view_ac split: if_splits)
  next
    case (Inr body)
    with law g assms(2,3) whole_law [OF assms(1)] show ?thesis
      by (auto simp: s3_get_ar_def view_ac split: res.splits sum.splits)
  qed
qed

lemma s3_put_ar_law:
  assumes "winv w" "good_digest d" "s3_put_ar cl cfg pb w d ar = (r, w')"
  shows "winv w' \<and> r \<noteq> Panic \<and>
    (r = Ok () \<longrightarrow> (\<exists>b. marshal_ar pb ar = Inr b \<and> s3_view objs cfg w' = put_ac (s3_view objs cfg w) d b)) \<and>
    (s3_view objs cfg w' = s3_view objs cfg w \<or> (\<exists>b. marshal_ar pb ar = Inr b \<and> s3_view objs cfg w' = put_ac (s3_view objs cfg w) d b))"
proof (cases "marshal_ar pb ar")
  case (Inl e)
  with assms show ?thesis by (auto simp: s3_put_ar_def)
next
  case (Inr data)
  obtain rp w1 where u: "put_object cl w (s3_bucket_name cfg) (ac_key cfg d) data = (rp, w1)"
    by fastforce
  from put_object_law [OF assms(1) u] view_put_ac [OF assms(2)]
  have "winv w1" "\<forall>u. rp = Inr u \<longrightarrow> s3_view objs cfg w1 = put_ac (s3_view objs cfg w) d data"
    "s3_view objs cfg w1 = s3_view objs cfg w \<or> s3_view objs cfg w1 = put_ac (s3_view objs cfg w) d data"
    by (auto dest: view_cong)
  with Inr assms(3) u show ?thesis
    by (auto simp: s3_put_ar_def split: sum.splits)
qed

end

text \<open>The S3 store meets the store contract whenever the bucket behaves as documented.\<close>

sublocale s3_bucket \<subseteq> s3_blobs: blob_store "s3_ops cl cfg pb" pb winv good_digest "s3_view objs cfg"
proof (unfold_locales, goal_cases)
  case (1 d)
  then show ?case by (auto simp: validate_ok good_digest_def valid_hash_plain)
next
  case (2 s d rc s')
  then show ?case using s3_contains_law [of s d rc s'] by simp
next
  case (3 s d rg s')
  then show ?case using s3_get_law [of s d rg s'] by simp
next
  case (4 s d off lim rr s')
  then show ?case using s3_reader_law [of s d off lim rr s'] by auto
next
  case (5 s d b ru s')
  then show ?case using s3_put_law [of s d b ru s'] by simp
next
  case (6 s d n rd ru s' b)
  then show ?case using s3_put_stream_law [of s d n rd ru s' b] by simp
next
  case (7 s d ra s')
  then show ?case using s3_get_ar_law [of s d ra s'] by simp
next
  case (8 s d ar ru s')
  then show ?case using s3_put_ar_law [of s d ar ru s'] by simp
qed

subsection \<open>A reference bucket\<close>

text \<open>
  A bucket as S3 documents it, with a schedule of faults: a call whose turn is marked fails
  with a connection error.  A range past the end answers \<^verbatim>\<open>InvalidRange\<close>, and a \<^verbatim>\<open>Range\<close> header
  that is no range is ignored, so that the whole object is delivered.
\<close>

record bucket =
  bk_objs :: "string \<Rightarrow> string \<Rightarrow> bytes option"
  bk_faults :: "bool list"

definition empty_bucket :: bucket where
  "empty_bucket = \<lparr>bk_objs = (\<lambda>b k. None), bk_faults = []\<rparr>"

definition bk_next :: "bucket \<Rightarrow> bool \<times> bucket" where
  "bk_next w =
     (case bk_faults w of [] \<Rightarrow> (False, w) | f # fs \<Rightarrow> (f, w\<lparr>bk_faults := fs\<rparr>))"

lemma bk_next_objs [simp]: "bk_next w = (f, w') \<Longrightarrow> bk_objs w' = bk_objs w"
  by (auto simp: bk_next_def split: list.splits)

definition conn_error :: aws_error where
  "conn_error = OperationError ''https response error'' (OtherError ''connection reset'')"

lemma conn_error_kind [simp]: "\<not> is_not_found conn_error"
  by (simp add: conn_error_def is_not_found_def)

definition nat_of_dec :: "string \<Rightarrow> nat" where
  "nat_of_dec s = foldl (\<lambda>n c. 10 * n + (case dec_value c of None \<Rightarrow> 0 | Some d \<Rightarrow> d)) 0 s"

lemma nat_of_dec_dec [simp]: "nat_of_dec (dec n) = n"
proof (induction n rule: dec.induct)
  case (1 n)
  then show ?case
    by (cases "n < 10") (simp_all add: dec.simps [of n] nat_of_dec_def)
qed

lemma dec_no_dash: "CHR ''-'' \<notin> set (dec n)"
proof (induction n rule: dec.induct)
  case (1 n)
  then show ?case
    by (cases "n < 10") (auto simp: dec.simps [of n] dest: sym)
qed

definition serve_range :: "string option \<Rightarrow> bytes \<Rightarrow> aws_error + bytes" where
  "serve_range rng ob =
     (case rng of
        None \<Rightarrow> Inr ob
      | Some r \<Rightarrow>
          (case split_on (CHR ''-'') (drop 6 r) of
             [n, m] \<Rightarrow>
               if length ob \<le> nat_of_dec n then Inl (APIError ''InvalidRange'')
               else if m = '''' then Inr (drop (nat_of_dec n) ob)
               else if nat_of_dec n \<le> nat_of_dec m
               then Inr (take (nat_of_dec m - nat_of_dec n + 1) (drop (nat_of_dec n) ob))
               else Inr ob
           | _ \<Rightarrow> Inr ob))"

lemma serve_from: "serve_range (Some (range_from n)) ob = Inr x \<Longrightarrow> x = drop n ob"
  by (simp add: serve_range_def range_from_def split_on_step dec_no_dash split: if_splits)

lemma serve_between:
  "serve_range (Some (range_between n m)) ob = Inr x \<Longrightarrow> n \<le> m \<Longrightarrow> x = take (m - n + 1) (drop n ob)"
  by (simp add: serve_range_def range_between_def split_on_step split_on_no_sep dec_no_dash
      split: if_splits)

lemma serve_error: "serve_range rng ob = Inl e \<Longrightarrow> \<not> is_not_found e"
  by (auto simp: serve_range_def is_not_found_def split: option.splits list.splits if_splits)

definition bk_head :: "bucket \<Rightarrow> string \<Rightarrow> string \<Rightarrow> (aws_error + unit) \<times> bucket" where
  "bk_head w b k =
     (let (f, w') = bk_next w
      in if f then (Inl conn_error, w')
         else case bk_objs w b k of
                None \<Rightarrow> (Inl (OperationError ''S3: HeadObject'' NotFoundType), w')
              | Some ob \<Rightarrow> (Inr (), w'))"

definition bk_get ::
    "bucket \<Rightarrow> string \<Rightarrow> string \<Rightarrow> string option \<Rightarrow> (aws_error + reader) \<times> bucket" where
  "bk_get w b k rng =
     (let (f, w') = bk_next w
      in if f then (Inl conn_error, w')
         else case bk_objs w b k of
                None \<Rightarrow> (Inl (OperationError ''S3: GetObject'' NoSuchKey), w')
              | Some ob \<Rightarrow>
                  (case serve_range rng ob of
                     Inl e \<Rightarrow> (Inl e, w')
                   | Inr x \<Rightarrow> (Inr (bytes_reader x), w')))"

definition bk_put :: "bucket \<Rightarrow> string \<Rightarrow> string \<Rightarrow> bytes \<Rightarrow> (aws_error + unit) \<times> bucket" where
  "bk_put w b k x =
     (let (f, w') = bk_next w
      in if f then (Inl conn_error, w')
         else (Inr (), w'\<lparr>bk_objs := (bk_objs w')(b := (bk_objs w' b)(k \<mapsto> x))\<rparr>))"

definition bk_upload :: "bucket \<Rightarrow> string \<Rightarrow> string \<Rightarrow> reader \<Rightarrow> (aws_error + unit) \<times> bucket" where
  "bk_upload w b k rd =
     (case read_all rd of
        Ok x \<Rightarrow> bk_put w b k x
      | _ \<Rightarrow> (Inl (OtherError ''read body''), w))"

definition bucket_client :: "bucket s3_client" where
  "bucket_client =
     \<lparr>head_object = bk_head, get_object = bk_get, put_object = bk_put, upload = bk_upload\<rparr>"

lemma bucket_client_sel [simp]:
  "head_object bucket_client = bk_head" "get_object bucket_client = bk_get"
  "put_object bucket_client = bk_put" "upload bucket_client = bk_upload"
  by (simp_all add: bucket_client_def)

lemma bk_get_ok:
  "bk_get w b k rng = (Inr body, w') \<Longrightarrow>
    \<exists>ob x. bk_objs w b k = Some ob \<and> serve_range rng ob = Inr x \<and> body = bytes_reader x"
  by (auto simp: bk_get_def Let_def split: prod.splits if_splits option.splits sum.splits)

lemma bk_get_state:
  "bk_get w b k rng = (r, w') \<Longrightarrow> bk_objs w' = bk_objs w"
  by (auto simp: bk_get_def Let_def split: prod.splits if_splits option.splits sum.splits)

lemma bk_get_err:
  "bk_get w b k rng = (Inl e, w') \<Longrightarrow> is_not_found e \<Longrightarrow> bk_objs w b k = None"
  by (auto simp: bk_get_def Let_def split: prod.splits if_splits option.splits sum.splits
      dest: serve_error)

lemma bk_put_law:
  "bk_put w b k x = (r, w') \<Longrightarrow>
    (\<forall>u. r = Inr u \<longrightarrow> bk_objs w' = (bk_objs w)(b := (bk_objs w b)(k \<mapsto> x))) \<and>
    (bk_objs w' = bk_objs w \<or> bk_objs w' = (bk_objs w)(b := (bk_objs w b)(k \<mapsto> x)))"
  by (auto simp: bk_put_def Let_def split: prod.splits if_splits)

interpretation ref_s3: s3_bucket bucket_client "\<lambda>_. True" bk_objs cfg pb
  for cfg :: s3_config and pb :: codec
proof (unfold_locales, goal_cases)
  case (1 w b k rh w')
  then show ?case
    by (auto simp: bk_head_def Let_def split: prod.splits if_splits option.splits)
next
  case (2 w b k rng ro w')
  then show ?case by (auto dest: bk_get_ok bk_get_state bk_get_err)
next
  case (3 w b k body w' x)
  then show ?case by (auto simp: serve_range_def dest!: bk_get_ok)
next
  case (4 w b k n body w' x ob)
  then show ?case by (auto dest!: bk_get_ok serve_from)
next
  case (5 w b k n m body w' x ob)
  then show ?case by (auto dest!: bk_get_ok serve_between)
next
  case (6 w b k x rp w')
  then show ?case using bk_put_law [of w b k x rp w'] by simp
next
  case (7 w b k rd rp w' x)
  then show ?case using bk_put_law [of w b k x rp w'] by (simp add: bk_upload_def)
qed

subsection \<open>Properties\<close>

definition example_cfg :: s3_config where
  "example_cfg = \<lparr>s3_bucket_name = ''farm'', s3_prefix = ''a/./b''\<rparr>"

definition aa_digest :: digest_ptr where
  "aa_digest = Some \<lparr>d_hash = ''aa'', d_size = 3\<rparr>"

definition aa_bucket :: bucket where
  "aa_bucket = \<lparr>bk_objs = (\<lambda>b k. None)(''farm'' := [''a/b/cas/aa'' \<mapsto> [1, 2, 3]]), bk_faults = []\<rparr>"

lemma aa_key: "blob_key example_cfg aa_digest = ''a/b/cas/aa''"
  by (simp add: blob_key_def example_cfg_def aa_digest_def path_join_def path_clean_def
      clean_parts_def clean_step_def rooted_def dot_def dotdot_def)

lemma aa_good [simp]: "good_digest aa_digest" "\<not> is_empty aa_digest"
  by (simp_all add: good_digest_def aa_digest_def plain_name_def dot_def dotdot_def is_empty_def)

lemma aa_put:
  "s3_put bucket_client example_cfg empty_bucket aa_digest [1, 2, 3] = (Ok (), aa_bucket)"
  by (simp add: s3_put_def s3_put_stream_def aa_key bk_upload_def bk_put_def bk_next_def
      empty_bucket_def aa_bucket_def) (simp add: example_cfg_def)

lemma aa_reader:
  "s3_reader bucket_client example_cfg aa_bucket aa_digest 1 1 = (Ok (bytes_reader [2]), aa_bucket)"
proof -
  have "byte_range 1 1 = range_between 1 1"
    using byte_range_cases [of 1 1] by (simp add: good_range_def)
  moreover have "byte_range 1 1 \<noteq> ''''" by (simp add: calculation range_between_def)
  moreover have "serve_range (Some (range_between 1 1)) [1, 2, 3] = Inr [2]"
    by (simp add: serve_range_def range_between_def split_on_step split_on_no_sep dec_no_dash)
  ultimately show ?thesis
    by (simp add: s3_reader_def aa_key bk_get_def bk_next_def aa_bucket_def Let_def)
       (simp add: example_cfg_def)
qed

lemma aa_get: "s3_get bucket_client example_cfg aa_bucket aa_digest = (Ok [1, 2, 3], aa_bucket)"
  by (simp add: s3_get_def s3_reader_def byte_range_def aa_key bk_get_def bk_next_def aa_bucket_def
      serve_range_def) (simp add: example_cfg_def)

text \<open>
  For digests whose hash is one plain path element (every valid digest), the object keys of
  the S3 layout separate: equal blob keys and equal action-cache keys have equal hashes, and no
  blob key is an action-cache key.
\<close>

lemma s3_keys_separate:
  assumes "good_digest d" and "good_digest d'"
  shows "(blob_key cfg d = blob_key cfg d' \<longleftrightarrow> get_hash d = get_hash d') \<and>
    (ac_key cfg d = ac_key cfg d' \<longleftrightarrow> get_hash d = get_hash d') \<and>
    blob_key cfg d \<noteq> ac_key cfg d'"
  using assms object_key_inject [OF plain_segments(1)] object_key_inject [OF plain_segments(2)]
    object_key_disjoint
  unfolding good_digest_def blob_key_def ac_key_def by metis

text \<open>
  Without validation object keys do not separate: \<^verbatim>\<open>path.Join\<close> cleans the key, so a digest whose hash climbs
  out of the blob directory names an action-cache entry, and \<^verbatim>\<open>Get\<close> serves that entry's bytes as a
  blob.
\<close>

theorem s3_key_traversal:
  "blob_key cfg (Some \<lparr>d_hash = ''../ac/'' @ h, d_size = n\<rparr>) =
     ac_key cfg (Some \<lparr>d_hash = h, d_size = n'\<rparr>)"
proof -
  let ?c = "CHR ''/''"
  have climb: "foldl (clean_step r) st (''cas'' # ''..'' # ''ac'' # split_on ?c h) =
      foldl (clean_step r) st (''ac'' # split_on ?c h)" for r st
    by (simp add: clean_step_def dot_def dotdot_def)
  have parts: "split_on ?c (''cas/../ac/'' @ h) = ''cas'' # ''..'' # ''ac'' # split_on ?c h"
    "split_on ?c (''ac/'' @ h) = ''ac'' # split_on ?c h"
    by simp_all
  show ?thesis
  proof (cases "s3_prefix cfg = ''''")
    case True
    then show ?thesis
      using parts climb
      by (simp add: blob_key_def ac_key_def path_join_def path_clean_def clean_parts_def rooted_def)
  next
    case False
    have p: "split_on ?c (s3_prefix cfg @ ?c # ''cas'' @ ?c # ''../ac/'' @ h) =
        split_on ?c (s3_prefix cfg) @ ''cas'' # ''..'' # ''ac'' # split_on ?c h"
      "split_on ?c (s3_prefix cfg @ ?c # ''ac'' @ ?c # h) =
        split_on ?c (s3_prefix cfg) @ ''ac'' # split_on ?c h"
      by (simp_all add: split_on_append)
    show ?thesis
      using False p climb
      by (simp add: blob_key_def ac_key_def path_join_def path_clean_def clean_parts_def rooted_def
          foldl_append)
  qed
qed

text \<open>
  C16.  The S3 store over a bucket that behaves as documented, connection failures included: a
  blob that was put is what a later successful \<^verbatim>\<open>Get\<close> of the digest returns, a put never changes
  what is stored under another hash, which is what \<^verbatim>\<open>Get\<close> returns there, or in the action cache,
  and a blob that is present is never reported missing.
\<close>

theorem s3_get_after_put:
  assumes "good_digest d" and "good_digest d'"
    and "s3_put bucket_client cfg w d b = (Ok (), w1)"
    and "s3_get bucket_client cfg w1 d' = (r, w2)"
  shows "r \<noteq> Panic \<and> (get_hash d' = get_hash d \<and> \<not> is_empty d \<and> \<not> is_empty d' \<longrightarrow> r \<noteq> Err ErrNotFound \<and>
      (\<forall>b'. r = Ok b' \<longrightarrow> b' = b)) \<and>
    (get_hash d' \<noteq> get_hash d \<longrightarrow>
      lookup_blob (s3_view bk_objs cfg w1) d' = lookup_blob (s3_view bk_objs cfg w) d' \<and>
      (not_found r \<longrightarrow> lookup_blob (s3_view bk_objs cfg w) d' = None) \<and>
      (\<forall>b'. r = Ok b' \<longrightarrow> lookup_blob (s3_view bk_objs cfg w) d' = Some b')) \<and>
    v_acs (s3_view bk_objs cfg w1) = v_acs (s3_view bk_objs cfg w)"
proof -
  have v: "s3_view bk_objs cfg w1 = put_blob (s3_view bk_objs cfg w) d b"
    using ref_s3.s3_put_law [OF _ assms(1,3)] by simp
  have g: "r \<noteq> Panic" "\<forall>b'. r = Ok b' \<longrightarrow> lookup_blob (s3_view bk_objs cfg w1) d' = Some b'"
    "not_found r \<longrightarrow> lookup_blob (s3_view bk_objs cfg w1) d' = None"
    using ref_s3.s3_get_law [OF _ assms(2,4)] by simp_all
  have same: "lookup_blob (s3_view bk_objs cfg w1) d' = Some b"
    if "get_hash d' = get_hash d" "\<not> is_empty d" "\<not> is_empty d'"
    using that by (simp add: v lookup_blob_def put_blob_def)
  show ?thesis
    using g same lookup_put_other [of d d' "s3_view bk_objs cfg w" b] by (auto simp: v)
qed

theorem s3_get_after_put_witness:
  "(Ok [1, 2, 3] :: bytes res) \<noteq> Err ErrNotFound \<and>
    v_acs (s3_view bk_objs example_cfg aa_bucket) = v_acs (s3_view bk_objs example_cfg empty_bucket)"
  using s3_get_after_put [OF _ _ aa_put aa_get] by simp

text \<open>
  For a range inside \<^verbatim>\<open>int64\<close> the S3 store asks for, and its reader delivers, exactly the
  window that the in-memory store cuts: the two stores agree on \<^verbatim>\<open>read_offset\<close> and
  \<^verbatim>\<open>read_limit\<close>.
\<close>

lemma s3_reader_window:
  assumes "good_digest d" and "good_range off lim" and "\<not> is_empty d"
    and "s3_reader bucket_client cfg w d off lim = (Ok rd, w')" and "read_all rd = Ok x"
  shows "\<exists>b. bk_objs w (s3_bucket_name cfg) (blob_key cfg d) = Some b \<and> x = window off lim b"
proof -
  have "\<exists>b. lookup_blob (s3_view bk_objs cfg w) d = Some b \<and> x = window off lim b"
    using ref_s3.s3_reader_law [OF _ assms(1,2,4)] assms(5) by auto
  then show ?thesis
    using ref_s3.view_blob [OF assms(1)] assms(3) by (simp add: lookup_blob_def)
qed

text \<open>
  \<^verbatim>\<open>byteRange\<close> computes \<^verbatim>\<open>offset+limit-1\<close> in \<^verbatim>\<open>int64\<close>: for an offset of 2 and the largest
  limit the sum wraps, the header ends in a negative number, and a bucket that ignores it as
  malformed delivers the whole object instead of the window from offset 2.
\<close>

lemma byte_range_overflow:
  "byte_range 2 9223372036854775807 = ''bytes=2--9223372036854775808'' \<and>
    serve_range (Some (byte_range 2 9223372036854775807)) [5, 6, 7, 8] = Inr [5, 6, 7, 8] \<and>
    window 2 9223372036854775807 [5, 6, 7, 8] = [7, 8]"
proof -
  have lim: "sint (9223372036854775807 :: int64) = 9223372036854775807" by simp
  have sum: "sint (2 + 9223372036854775807 - 1 :: int64) = - 9223372036854775808" by simp
  have "dec 2 = ''2''" "dec 9223372036854775808 = ''9223372036854775808''" by (simp_all add: dec.simps dec_digit_def char_of_def bit_0)
  then have b: "byte_range 2 9223372036854775807 = ''bytes=2--9223372036854775808''"
    unfolding byte_range_def show_int64_def sum lim by (simp add: show_int_def)
  have "serve_range (Some (byte_range 2 9223372036854775807)) [5, 6, 7, 8] = Inr [5, 6, 7, 8]"
    unfolding b by (simp add: serve_range_def)
  moreover have "window 2 9223372036854775807 [5, 6, 7, 8] = [7, 8]"
    unfolding window_def lim by simp
  ultimately show ?thesis using b by blast
qed

end
