(* ===== verification/Agent.thy ===== *)
theory Agent
  imports CasCapture S3Store Task
begin

text \<open>
  \<^verbatim>\<open>cmd/executor-agent\<close>: the HTTP server inside a MicroVM.  The state is the VM's file system and
  the state \<open>'s\<close> the bucket lives in.  Parameters (record \<open>agent_env\<close>): the AWS configuration
  and client, the protobuf codec, the JSON text, the name \<^verbatim>\<open>os.MkdirTemp\<close> picks, the process that
  runs the command (what it does to the file system and how it ends), the clock readings and the
  agent's \<^verbatim>\<open>PATH\<close>.  The nesting of directories is bounded by a fuel \<open>n\<close>.
\<close>

subsection \<open>Processes\<close>

record proc =
  p_args :: "string list"
  p_dir :: fspath
  p_env :: "string list"
  p_timeout :: "int64 option"
  p_stdout :: fspath
  p_stderr :: fspath

text \<open>
  What \<^verbatim>\<open>cmd.Run\<close> returns: nil, an \<^verbatim>\<open>exec.ExitError\<close> with its exit code (-1 when a signal ended
  the process), or another error.
\<close>

datatype run_result = RunOk | RunExit int64 | RunErr err

record 's agent_env =
  ag_config :: "string \<Rightarrow> err option"
  ag_client :: "string \<Rightarrow> 's s3_client"
  ag_codec :: codec
  ag_json :: json_text
  ag_tmp :: "fs \<Rightarrow> string"
  ag_run :: "proc \<Rightarrow> fs \<Rightarrow> (run_result \<times> bool) \<times> fs"
  ag_clock :: "int \<times> int"
  ag_path :: string

text \<open>
  The second component of \<open>ag_run\<close>'s answer is \<^verbatim>\<open>errors.Is(runCtx.Err(), context.DeadlineExceeded)\<close>
  after the run.
\<close>

subsection \<open>The environment and the expected outputs\<close>

definition build_env :: "string \<Rightarrow> env_var list \<Rightarrow> string list" where
  "build_env path vars =
     (let env = map (\<lambda>v. ev_name v @ ''='' @ ev_value v) vars
      in if list_ex (\<lambda>v. ev_name v = ''PATH'') vars then env
         else if path \<noteq> '''' then env @ [''PATH='' @ path]
         else env @ [''PATH=/usr/local/sbin:/usr/local/bin:/usr/sbin:/usr/bin:/sbin:/bin''])"

definition output_paths :: "command \<Rightarrow> string list" where
  "output_paths c =
     (if 0 < length (c_output_paths c) then c_output_paths c
      else c_output_files c @ c_output_directories c)"

subsection \<open>Uploading the results\<close>

definition attach_stream ::
    "'s putter \<Rightarrow> action_result \<Rightarrow> fspath \<Rightarrow> bool \<Rightarrow> fs \<times> 's \<Rightarrow> action_result res \<times> fs \<times> 's" where
  "attach_stream put ar file is_stderr w =
     (case w of (h, s) \<Rightarrow>
       and_then (os_read_file h file, h, s) (\<lambda>data (h, s).
         let d = Some (from_bytes data)
         in and_then (on_snd h (put s d data)) (\<lambda>_ w.
              (Ok (if is_stderr then ar\<lparr>ar_stderr_digest := d\<rparr> else ar\<lparr>ar_stdout_digest := d\<rparr>), w))))"

text \<open>One output: a missing one is skipped.\<close>

definition capture_output ::
    "codec \<Rightarrow> 's putter \<Rightarrow> nat \<Rightarrow> fspath \<Rightarrow> string \<Rightarrow> action_result \<Rightarrow> fs \<times> 's \<Rightarrow>
      (action_result res \<times> fs \<times> 's) option" where
  "capture_output pb put n dir p ar w =
     (case w of (h, s) \<Rightarrow>
       let full = join_path dir p
       in case os_lstat h full of
            Err e \<Rightarrow>
              Some (if error_is e enoent then (Ok ar, w) else (Err (Wrapf ''stat output %q: %w'' [p] e), w))
          | Panic \<Rightarrow> Some (Panic, w)
          | Ok info \<Rightarrow>
              if is_link info then
                Some (and_then (os_readlink h full, w) (\<lambda>target w.
                  (Ok (ar\<lparr>ar_output_symlinks := ar_output_symlinks ar @ [\<lparr>os_path = p, os_target = target\<rparr>]\<rparr>), w)))
              else if is_dir info then
                (case capture_directory pb put h n p full s of
                   None \<Rightarrow> None
                 | Some r \<Rightarrow>
                     Some (and_then (wrap_err ''capture output dir %q: %w'' [p] (on_snd h r)) (\<lambda>od w.
                       (Ok (ar\<lparr>ar_output_directories := ar_output_directories ar @ [od]\<rparr>), w))))
              else
                Some (and_then (wrap_err ''capture output file %q: %w'' [p]
                                  (on_snd h (capture_file put h p full (is_exec info) s))) (\<lambda>f w.
                  (Ok (ar\<lparr>ar_output_files := ar_output_files ar @ [f]\<rparr>), w))))"

fun capture_paths ::
    "codec \<Rightarrow> 's putter \<Rightarrow> nat \<Rightarrow> fspath \<Rightarrow> string list \<Rightarrow> action_result \<Rightarrow> fs \<times> 's \<Rightarrow>
      (action_result res \<times> fs \<times> 's) option" where
  "capture_paths pb put n dir [] ar w = Some (Ok ar, w)"
| "capture_paths pb put n dir (p # ps) ar w =
     (case capture_output pb put n dir p ar w of
        None \<Rightarrow> None
      | Some (Ok ar', w') \<Rightarrow> capture_paths pb put n dir ps ar' w'
      | Some (r, w') \<Rightarrow> Some (r, w'))"

definition capture_outputs ::
    "codec \<Rightarrow> 's putter \<Rightarrow> nat \<Rightarrow> action_result \<Rightarrow> command \<Rightarrow> fspath \<Rightarrow> fs \<times> 's \<Rightarrow>
      (action_result res \<times> fs \<times> 's) option" where
  "capture_outputs pb put n ar command dir w =
     capture_paths pb put n dir (output_paths command) ar w"

subsection \<open>Running a task\<close>

text \<open>
  \<^verbatim>\<open>time.Duration(t.TimeoutSeconds) * time.Second\<close>, which wraps around; a value that is not
  positive sets no limit.
\<close>

definition task_timeout :: "execute_task \<Rightarrow> int64 option" where
  "task_timeout t = (if 0 < sint (t_timeout t) then Some (t_timeout t * 1000000000) else None)"

definition exit_code :: "run_result \<Rightarrow> bool \<Rightarrow> int32 res" where
  "exit_code r deadline =
     (case r of
        RunOk \<Rightarrow> Ok 0
      | RunExit c \<Rightarrow> Ok (ucast c)
      | RunErr e \<Rightarrow> if deadline then Ok 124 else Err (Wrapf ''start command: %w'' [] e))"

definition os_create :: "fs \<Rightarrow> fspath \<Rightarrow> unit res \<times> fs" where
  "os_create h p = os_change h True ''open'' p (overwrite [] False)"

definition new_result :: "int \<times> int \<Rightarrow> int32 \<Rightarrow> action_result" where
  "new_result clock code =
     \<lparr>ar_output_files = [], ar_output_directories = [], ar_output_symlinks = [], ar_exit_code = code,
      ar_stdout_digest = None, ar_stderr_digest = None,
      ar_metadata = Some \<lparr>em_worker = ''lambda-microvm'', em_worker_start = fst clock,
        em_worker_completed = snd clock, em_exec_start = fst clock, em_exec_completed = snd clock\<rparr>\<rparr>"

text \<open>The directory the command runs in, and the process made of it.\<close>

definition exec_dir :: "command \<Rightarrow> fspath \<Rightarrow> fspath" where
  "exec_dir command work_dir =
     (if c_working_directory command = '''' then work_dir
      else join_path work_dir (c_working_directory command))"

definition make_proc :: "'s agent_env \<Rightarrow> execute_task \<Rightarrow> command \<Rightarrow> fspath \<Rightarrow> proc" where
  "make_proc env t command work_dir =
     \<lparr>p_args = c_arguments command, p_dir = exec_dir command work_dir,
      p_env = build_env (ag_path env) (c_environment command), p_timeout = task_timeout t,
      p_stdout = join_path work_dir ''.stdout'', p_stderr = join_path work_dir ''.stderr''\<rparr>"

text \<open>From the created work directory with its inputs to the result.\<close>

definition run_process ::
    "'s agent_env \<Rightarrow> 's store \<Rightarrow> proc \<Rightarrow> fs \<times> 's \<Rightarrow> action_result res \<times> fs \<times> 's" where
  "run_process env st p w =
     (case w of (h, s) \<Rightarrow>
       and_then (on_fst (os_create h (p_stdout p)) s) (\<lambda>_ (h, s).
       and_then (on_fst (os_create h (p_stderr p)) s) (\<lambda>_ (h, s).
         case ag_run env p h of
           ((r, deadline), h') \<Rightarrow>
             and_then (exit_code r deadline, h', s) (\<lambda>code w.
             and_then (attach_stream (st_put st) (new_result (ag_clock env) code) (p_stdout p) False w)
               (\<lambda>ar w. attach_stream (st_put st) ar (p_stderr p) True w)))))"

definition run_in ::
    "'s agent_env \<Rightarrow> nat \<Rightarrow> 's store \<Rightarrow> execute_task \<Rightarrow> command \<Rightarrow> fspath \<Rightarrow> fs \<times> 's \<Rightarrow>
      (action_result res \<times> fs \<times> 's) option" where
  "run_in env n st t command work_dir w =
     (case run_process env st (make_proc env t command work_dir) w of
        (Ok ar, w') \<Rightarrow>
          capture_outputs (ag_codec env) (st_put st) n ar command (exec_dir command work_dir) w'
      | (r, w') \<Rightarrow> Some (r, w'))"

text \<open>The deferred \<^verbatim>\<open>os.RemoveAll(workDir)\<close>, whose error is dropped.\<close>

definition cleanup :: "fspath \<Rightarrow> 'a res \<times> fs \<times> 's \<Rightarrow> 'a res \<times> fs \<times> 's" where
  "cleanup work_dir x = (case x of (r, h, s) \<Rightarrow> (r, snd (os_remove_all h work_dir), s))"

definition run_with_inputs ::
    "'s agent_env \<Rightarrow> nat \<Rightarrow> 's store \<Rightarrow> execute_task \<Rightarrow> command \<Rightarrow> fspath \<Rightarrow> fs \<times> 's \<Rightarrow>
      (action_result res \<times> fs \<times> 's) option" where
  "run_with_inputs env n st t command work_dir w =
     (let root = Some \<lparr>d_hash = t_root_hash t, d_size = t_root_size t\<rparr>
      in case materialize (ag_codec env) (st_get st) n root work_dir w of
           None \<Rightarrow> None
         | Some (Ok _, w') \<Rightarrow> run_in env n st t command work_dir w'
         | Some (Err e, w') \<Rightarrow> Some (Err (Wrapf ''materialize inputs: %w'' [] e), w')
         | Some (Panic, w') \<Rightarrow> Some (Panic, w'))"

definition task_store :: "'s agent_env \<Rightarrow> execute_task \<Rightarrow> 's store" where
  "task_store env t =
     s3_ops (ag_client env (t_region t)) \<lparr>s3_bucket_name = t_bucket t, s3_prefix = t_prefix t\<rparr> (ag_codec env)"

definition run_task ::
    "'s agent_env \<Rightarrow> nat \<Rightarrow> execute_task \<Rightarrow> fs \<times> 's \<Rightarrow> (action_result res \<times> fs \<times> 's) option" where
  "run_task env n t w =
     (case ag_config env (t_region t) of
        Some e \<Rightarrow> Some (Err (Wrapf ''load AWS config: %w'' [] e), w)
      | None \<Rightarrow>
          (case unmarshal_cmd (ag_codec env) (t_command t) of
             Inl e \<Rightarrow> Some (Err (Wrapf ''unmarshal command: %w'' [] (Ext e)), w)
           | Inr command \<Rightarrow>
               if length (c_arguments command) = 0 then
                 Some (Err (Errorf ''command has no arguments'' []), w)
               else
                 (let work_dir = [''tmp'', ''buildfarm-action-'' @ ag_tmp env (fst w)]
                  in case os_mkdir (fst w) work_dir of
                       (Ok _, h) \<Rightarrow>
                         map_option (cleanup work_dir)
                           (run_with_inputs env n (task_store env t) t command work_dir (h, snd w))
                     | (Err e, h) \<Rightarrow> Some (Err e, h, snd w)
                     | (Panic, h) \<Rightarrow> Some (Panic, h, snd w))))"

subsection \<open>The HTTP server\<close>

record http_response =
  hr_status :: nat
  hr_json :: bool
  hr_body :: bytes

definition plain_response :: "nat \<Rightarrow> string \<Rightarrow> http_response" where
  "plain_response code s = \<lparr>hr_status = code, hr_json = False, hr_body = text_bytes s\<rparr>"

definition write_result :: "json_text \<Rightarrow> execute_result \<Rightarrow> http_response" where
  "write_result jt r =
     \<lparr>hr_status = 200, hr_json = True, hr_body = jt_render jt (json_of_result r) @ [10]\<rparr>"

definition error_result :: "string \<Rightarrow> execute_result" where
  "error_result e = \<lparr>tr_action_result = [], tr_error = e\<rparr>"

definition decode_task :: "json_text \<Rightarrow> bytes \<Rightarrow> string + execute_task" where
  "decode_task jt body = (case jt_first jt body of Inl e \<Rightarrow> Inl e | Inr j \<Rightarrow> task_of_json j)"

definition handle_execute ::
    "'s agent_env \<Rightarrow> nat \<Rightarrow> string \<Rightarrow> bytes \<Rightarrow> fs \<times> 's \<Rightarrow> (http_response res \<times> fs \<times> 's) option" where
  "handle_execute env n verb body w =
     (if verb \<noteq> ''POST'' then
        Some (Ok (plain_response 405 (''method not allowed'' @ [CHR 0x0A])), w)
      else case decode_task (ag_json env) body of
             Inl e \<Rightarrow>
               Some (Ok (write_result (ag_json env) (error_result (''decode task: '' @ e))), w)
           | Inr t \<Rightarrow>
               (case run_task env n t w of
                  None \<Rightarrow> None
                | Some (Err e, w') \<Rightarrow> Some (Ok (write_result (ag_json env) (error_result (error_text e))), w')
                | Some (Panic, w') \<Rightarrow> Some (Panic, w')
                | Some (Ok ar, w') \<Rightarrow>
                    (case marshal_ar (ag_codec env) ar of
                       Inl e \<Rightarrow>
                         Some (Ok (write_result (ag_json env)
                                     (error_result (''marshal action result: '' @ e))), w')
                     | Inr data \<Rightarrow>
                         Some (Ok (write_result (ag_json env)
                                     \<lparr>tr_action_result = data, tr_error = ''''\<rparr>), w'))))"

text \<open>
  The routes of \<^verbatim>\<open>main\<close>, for exact paths: readiness, execution and the lifecycle hooks of the
  platform; \<open>main_port\<close> is the port it listens on.
\<close>

definition hook_paths :: "string list" where
  "hook_paths = map (\<lambda>h. ''/aws/lambda-microvms/runtime/v1/'' @ h)
     [''run'', ''resume'', ''suspend'', ''terminate'', ''ready'', ''validate'']"

definition agent_serve ::
    "'s agent_env \<Rightarrow> nat \<Rightarrow> string \<Rightarrow> string \<Rightarrow> bytes \<Rightarrow> fs \<times> 's \<Rightarrow> (http_response res \<times> fs \<times> 's) option" where
  "agent_serve env n verb url_path body w =
     (if url_path = health_path then Some (Ok (plain_response 200 ''''), w)
      else if url_path = execute_path then handle_execute env n verb body w
      else if url_path \<in> set hook_paths then Some (Ok (plain_response 200 ''''), w)
      else Some (Ok (plain_response 404 (''404 page not found'' @ [CHR 0x0A])), w))"

definition main_port :: "string \<Rightarrow> string" where
  "main_port port = (if port = '''' then ''8080'' else port)"

end
