(* ===== verification/AgentLaws.thy ===== *)
theory AgentLaws
  imports Agent
begin

text \<open>
  What the agent does to the bucket and to its file system, whatever the inputs, the command and
  the faults: it does not panic, it only makes blobs (locale \<open>agent_bucket\<close>), it describes the
  outputs truthfully, and it removes its work directory.
\<close>

subsection \<open>File system calls do not panic\<close>

lemma overwrite_no_panic [simp]: "overwrite b e x \<noteq> Panic"
  by (cases x; cases "the x") simp_all

lemma create_only_no_panic [simp]: "create_only n x \<noteq> Panic"
  by (cases x) simp_all

lemma change_no_panic: "(\<And>x. how x \<noteq> Panic) \<Longrightarrow> os_change h fl call p how = (r, h') \<Longrightarrow> r \<noteq> Panic"
  by (auto simp: os_change_def split: option.splits res.splits)

lemma os_no_panic:
  "os_write_file h p b e = (r, h') \<Longrightarrow> r \<noteq> Panic" "os_symlink h t p = (r, h') \<Longrightarrow> r \<noteq> Panic"
  "os_mkdir h p = (r, h') \<Longrightarrow> r \<noteq> Panic" "os_create h p = (r, h') \<Longrightarrow> r \<noteq> Panic"
  by (auto simp: os_write_file_def os_symlink_def os_mkdir_def os_create_def split: if_splits
      dest: change_no_panic [rotated])

lemma read_no_panic [simp]: "os_read_file h p \<noteq> Panic" "os_read_dir h p \<noteq> Panic" "os_readlink h p \<noteq> Panic"
  "os_lstat h p \<noteq> Panic"
  by (simp_all add: os_read_file_def os_read_dir_def os_readlink_def os_lstat_def split: res.split node.split)

lemma mkdir_all_no_panic: "os_mkdir_all h p = (r, h') \<Longrightarrow> r \<noteq> Panic"
proof -
  have last: "mkdir_last h p = (r, h') \<Longrightarrow> r \<noteq> Panic" for h p r h'
    using os_no_panic(3) [of h p] by (auto simp: mkdir_last_def split: prod.splits res.splits if_splits)
  have "mkdir_up q h = (r, h') \<Longrightarrow> r \<noteq> Panic" for q r h'
    by (induction q arbitrary: r h') (auto split: prod.splits res.splits if_splits dest: last)
  then show "os_mkdir_all h p = (r, h') \<Longrightarrow> r \<noteq> Panic" unfolding os_mkdir_all_def by blast
qed

lemma of_ext_pair_no_panic [simp]: "of_ext x \<noteq> Panic"
  by simp

subsection \<open>The agent only adds blobs\<close>

text \<open>
  \<open>keep s s'\<close>: what the calls of the agent preserve of the bucket.  Every store the agent opens,
  for any task, keeps it when it reads and when it puts bytes under their own digest.
\<close>

locale agent_bucket =
  fixes env :: "'s agent_env"
    and keep :: "'s \<Rightarrow> 's \<Rightarrow> bool"
    and kd :: "fs \<Rightarrow> fs \<Rightarrow> bool"
  assumes keep_refl [simp]: "keep s s"
    and keep_trans: "keep s s' \<Longrightarrow> keep s' s'' \<Longrightarrow> keep s s''"
    and get_keep: "st_get (task_store env t) s d = (rg, s') \<Longrightarrow> keep s s' \<and> rg \<noteq> Panic"
    and put_keep: "st_put (task_store env t) s (Some (from_bytes b)) b = (ru, s') \<Longrightarrow> keep s s' \<and> ru \<noteq> Panic"
    and kd_refl [simp]: "kd h h"
    and kd_trans: "kd h h' \<Longrightarrow> kd h' h'' \<Longrightarrow> kd h h''"
    and change_kd: "(\<And>es n. how (Some (Dir es)) \<noteq> Ok n) \<Longrightarrow> kd h (snd (os_change h fl call p how))"
    and run_kd: "kd h (snd (ag_run env q h))"
begin

text \<open>An outcome that keeps the bucket and is no panic, with the rules of the combinators.\<close>

definition safe :: "fs \<times> 's \<Rightarrow> 'a res \<times> fs \<times> 's \<Rightarrow> bool" where
  "safe w x \<longleftrightarrow> fst x \<noteq> Panic \<and> keep (snd w) (snd (snd x)) \<and> kd (fst w) (fst (snd x))"

definition safe_store :: "'s \<Rightarrow> 'a res \<times> 's \<Rightarrow> bool" where
  "safe_store s x \<longleftrightarrow> fst x \<noteq> Panic \<and> keep s (snd x)"

lemma safe_pair [simp]: "safe (h, s) (r, h', s') \<longleftrightarrow> r \<noteq> Panic \<and> keep s s' \<and> kd h h'"
  by (simp add: safe_def)

lemma safe_store_pair [simp]: "safe_store s (r, s') \<longleftrightarrow> r \<noteq> Panic \<and> keep s s'"
  by (simp add: safe_store_def)

lemma safe_and_then:
  "safe w x \<Longrightarrow> (\<And>a h' s'. safe (h', s') (k a (h', s'))) \<Longrightarrow> safe w (and_then x k)"
  by (cases "(x, k)" rule: and_then.cases) (auto simp: safe_def intro: keep_trans kd_trans)

lemma safe_and_then_same:
  "r \<noteq> Panic \<Longrightarrow> (\<And>a. safe (h, s) (k a (h, s))) \<Longrightarrow> safe (h, s) (and_then (r, h, s) k)"
  by (cases r) auto

lemma safe_store_and_then:
  "safe_store s x \<Longrightarrow> (\<And>a s'. safe_store s' (k a s')) \<Longrightarrow> safe_store s (and_then x k)"
  by (cases "(x, k)" rule: and_then.cases) (auto simp: safe_store_def intro: keep_trans)

lemma safe_wrap_err: "safe w x \<Longrightarrow> safe w (wrap_err f as x)"
  by (cases "(f, as, x)" rule: wrap_err.cases) (auto simp: safe_def)

lemma safe_on_fst: "fst x \<noteq> Panic \<Longrightarrow> kd h (snd x) \<Longrightarrow> safe (h, s) (on_fst x s)"
  by (simp add: on_fst_def)

lemma safe_on_snd: "safe_store s x \<Longrightarrow> safe (h, s) (on_snd h x)"
  by (simp add: on_snd_def safe_store_def)

lemma safe_get: "safe_store s (st_get (task_store env t) s d)"
  using get_keep [of t s d] by (cases "st_get (task_store env t) s d") simp

lemma safe_put: "safe_store s (st_put (task_store env t) s (Some (from_bytes b)) b)"
  using put_keep [of t s b] by (cases "st_put (task_store env t) s (Some (from_bytes b)) b") simp

lemma safe_trans: "safe w (r, h, s') \<Longrightarrow> safe (h, s') x \<Longrightarrow> safe w x"
  by (auto simp: safe_def intro: keep_trans kd_trans)

lemma fst_no_panic [simp]:
  "fst (os_write_file h p b e) \<noteq> Panic" "fst (os_symlink h t p) \<noteq> Panic" "fst (os_mkdir h p) \<noteq> Panic"
  "fst (os_create h p) \<noteq> Panic" "fst (os_mkdir_all h p) \<noteq> Panic"
  using os_no_panic mkdir_all_no_panic by (metis prod.collapse)+

lemma mkdir_kd [simp]: "kd h (snd (os_mkdir h p))"
  unfolding os_mkdir_def by (rule change_kd) simp

lemma fs_kd [simp]:
  "kd h (snd (os_write_file h p b e))" "kd h (snd (os_symlink h t p))" "kd h (snd (os_create h p))"
  unfolding os_write_file_def os_symlink_def os_create_def by (auto intro: change_kd)

lemma mkdir_all_kd [simp]: "kd h (snd (os_mkdir_all h p))"
proof -
  have last: "kd h (snd (mkdir_last h p))" for h p
  proof -
    obtain r h' where m: "os_mkdir h p = (r, h')" by fastforce
    have "kd h h'" using mkdir_kd [of h p] m by simp
    then show ?thesis by (auto simp: mkdir_last_def m split: res.splits if_splits)
  qed
  have "kd h (snd (mkdir_up q h))" for q
  proof (induction q)
    case (Cons x q)
    then show ?case
      using last by (auto split: prod.splits res.splits intro: kd_trans)
  qed (simp add: last)
  then show ?thesis unfolding os_mkdir_all_def .
qed

lemmas safe_rules = safe_and_then safe_wrap_err safe_on_fst safe_on_snd safe_get safe_put

lemma mat_files_safe: "safe w (mat_files (st_get (task_store env t)) dir fs w)"
proof (induction fs arbitrary: w)
  case Nil
  then show ?case by (cases w) simp
next
  case (Cons f fs)
  obtain h s where w: "w = (h, s)" by fastforce
  have IH: "safe (h', s') (mat_files (st_get (task_store env t)) dir fs (h', s'))" for h' s'
    using Cons [of "(h', s')"] by simp
  show ?case
    unfolding w mat_files.simps
    by (rule safe_and_then_same) (auto intro!: safe_rules IH)
qed

lemma mat_links_safe: "safe w (mat_links dir ls w)"
proof (induction ls arbitrary: w)
  case Nil
  then show ?case by (cases w) simp
next
  case (Cons l ls)
  obtain h s where w: "w = (h, s)" by fastforce
  have IH: "safe (h', s') (mat_links dir ls (h', s'))" for h' s'
    using Cons [of "(h', s')"] by simp
  show ?case
    unfolding w mat_links.simps
    by (rule safe_and_then_same) (auto intro!: safe_rules IH)
qed

definition safe_opt :: "fs \<times> 's \<Rightarrow> ('a res \<times> fs \<times> 's) option \<Rightarrow> bool" where
  "safe_opt w o' \<longleftrightarrow> (case o' of None \<Rightarrow> True | Some x \<Rightarrow> safe w x)"

lemma safe_opt_simps [simp]: "safe_opt w None" "safe_opt w (Some x) = safe w x"
  by (simp_all add: safe_opt_def)

lemma safe_opt_trans: "safe w (r, h, s') \<Longrightarrow> safe_opt (h, s') y \<Longrightarrow> safe_opt w y"
  by (cases y) (auto intro: safe_trans)

lemma check_name_safe [simp]: "r = check_name n \<Longrightarrow> r \<noteq> Panic"
  by simp

lemma mat_subs_safe:
  assumes "\<And>root dir w. safe_opt w (materialize pb (st_get (task_store env t)) n root dir w)"
  shows "safe_opt w (mat_subs pb (st_get (task_store env t)) n dir subs w)"
proof (induction subs arbitrary: w)
  case Nil
  then show ?case by (cases w) simp
next
  case (Cons sub subs)
  show ?case
  proof (cases "check_name (dn_name sub)")
    case (Ok u)
    show ?thesis
    proof (cases "materialize pb (st_get (task_store env t)) n (dn_digest sub) (join_path dir (dn_name sub)) w")
      case (Some x)
      obtain r h' s' where x: "x = (r, h', s')" by (metis surj_pair)
      have "safe w (r, h', s')" using assms [of w] Some x by (metis safe_opt_simps(2))
      with Some x Ok Cons.IH [of "(h', s')"] show ?thesis
        by (cases r) (auto intro: safe_opt_trans)
    qed (simp add: Ok)
  next
    case (Err e)
    then show ?thesis by (cases w) simp
  next
    case Panic
    then show ?thesis by simp
  qed
qed

lemma materialize_safe: "safe_opt w (materialize pb (st_get (task_store env t)) n root dir w)"
proof (induction n arbitrary: root dir w)
  case 0
  then show ?case by simp
next
  case (Suc n)
  obtain h s where w: "w = (h, s)" by fastforce
  let ?x = "and_then (on_fst (os_mkdir_all h dir) s) (\<lambda>_ (h, s).
      and_then (wrap_err ''fetch directory %s: %w'' [key root] (on_snd h (st_get (task_store env t) s root))) (\<lambda>data w.
      and_then (wrap_err ''unmarshal directory %s: %w'' [key root] (of_ext (unmarshal_dir pb data), w)) (\<lambda>d w.
      and_then (mat_files (st_get (task_store env t)) dir (dir_files d) w) (\<lambda>_ w.
      and_then (mat_links dir (dir_symlinks d) w) (\<lambda>_ w. (Ok d, w))))))"
  have files: "safe (h', s') (mat_files (st_get (task_store env t)) dir fs (h', s'))" for fs h' s'
    using mat_files_safe [of "(h', s')"] by simp
  have links: "safe (h', s') (mat_links dir ls (h', s'))" for ls h' s'
    using mat_links_safe [of "(h', s')"] by simp
  have safe: "safe (h, s) ?x"
  proof (rule safe_and_then)
    show "safe (h, s) (on_fst (os_mkdir_all h dir) s)" by (rule safe_on_fst) simp_all
    fix a h1 s1
    have entries: "safe (h2, s2) (and_then (mat_files (st_get (task_store env t)) dir (dir_files d) (h2, s2)) (\<lambda>_ w.
        and_then (mat_links dir (dir_symlinks d) w) (\<lambda>_ w. (Ok d, w))))" for d h2 s2
      by (rule safe_and_then [OF files]) (rule safe_and_then [OF links], simp)
    have parse: "safe (h2, s2) (and_then (wrap_err ''unmarshal directory %s: %w'' [key root] (of_ext (unmarshal_dir pb data), h2, s2))
        (\<lambda>d w. and_then (mat_files (st_get (task_store env t)) dir (dir_files d) w) (\<lambda>_ w.
        and_then (mat_links dir (dir_symlinks d) w) (\<lambda>_ w. (Ok d, w)))))" for data h2 s2
      by (rule safe_and_then [OF safe_wrap_err entries]) simp
    show "safe (h1, s1) ((\<lambda>_ (h, s).
      and_then (wrap_err ''fetch directory %s: %w'' [key root] (on_snd h (st_get (task_store env t) s root))) (\<lambda>data w.
      and_then (wrap_err ''unmarshal directory %s: %w'' [key root] (of_ext (unmarshal_dir pb data), w)) (\<lambda>d w.
      and_then (mat_files (st_get (task_store env t)) dir (dir_files d) w) (\<lambda>_ w.
      and_then (mat_links dir (dir_symlinks d) w) (\<lambda>_ w. (Ok d, w)))))) a (h1, s1))"
      unfolding prod.case by (rule safe_and_then [OF safe_wrap_err [OF safe_on_snd [OF safe_get]] parse])
  qed
  obtain r h' s' where x: "?x = (r, h', s')" by (rule prod_cases3)
  show ?case
  proof (cases r)
    case (Ok d)
    have "safe_opt (h', s') (mat_subs pb (st_get (task_store env t)) n dir (dir_directories d) (h', s'))"
      using mat_subs_safe [OF Suc.IH, of "(h', s')"] by simp
    with safe x Ok show ?thesis
      unfolding w materialize.simps x by (auto intro: safe_opt_trans)
  next
    case (Err e)
    with safe x show ?thesis unfolding w materialize.simps x by simp
  next
    case Panic
    with safe x show ?thesis unfolding w materialize.simps x by simp
  qed
qed

lemma capture_file_safe: "safe_store s (capture_file (st_put (task_store env t)) h out p x s)"
  unfolding capture_file_def
  by (rule safe_store_and_then) (auto simp: Let_def intro!: safe_store_and_then safe_put)

definition safe_store_opt :: "'s \<Rightarrow> ('a res \<times> 's) option \<Rightarrow> bool" where
  "safe_store_opt s o' \<longleftrightarrow> (case o' of None \<Rightarrow> True | Some x \<Rightarrow> safe_store s x)"

lemma safe_store_opt_simps [simp]: "safe_store_opt s None" "safe_store_opt s (Some x) = safe_store s x"
  by (simp_all add: safe_store_opt_def)

lemma safe_store_opt_trans: "safe_store s (r, s') \<Longrightarrow> safe_store_opt s' y \<Longrightarrow> safe_store_opt s y"
  by (cases y) (auto simp: safe_store_def intro: keep_trans)

lemma safe_store_trans: "safe_store s (r, s') \<Longrightarrow> safe_store s' y \<Longrightarrow> safe_store s y"
  by (auto simp: safe_store_def intro: keep_trans)

lemma build_entries_safe:
  assumes "\<And>p s. safe_store_opt s (build_directory pb (st_put (task_store env t)) h n p s)"
  shows "safe_store_opt s (build_entries pb (st_put (task_store env t)) h n p es dir desc s)"
proof (induction es arbitrary: dir desc s)
  case Nil
  then show ?case by simp
next
  case (Cons e es)
  obtain x c where e: "e = (x, c)" by fastforce
  let ?full = "join_path p x"
  show ?case
  proof (cases "os_lstat h ?full")
    case (Ok info)
    consider (l) "is_link info" | (d) "\<not> is_link info" "is_dir c" | (f) "\<not> is_link info" "\<not> is_dir c"
      by blast
    then show ?thesis
    proof cases
      case l
      then show ?thesis
        using Ok Cons.IH by (cases "os_readlink h ?full") (simp_all add: e Let_def)
    next
      case d
      show ?thesis
      proof (cases "build_directory pb (st_put (task_store env t)) h n ?full s")
        case None
        with Ok d show ?thesis by (simp add: e Let_def)
      next
        case (Some y)
        obtain r s' where y: "y = (r, s')" by fastforce
        have "safe_store s (r, s')" using assms [of s ?full] Some y by simp
        with Some y Ok d Cons.IH show ?thesis
          by (cases r) (auto simp: e Let_def intro: safe_store_opt_trans)
      qed
    next
      case f
      let ?x = "and_then (os_read_file h ?full, s) (\<lambda>content s.
          let d = Some (from_bytes content) in and_then (st_put (task_store env t) s d content) (\<lambda>_ s. (Ok d, s)))"
      have safe: "safe_store s ?x"
        by (rule safe_store_and_then) (auto simp: Let_def intro!: safe_store_and_then safe_put)
      obtain r s' where x: "?x = (r, s')" by fastforce
      have "build_entries pb (st_put (task_store env t)) h n p (e # es) dir desc s =
        (case (r, s') of
           (Ok d, s') \<Rightarrow> build_entries pb (st_put (task_store env t)) h n p es
              (dir\<lparr>dir_files := dir_files dir @ [\<lparr>fn_name = x, fn_digest = d, fn_exec = is_exec info\<rparr>]\<rparr>) desc s'
         | (Err e, s') \<Rightarrow> Some (Err e, s') | (Panic, s') \<Rightarrow> Some (Panic, s'))"
        unfolding e build_entries.simps x [symmetric] using Ok f by (simp add: Let_def)
      with safe x Cons.IH show ?thesis by (cases r) (auto intro: safe_store_opt_trans)
    qed
  qed (simp_all add: e Let_def)
qed

lemma build_directory_safe: "safe_store_opt s (build_directory pb (st_put (task_store env t)) h n p s)"
proof (induction n arbitrary: p s)
  case 0
  then show ?case by simp
next
  case (Suc n)
  have fin: "safe_store s' (finish_directory pb (st_put (task_store env t)) dir desc s')" for dir desc s'
    unfolding finish_directory_def Let_def
    by (rule safe_store_and_then) (auto intro!: safe_store_and_then safe_put)
  show ?case
  proof (cases "os_read_dir h p")
    case (Ok entries)
    show ?thesis
    proof (cases "build_entries pb (st_put (task_store env t)) h n p entries empty_directory [] s")
      case None
      with Ok show ?thesis by simp
    next
      case (Some y)
      obtain r s' where y: "y = (r, s')" by fastforce
      have "safe_store s (r, s')"
        using build_entries_safe [OF Suc.IH, of s p entries empty_directory "[]"] Some y by simp
      then have "\<And>dir desc. safe_store s (finish_directory pb (st_put (task_store env t)) dir desc s')"
        using fin by (rule safe_store_trans)
      with Ok Some y \<open>safe_store s (r, s')\<close> show ?thesis by (cases r) auto
    qed
  qed simp_all
qed

lemma capture_directory_safe:
  "safe_store_opt s (capture_directory pb (st_put (task_store env t)) h n out p s)"
proof (cases "build_directory pb (st_put (task_store env t)) h n p s")
  case None
  then show ?thesis by (simp add: capture_directory_def)
next
  case (Some x)
  have "safe_store s x" using build_directory_safe [of s pb t h n p] Some by simp
  with Some show ?thesis
    by (auto simp: capture_directory_def Let_def intro!: safe_store_and_then safe_put)
qed

lemma attach_stream_safe: "safe (h, s) (attach_stream (st_put (task_store env t)) ar file e (h, s))"
  unfolding attach_stream_def prod.case
  by (rule safe_and_then_same) (auto simp: Let_def intro!: safe_and_then safe_on_snd safe_put)

lemma capture_output_safe: "safe_opt (h, s) (capture_output pb (st_put (task_store env t)) n dir p ar (h, s))"
proof -
  let ?full = "join_path dir p"
  have fcase: "safe (h, s) (and_then (wrap_err ''capture output file %q: %w'' [p]
      (on_snd h (capture_file (st_put (task_store env t)) h p ?full x s))) k)" if "\<And>f w. fst (k f w) \<noteq> Panic \<and> snd (k f w) = w"
    for x and k :: "output_file \<Rightarrow> fs \<times> 's \<Rightarrow> action_result res \<times> fs \<times> 's"
    using that by (intro safe_and_then safe_wrap_err safe_on_snd capture_file_safe) (auto simp: safe_def)
  have dcase: "safe (h, s) (and_then (wrap_err ''capture output dir %q: %w'' [p] (on_snd h y)) k)"
    if "capture_directory pb (st_put (task_store env t)) h n p ?full s = Some y"
      "\<And>f w. fst (k f w) \<noteq> Panic \<and> snd (k f w) = w"
    for y and k :: "output_directory \<Rightarrow> fs \<times> 's \<Rightarrow> action_result res \<times> fs \<times> 's"
  proof -
    have "safe_store s y" using capture_directory_safe [of s pb t h n p ?full] that(1) by simp
    with that(2) show ?thesis by (intro safe_and_then safe_wrap_err safe_on_snd) (auto simp: safe_def)
  qed
  show ?thesis
  proof (cases "os_lstat h ?full")
    case (Ok info)
    show ?thesis
    proof (cases "is_link info")
      case True
      with Ok show ?thesis
        by (cases "os_readlink h ?full") (simp_all add: capture_output_def Let_def)
    next
      case False
      show ?thesis
      proof (cases "is_dir info")
        case True
        with Ok False show ?thesis
          by (cases "capture_directory pb (st_put (task_store env t)) h n p ?full s")
             (simp_all add: capture_output_def Let_def dcase)
      next
        case notdir: False
        with Ok False show ?thesis by (simp add: capture_output_def Let_def fcase)
      qed
    qed
  qed (simp_all add: capture_output_def Let_def)
qed

lemma capture_paths_safe: "safe_opt (h, s) (capture_paths pb (st_put (task_store env t)) n dir ps ar (h, s))"
proof (induction ps arbitrary: ar h s)
  case Nil
  then show ?case by simp
next
  case (Cons p ps)
  show ?case
  proof (cases "capture_output pb (st_put (task_store env t)) n dir p ar (h, s)")
    case None
    then show ?thesis by simp
  next
    case (Some x)
    obtain r h' s' where x: "x = (r, h', s')" by (rule prod_cases3)
    have "safe (h, s) (r, h', s')" using capture_output_safe [of h s pb t n dir p ar] Some x by simp
    with Some x Cons.IH show ?thesis by (cases r) (auto intro: safe_opt_trans)
  qed
qed

lemma exit_code_no_panic [simp]: "exit_code r deadline \<noteq> Panic"
  by (simp add: exit_code_def split: run_result.split)

lemma run_process_safe: "safe (h, s) (run_process env (task_store env t) p (h, s))"
proof -
  define k where "k = (\<lambda>h s. case ag_run env p h of ((r, deadline), h') \<Rightarrow>
      and_then (exit_code r deadline, h', s) (\<lambda>code w.
      and_then (attach_stream (st_put (task_store env t)) (new_result (ag_clock env) code) (p_stdout p) False w)
        (\<lambda>ar w. attach_stream (st_put (task_store env t)) ar (p_stderr p) True w)))"
  have k: "safe (h, s) (k h s)" for h s
  proof -
    obtain r deadline h' where run: "ag_run env p h = ((r, deadline), h')" by (metis surj_pair)
    have "kd h h'" using run_kd [of h p] run by simp
    then have "safe (h, s) (Ok (), h', s)" by simp
    moreover have "safe (h', s) (and_then (exit_code r deadline, h', s) (\<lambda>code w.
      and_then (attach_stream (st_put (task_store env t)) (new_result (ag_clock env) code) (p_stdout p) False w)
        (\<lambda>ar w. attach_stream (st_put (task_store env t)) ar (p_stderr p) True w)))"
      by (auto intro!: safe_and_then_same safe_and_then attach_stream_safe)
    ultimately show ?thesis unfolding k_def run prod.case by (rule safe_trans)
  qed
  have "safe (h, s) (and_then (on_fst (os_create h (p_stdout p)) s) (\<lambda>_ (h, s).
      and_then (on_fst (os_create h (p_stderr p)) s) (\<lambda>_ (h, s). k h s)))"
    by (rule safe_and_then) (auto intro!: safe_on_fst safe_and_then k)
  then show ?thesis unfolding run_process_def k_def by simp
qed

lemma run_in_safe: "safe_opt (h, s) (run_in env n (task_store env t) t' command dir (h, s))"
proof -
  obtain r h' s' where x: "run_process env (task_store env t) (make_proc env t' command dir) (h, s) = (r, h', s')"
    by (rule prod_cases3)
  have "safe (h, s) (r, h', s')"
    using run_process_safe [of h s t "make_proc env t' command dir"] unfolding x .
  then show ?thesis
    unfolding run_in_def x capture_outputs_def
    by (cases r) (auto intro: safe_opt_trans [OF _ capture_paths_safe])
qed

lemma run_with_inputs_safe: "safe_opt (h, s) (run_with_inputs env n (task_store env t) t command dir (h, s))"
proof (cases "materialize (ag_codec env) (st_get (task_store env t)) n
    (Some \<lparr>d_hash = t_root_hash t, d_size = t_root_size t\<rparr>) dir (h, s)")
  case None
  then show ?thesis by (simp add: run_with_inputs_def)
next
  case (Some x)
  obtain r h' s' where x: "x = (r, h', s')" by (rule prod_cases3)
  have "safe (h, s) (r, h', s')"
    using materialize_safe [of "(h, s)" "ag_codec env" t n] Some x by (metis safe_opt_simps(2) snd_conv)
  with Some x show ?thesis
    by (cases r) (auto simp: run_with_inputs_def intro: safe_opt_trans [OF _ run_in_safe])
qed

text \<open>
  Removing the work directory at the end is no step of \<open>kd\<close>: of the whole request the bucket's part is
  claimed.
\<close>

definition tame_opt :: "'s \<Rightarrow> ('a res \<times> fs \<times> 's) option \<Rightarrow> bool" where
  "tame_opt s o' \<longleftrightarrow> (case o' of None \<Rightarrow> True | Some x \<Rightarrow> fst x \<noteq> Panic \<and> keep s (snd (snd x)))"

lemma tame_opt_simps [simp]:
  "tame_opt s None" "tame_opt s (Some (r, h', s')) \<longleftrightarrow> r \<noteq> Panic \<and> keep s s'"
  by (simp_all add: tame_opt_def)

lemma tame_cleanup: "safe_opt (h, s) y \<Longrightarrow> tame_opt s (map_option (cleanup dir) y)"
  by (cases y) (auto simp: cleanup_def tame_opt_def safe_def)

lemma run_task_tame: "tame_opt s (run_task env n t (h, s))"
proof (cases "ag_config env (t_region t)")
  case None
  show ?thesis
  proof (cases "unmarshal_cmd (ag_codec env) (t_command t)")
    case (Inr command)
    let ?dir = "[''tmp'', ''buildfarm-action-'' @ ag_tmp env h]"
    obtain r h1 where m: "os_mkdir h ?dir = (r, h1)" by fastforce
    have "r \<noteq> Panic" using os_no_panic(3) [OF m] .
    with None Inr m show ?thesis
      by (cases r) (simp_all add: run_task_def Let_def tame_cleanup [OF run_with_inputs_safe])
  qed (simp add: run_task_def None)
qed (simp add: run_task_def)

lemma handle_execute_tame: "tame_opt s (handle_execute env n verb body (h, s))"
proof (cases "verb = ''POST''")
  case True
  show ?thesis
  proof (cases "decode_task (ag_json env) body")
    case (Inl e)
    with True show ?thesis by (simp add: handle_execute_def)
  next
    case (Inr t)
    show ?thesis
    proof (cases "run_task env n t (h, s)")
      case None
      with True Inr show ?thesis by (simp add: handle_execute_def)
    next
      case (Some x)
      obtain r h' s' where x: "x = (r, h', s')" by (rule prod_cases3)
      have "r \<noteq> Panic \<and> keep s s'" using run_task_tame [of s n t h] Some x by simp
      with True Inr Some x show ?thesis
        by (cases r) (auto simp: handle_execute_def split: sum.split)
    qed
  qed
qed (simp add: handle_execute_def)

lemma agent_serve_tame: "tame_opt s (agent_serve env n verb url_path body (h, s))"
  by (simp add: agent_serve_def handle_execute_tame)

end

end
