(* ===== verification/AgentEffects.thy ===== *)
theory AgentEffects
  imports AgentLaws
begin

text \<open>
  The agent's effects: on the bucket it only adds blobs under their own digest, and on the file
  system it leaves no work directory behind.
\<close>

subsection \<open>The bucket\<close>

text \<open>
  \<open>adds_blobs s s'\<close>: seen through any bucket name and prefix, no action-cache entry has changed, and
  a blob is what it was or hashes to its name.
\<close>

definition adds_blobs :: "bucket \<Rightarrow> bucket \<Rightarrow> bool" where
  "adds_blobs s s' \<longleftrightarrow>
     (\<forall>cfg. v_acs (s3_view bk_objs cfg s') = v_acs (s3_view bk_objs cfg s) \<and>
       (\<forall>h. v_blobs (s3_view bk_objs cfg s') h = v_blobs (s3_view bk_objs cfg s) h \<or>
         (\<exists>b. v_blobs (s3_view bk_objs cfg s') h = Some b \<and> hex_encode (sha256 b) = h)))"

lemma adds_blobs_objs: "bk_objs s' = bk_objs s \<Longrightarrow> adds_blobs s s'"
  using ref_s3.view_cong [of s' s] unfolding adds_blobs_def by simp

lemma adds_blobs_refl: "adds_blobs s s"
  by (rule adds_blobs_objs) simp

lemma adds_blobs_trans:
  assumes "adds_blobs s s'" "adds_blobs s' s''"
  shows "adds_blobs s s''"
proof -
  { fix cfg h
    have a: "v_acs (s3_view bk_objs cfg s'') = v_acs (s3_view bk_objs cfg s)"
      using assms unfolding adds_blobs_def by simp
    have "v_blobs (s3_view bk_objs cfg s') h = v_blobs (s3_view bk_objs cfg s) h \<or>
         (\<exists>b. v_blobs (s3_view bk_objs cfg s') h = Some b \<and> hex_encode (sha256 b) = h)"
      "v_blobs (s3_view bk_objs cfg s'') h = v_blobs (s3_view bk_objs cfg s') h \<or>
         (\<exists>b. v_blobs (s3_view bk_objs cfg s'') h = Some b \<and> hex_encode (sha256 b) = h)"
      using assms unfolding adds_blobs_def by blast+
    then have "v_blobs (s3_view bk_objs cfg s'') h = v_blobs (s3_view bk_objs cfg s) h \<or>
         (\<exists>b. v_blobs (s3_view bk_objs cfg s'') h = Some b \<and> hex_encode (sha256 b) = h)"
      by force
    note a this }
  then show ?thesis unfolding adds_blobs_def by blast
qed

lemma adds_blobs_addressed:
  "adds_blobs s s' \<Longrightarrow> content_addressed (s3_view bk_objs cfg s) \<Longrightarrow> content_addressed (s3_view bk_objs cfg s')"
  unfolding adds_blobs_def content_addressed_def by (metis option.inject)

lemma adds_blobs_present:
  "adds_blobs s s' \<Longrightarrow> v_blobs (s3_view bk_objs cfg s) h \<noteq> None \<Longrightarrow> v_blobs (s3_view bk_objs cfg s') h \<noteq> None"
  unfolding adds_blobs_def by (metis option.distinct(1))

text \<open>Writing bytes under the key of their digest, in some store of the bucket.\<close>

lemma adds_blobs_put:
  assumes "bk_objs s' = (bk_objs s)(s3_bucket_name cfg := (bk_objs s (s3_bucket_name cfg))(blob_key cfg (Some (from_bytes b)) \<mapsto> b))"
  shows "adds_blobs s s'"
proof -
  let ?d = "hex_encode (sha256 b)"
  have plain: "plain_name ?d" by (simp add: valid_hash_plain valid_hash_sha256)
  have key: "blob_key cfg (Some (from_bytes b)) = path_join [s3_prefix cfg, ''cas'', ?d]"
    by (simp add: blob_key_def)
  have ac: "path_join [p, ''ac'', h] \<noteq> path_join [s3_prefix cfg, ''cas'', ?d]" if "plain_name h" for p h
    using object_key_last [OF plain_segments(2) that plain_segments(1) plain] by auto
  have cas: "h = ?d" if "plain_name h" "path_join [p, ''cas'', h] = path_join [s3_prefix cfg, ''cas'', ?d]" for p h
    using object_key_last [OF plain_segments(1) that(1) plain_segments(1) plain that(2)] by simp
  show ?thesis
    unfolding adds_blobs_def s3_view_def key assms view.simps using ac cas by (auto simp: fun_eq_iff)
qed

lemma bucket_get:
  "s3_get bucket_client cfg s d = (r, s') \<Longrightarrow> bk_objs s' = bk_objs s \<and> r \<noteq> Panic"
  by (auto simp: s3_get_def s3_reader_def Let_def split: if_splits prod.splits sum.splits res.splits
      dest!: bk_get_state)

lemma bucket_put:
  assumes "s3_put bucket_client cfg s (Some (from_bytes b)) b = (r, s')"
  shows "adds_blobs s s' \<and> r \<noteq> Panic"
proof (cases "is_empty (Some (from_bytes b))")
  case True
  with assms show ?thesis by (auto simp: s3_put_def s3_put_stream_def adds_blobs_refl)
next
  case False
  obtain rp w1 where p: "bk_put s (s3_bucket_name cfg) (blob_key cfg (Some (from_bytes b))) b = (rp, w1)"
    by fastforce
  have "adds_blobs s w1" using bk_put_law [OF p] by (auto intro: adds_blobs_put adds_blobs_objs)
  with False assms p show ?thesis
    by (auto simp: s3_put_def s3_put_stream_def bk_upload_def split: sum.splits)
qed

interpretation bucket_agent: agent_bucket "env\<lparr>ag_client := \<lambda>_. bucket_client\<rparr>" adds_blobs "\<lambda>_ _. True"
  for env :: "bucket agent_env"
proof (unfold_locales, goal_cases)
  case (1 s)
  then show ?case by (rule adds_blobs_refl)
next
  case (2 s s' s'')
  then show ?case by (rule adds_blobs_trans)
next
  case (3 t s d rg s')
  then show ?case
    using bucket_get [of "\<lparr>s3_bucket_name = t_bucket t, s3_prefix = t_prefix t\<rparr>" s d rg s']
    by (simp add: task_store_def adds_blobs_objs)
next
  case (4 t s b ru s')
  then show ?case
    using bucket_put [of "\<lparr>s3_bucket_name = t_bucket t, s3_prefix = t_prefix t\<rparr>" s b ru s']
    by (simp add: task_store_def)
qed simp_all

subsection \<open>The work directory\<close>

lemma set_node_keeps_dir:
  "node_at n p = Some (Dir es) \<Longrightarrow> (\<And>ds. node_at n q \<noteq> Some (Dir ds)) \<Longrightarrow>
    \<exists>es'. node_at (set_node n q c) p = Some (Dir es')"
proof (induction n q c arbitrary: p es rule: set_node.induct)
  case (1 n c)
  then show ?case by (cases n; cases p) auto
next
  case (2 ds x q c)
  show ?case
  proof (cases p)
    case Nil
    then show ?thesis by (simp split: option.split)
  next
    case (Cons y p')
    show ?thesis
    proof (cases "x = y")
      case False
      with 2 Cons show ?thesis by (simp split: option.split)
    next
      case True
      then obtain d where d: "map_of ds x = Some d" "node_at d p' = Some (Dir es)"
        using 2 Cons by (auto split: option.splits)
      show ?thesis
      proof (cases "q = []")
        case True
        have "\<not> is_dir d" using "2.prems"(2) d True by (cases d) auto
        with d(2) show ?thesis by (cases d; cases p') auto
      next
        case False
        have "\<exists>es'. node_at (set_node d q c) p' = Some (Dir es')"
          by (rule "2.IH" [OF False d]) (use "2.prems"(2) d in simp)
        with False True Cons d show ?thesis by simp
      qed
    qed
  qed
qed simp_all

text \<open>\<open>keeps_tmp h h'\<close>: \<^verbatim>\<open>/tmp\<close> stays a directory and the faults stay what they are.\<close>

definition keeps_tmp :: "fs \<Rightarrow> fs \<Rightarrow> bool" where
  "keeps_tmp h h' \<longleftrightarrow> fs_fault h' = fs_fault h \<and>
     ((\<exists>es. real_dir h [''tmp''] es) \<longrightarrow> (\<exists>es. real_dir h' [''tmp''] es))"

lemma change_keeps_tmp:
  assumes "\<And>es n. how (Some (Dir es)) \<noteq> Ok n"
  shows "keeps_tmp h (snd (os_change h fl call p how))"
proof -
  have "\<exists>es'. node_at (set_node (fs_root h) q n) [''tmp''] = Some (Dir es')"
    if "node_at (fs_root h) [''tmp''] = Some (Dir es)" "how (node_at (fs_root h) q) = Ok n" for q n es
    by (rule set_node_keeps_dir [OF that(1)]) (use that(2) assms in force)
  then show ?thesis
    by (auto simp: os_change_def keeps_tmp_def real_dir_def split: option.split res.split)
qed

lemma del_node_at: "node_at (del_node n (p @ [x])) (p @ [x]) = None"
proof (induction n p arbitrary: rule: node_at.induct)
  case (1 n)
  then show ?case by (cases n) (auto simp: map_of_eq_None_iff split: option.split)
next
  case (2 es y p)
  then show ?case by (auto split: option.split)
qed simp_all

lemma remove_all_gone:
  assumes "real_dir h p es" "plain_name x" "fs_fault h ''remove'' (p @ [x]) = None"
  shows "node_at (fs_root (snd (os_remove_all h (p @ [x])))) (p @ [x]) = None"
proof -
  have "resolve (fs_root h) False max_links [] (p @ [x]) = Ok (p @ [x])"
    using assms(1,2) resolve_entry [of p x "fs_root h" es False] by (simp add: real_dir_def)
  with assms(3) show ?thesis by (simp add: os_remove_all_def del_node_at)
qed

text \<open>
  For any S3 client: the agent itself keeps \<^verbatim>\<open>/tmp\<close>, so the whole of \<open>run_with_inputs\<close> does when the
  process does.
\<close>

lemma s3_no_panic:
  "s3_get cl cfg s d = (r, s') \<Longrightarrow> r \<noteq> Panic" "s3_put cl cfg s d b = (u, s') \<Longrightarrow> u \<noteq> Panic"
  by (auto simp: s3_get_def s3_reader_def s3_put_def s3_put_stream_def Let_def
      split: if_splits prod.splits sum.splits res.splits)

lemma process_keeps_tmp:
  assumes "\<And>q h. keeps_tmp h (snd (ag_run env q h))"
  shows "agent_bucket env (\<lambda>_ _. True) keeps_tmp"
proof (unfold_locales, goal_cases)
  case (3 t s d rg s')
  then show ?case by (auto simp: task_store_def dest: s3_no_panic)
next
  case (4 t s b ru s')
  then show ?case by (auto simp: task_store_def dest: s3_no_panic)
next
  case (6 h h' h'')
  then show ?case by (auto simp: keeps_tmp_def)
next
  case (7 how h fl call p)
  then show ?case by (rule change_keeps_tmp)
next
  case (8 q h)
  then show ?case by (rule assms)
qed (simp_all add: keeps_tmp_def)

text \<open>
  C31.  The agent leaves nothing behind: however the action ends (inputs missing, command failing,
  upload failing, any fault of the file system but that of the removal itself), the work
  directory it made is gone when \<^verbatim>\<open>runTask\<close> returns, provided the process did not replace \<^verbatim>\<open>/tmp\<close>.
\<close>

theorem agent_cleans_up:
  assumes "\<And>q h. keeps_tmp h (snd (ag_run env q h))"
    and "real_dir h [''tmp''] es" and "plain_name (''buildfarm-action-'' @ ag_tmp env h)"
    and "map_of es (''buildfarm-action-'' @ ag_tmp env h) = None"
    and "fs_fault h ''remove'' [''tmp'', ''buildfarm-action-'' @ ag_tmp env h] = None"
    and "run_task env n t (h, s) = Some (r, h', s')"
  shows "r \<noteq> Panic \<and> node_at (fs_root h') [''tmp'', ''buildfarm-action-'' @ ag_tmp env h] = None"
proof -
  let ?x = "''buildfarm-action-'' @ ag_tmp env h"
  note agent = process_keeps_tmp [OF assms(1)]
  have absent: "node_at (fs_root h) [''tmp'', ?x] = None"
    using assms(2,4) node_at_snoc [of "fs_root h" "[''tmp'']" es ?x] by (simp add: real_dir_def)
  have gone: "node_at (fs_root (snd (os_remove_all h2 [''tmp'', ?x]))) [''tmp'', ?x] = None"
    if kept: "keeps_tmp h h2" for h2
  proof -
    have "fs_fault h2 ''remove'' ([''tmp''] @ [?x]) = None" using kept assms(5) by (simp add: keeps_tmp_def)
    moreover obtain es2 where "real_dir h2 [''tmp''] es2" using kept assms(2) unfolding keeps_tmp_def by blast
    ultimately show ?thesis using remove_all_gone [OF _ assms(3)] by fastforce
  qed
  obtain rm h1 where mk: "os_mkdir h ([''tmp''] @ [?x]) = (rm, h1)" by fastforce
  have mk1: "rm = Ok () \<or> h1 = h \<and> rm \<noteq> Panic" "keeps_tmp h h1"
    using mk change_entry [OF assms(2,3), of False "''mkdir''" "create_only (Dir [])"] assms(4)
      change_keeps_tmp [of "create_only (Dir [])" h False "''mkdir''" "[''tmp''] @ [?x]"]
    by (auto simp: os_mkdir_def split: option.splits)
  show ?thesis
  proof (cases "\<exists>command. ag_config env (t_region t) = None \<and> unmarshal_cmd (ag_codec env) (t_command t) = Inr command
      \<and> c_arguments command \<noteq> [] \<and> rm = Ok ()")
    case False
    then show ?thesis
      using assms(6) absent mk mk1
      by (auto simp: run_task_def Let_def split: option.splits sum.splits if_splits res.splits)
  next
    case True
    then obtain command y where y: "run_with_inputs env n (task_store env t) t command [''tmp'', ?x] (h1, s) = Some y"
      "cleanup [''tmp'', ?x] y = (r, h', s')"
      using assms(6) mk by (auto simp: run_task_def Let_def)
    obtain r2 h2 s2 where y2: "y = (r2, h2, s2)" by (rule prod_cases3)
    have "r2 \<noteq> Panic \<and> keeps_tmp h1 h2"
      using agent_bucket.run_with_inputs_safe [OF agent, of h1 s n t command "[''tmp'', ?x]"] y(1) y2
      by (simp add: agent_bucket.safe_opt_simps [OF agent] agent_bucket.safe_pair [OF agent])
    with mk1(2) gone [of h2] y(2) y2 show ?thesis
      by (auto simp: cleanup_def keeps_tmp_def)
  qed
qed

end
