(* ===== verification/AgentReport.thy ===== *)
theory AgentReport
  imports AgentEffects
begin

text \<open>
  What the agent reports: the action result describes the streams and the expected outputs as they
  are in the file system when the process has ended, and every digest in it is stored.
\<close>

subsection \<open>What the file system calls agree on\<close>

lemma resolve_nonlink:
  "resolve r fl k cur xs = Ok q \<Longrightarrow> \<not> fl \<Longrightarrow> node_at r q = Some n \<Longrightarrow> \<not> is_link n \<Longrightarrow>
    resolve r True k cur xs = Ok q"
proof (induction r fl k cur xs rule: resolve.induct)
  case (1 r fl k cur)
  then show ?case by (simp add: resolve.simps)
next
  case (2 r fl k cur x rest)
  consider "x = '''' \<or> x = dot" | "x = dotdot" "x \<noteq> ''''" "x \<noteq> dot" | "x \<noteq> ''''" "x \<noteq> dot" "x \<noteq> dotdot"
    by blast
  then show ?case
  proof cases
    case 1
    then show ?thesis using "2.IH"(1) "2.prems" by (simp add: resolve.simps(2))
  next
    case 2
    then show ?thesis using "2.IH"(2) "2.prems" by (simp add: resolve.simps(2))
  next
    case 3
    show ?thesis
    proof (cases "node_at r (cur @ [x])")
      case None
      then show ?thesis using 3 "2.prems" by (simp add: resolve.simps(2))
    next
      case (Some m)
      show ?thesis
      proof (cases m)
        case (File b e)
        then show ?thesis using 3 Some "2.prems" by (simp add: resolve.simps(2))
      next
        case (Dir es)
        then show ?thesis using 3 Some "2.prems" "2.IH"(4) by (simp add: resolve.simps(2))
      next
        case (Link t)
        have "rest \<noteq> []" using 3 Some Link "2.prems" by (auto simp: resolve.simps(2))
        with 3 Some Link "2.prems" obtain k' where k: "k = Suc k'"
          "resolve r fl k' (if rooted t then [] else cur) (split_on CHR ''/'' t @ rest) = Ok q"
          by (cases k) (auto simp: resolve.simps(2))
        have "resolve r True k' (if rooted t then [] else cur) (split_on CHR ''/'' t @ rest) = Ok q"
          using "2.IH"(3) [OF _ _ Some Link _ k(1)] 3 \<open>rest \<noteq> []\<close> k(2) "2.prems" by blast
        with 3 Some Link k \<open>rest \<noteq> []\<close> show ?thesis by (simp add: resolve.simps(2))
      qed
    qed
  qed
qed

lemma stat_at:
  "os_stat h fl call p = Ok n \<Longrightarrow> \<exists>q. resolve (fs_root h) fl max_links [] p = Ok q \<and> node_at (fs_root h) q = Some n"
  by (auto simp: os_stat_def split: option.splits res.splits)

text \<open>A call that follows links sees the same file, and the target of a link is its text.\<close>

lemma lstat_read:
  assumes "os_lstat h p = Ok (File b e)" "os_read_file h p = Ok c"
  shows "c = b"
proof -
  obtain q where q: "resolve (fs_root h) False max_links [] p = Ok q" "node_at (fs_root h) q = Some (File b e)"
    using assms(1) stat_at unfolding os_lstat_def by blast
  then have "resolve (fs_root h) True max_links [] p = Ok q" by (simp add: resolve_nonlink)
  with q assms(2) show ?thesis
    by (auto simp: os_read_file_def os_stat_def split: option.splits)
qed

lemma lstat_readlink:
  assumes "os_lstat h p = Ok (Link t)" "os_readlink h p = Ok u"
  shows "u = t"
  using assms by (auto simp: os_lstat_def os_readlink_def os_stat_def split: option.splits res.splits node.splits)

subsection \<open>The expected outputs\<close>

definition found :: "fs \<Rightarrow> fspath \<Rightarrow> string \<Rightarrow> node option" where
  "found h dir p = (case os_lstat h (join_path dir p) of Ok n \<Rightarrow> Some n | _ \<Rightarrow> None)"

text \<open>The outputs the request names, in its order, as they are in the file system \<open>h\<close>.\<close>

fun spec_output_files :: "fs \<Rightarrow> fspath \<Rightarrow> string list \<Rightarrow> output_file list" where
  "spec_output_files h dir [] = []"
| "spec_output_files h dir (p # ps) =
     (case found h dir p of
        Some (File b e) \<Rightarrow> [\<lparr>of_path = p, of_digest = Some (from_bytes b), of_exec = e\<rparr>] | _ \<Rightarrow> [])
     @ spec_output_files h dir ps"

fun spec_output_links :: "fs \<Rightarrow> fspath \<Rightarrow> string list \<Rightarrow> output_symlink list" where
  "spec_output_links h dir [] = []"
| "spec_output_links h dir (p # ps) =
     (case found h dir p of Some (Link t) \<Rightarrow> [\<lparr>os_path = p, os_target = t\<rparr>] | _ \<Rightarrow> [])
     @ spec_output_links h dir ps"

fun spec_output_dirs :: "fs \<Rightarrow> fspath \<Rightarrow> string list \<Rightarrow> string list" where
  "spec_output_dirs h dir [] = []"
| "spec_output_dirs h dir (p # ps) =
     (case found h dir p of Some (Dir es) \<Rightarrow> [p] | _ \<Rightarrow> []) @ spec_output_dirs h dir ps"

lemma and_then_ok: "and_then x k = (Ok b, w') \<Longrightarrow> \<exists>a w. x = (Ok a, w) \<and> k a w = (Ok b, w')"
  by (cases "(x, k)" rule: and_then.cases) auto

lemma wrap_err_ok: "wrap_err f as x = (Ok a, w) \<longleftrightarrow> x = (Ok a, w)"
  by (cases "(f, as, x)" rule: wrap_err.cases) auto

lemma on_snd_ok: "on_snd h x = (Ok a, h', s') \<longleftrightarrow> h' = h \<and> x = (Ok a, s')"
  by (cases x) (auto simp: on_snd_def)

lemma on_fst_ok: "on_fst x s = (Ok a, h', s') \<longleftrightarrow> s' = s \<and> x = (Ok a, h')"
  by (cases x) (auto simp: on_fst_def)

lemmas ok_rules = wrap_err_ok on_snd_ok on_fst_ok

lemma capture_file_ok:
  assumes "capture_file put h out p x s = (Ok f, s')"
  shows "\<exists>b. os_read_file h p = Ok b \<and> f = \<lparr>of_path = out, of_digest = Some (from_bytes b), of_exec = x\<rparr> \<and>
    (\<exists>u. put s (Some (from_bytes b)) b = (Ok u, s'))"
  using assms unfolding capture_file_def Let_def
  by (auto dest!: and_then_ok)

lemma capture_directory_ok:
  assumes "capture_directory pb put h n out p s = Some (Ok od, s')"
  shows "od_path od = out \<and> (\<exists>tb s1 u. put s1 (Some (from_bytes tb)) tb = (Ok u, s') \<and> od_tree_digest od = Some (from_bytes tb) \<and>
    (\<exists>root desc. build_directory pb put h n p s = Some (Ok (root, od_root_digest od, desc), s1)))"
  using assms unfolding capture_directory_def Let_def
  by (auto split: option.splits dest!: and_then_ok)

lemma capture_output_ok:
  assumes "capture_output pb put n dir p ar (h, s) = Some (Ok ar', h', s')"
  shows "h' = h \<and>
    (case found h dir p of
       None \<Rightarrow> ar' = ar \<and> s' = s
     | Some (File b e) \<Rightarrow>
         ar' = ar\<lparr>ar_output_files :=
                 ar_output_files ar @ [\<lparr>of_path = p, of_digest = Some (from_bytes b), of_exec = e\<rparr>]\<rparr> \<and>
         (\<exists>u. put s (Some (from_bytes b)) b = (Ok u, s'))
     | Some (Link t) \<Rightarrow>
         ar' = ar\<lparr>ar_output_symlinks := ar_output_symlinks ar @ [\<lparr>os_path = p, os_target = t\<rparr>]\<rparr> \<and> s' = s
     | Some (Dir es) \<Rightarrow>
         (\<exists>od. ar' = ar\<lparr>ar_output_directories := ar_output_directories ar @ [od]\<rparr> \<and>
           capture_directory pb put h n p (join_path dir p) s = Some (Ok od, s')))"
proof (cases "os_lstat h (join_path dir p)")
  case (Ok info)
  show ?thesis
  proof (cases info)
    case (File b e)
    from assms Ok File obtain f where
      f: "capture_file put h p (join_path dir p) e s = (Ok f, s')" "h' = h"
        "ar' = ar\<lparr>ar_output_files := ar_output_files ar @ [f]\<rparr>"
      by (auto simp: capture_output_def Let_def ok_rules dest!: and_then_ok)
    from capture_file_ok [OF f(1)] obtain c where c: "os_read_file h (join_path dir p) = Ok c"
      "f = \<lparr>of_path = p, of_digest = Some (from_bytes c), of_exec = e\<rparr>"
      "\<exists>u. put s (Some (from_bytes c)) c = (Ok u, s')"
      by blast
    have "c = b" using lstat_read [OF _ c(1)] Ok File by simp
    with f c Ok File show ?thesis by (simp add: found_def)
  next
    case (Link t)
    with assms Ok show ?thesis
      by (auto simp: capture_output_def found_def Let_def dest!: and_then_ok dest: lstat_readlink)
  next
    case (Dir es)
    with assms Ok show ?thesis
      by (auto simp: capture_output_def found_def Let_def ok_rules split: option.splits dest!: and_then_ok)
  qed
next
  case (Err e)
  with assms show ?thesis by (auto simp: capture_output_def found_def Let_def split: if_splits)
next
  case Panic
  with assms show ?thesis by (simp add: capture_output_def Let_def)
qed

text \<open>All the outputs: what is reported, and that nothing else of the result changes.\<close>

lemma capture_paths_ok:
  "capture_paths pb put n dir ps ar (h, s) = Some (Ok ar', h', s') \<Longrightarrow>
    h' = h \<and> ar_output_files ar' = ar_output_files ar @ spec_output_files h dir ps \<and>
    ar_output_symlinks ar' = ar_output_symlinks ar @ spec_output_links h dir ps \<and>
    map od_path (ar_output_directories ar') = map od_path (ar_output_directories ar) @ spec_output_dirs h dir ps \<and>
    ar_exit_code ar' = ar_exit_code ar \<and> ar_stdout_digest ar' = ar_stdout_digest ar \<and>
    ar_stderr_digest ar' = ar_stderr_digest ar \<and> ar_metadata ar' = ar_metadata ar"
proof (induction ps arbitrary: ar s)
  case Nil
  then show ?case by simp
next
  case (Cons p ps)
  then obtain ar1 h1 s1 where one: "capture_output pb put n dir p ar (h, s) = Some (Ok ar1, h1, s1)"
    and rest: "capture_paths pb put n dir ps ar1 (h1, s1) = Some (Ok ar', h', s')"
    by (auto split: option.splits res.splits)
  note ok = capture_output_ok [OF one]
  then have IH: "capture_paths pb put n dir ps ar1 (h, s1) = Some (Ok ar', h', s')" using rest by simp
  show ?case
  proof (cases "found h dir p")
    case None
    with Cons.IH [OF IH] ok show ?thesis by simp
  next
    case (Some c)
    with Cons.IH [OF IH] ok show ?thesis
      by (cases c) (auto dest: capture_directory_ok)
  qed
qed

subsection \<open>The streams and the exit code\<close>

lemma attach_stream_ok:
  assumes "attach_stream put ar file is_stderr (h, s) = (Ok ar', h', s')"
  shows "h' = h \<and> (\<exists>b u. os_read_file h file = Ok b \<and> put s (Some (from_bytes b)) b = (Ok u, s') \<and>
    ar' = (if is_stderr then ar\<lparr>ar_stderr_digest := Some (from_bytes b)\<rparr> else ar\<lparr>ar_stdout_digest := Some (from_bytes b)\<rparr>))"
  using assms unfolding attach_stream_def Let_def
  by (auto simp: ok_rules dest!: and_then_ok split: if_splits)

lemma run_process_ok:
  assumes "run_process env st p (h, s) = (Ok ar, h', s')"
  shows "\<exists>h1 rr deadline code b c s1 u v. ag_run env p h1 = ((rr, deadline), h') \<and> exit_code rr deadline = Ok code \<and>
    os_read_file h' (p_stdout p) = Ok b \<and> os_read_file h' (p_stderr p) = Ok c \<and>
    st_put st s (Some (from_bytes b)) b = (Ok u, s1) \<and> st_put st s1 (Some (from_bytes c)) c = (Ok v, s') \<and>
    ar = new_result (ag_clock env) code
      \<lparr>ar_stdout_digest := Some (from_bytes b), ar_stderr_digest := Some (from_bytes c)\<rparr>"
  using assms unfolding run_process_def
  by (auto simp: ok_rules dest!: and_then_ok attach_stream_ok split: prod.splits) blast

lemma run_in_ok:
  assumes "run_in env n st t command dir (h, s) = Some (Ok ar, h', s')"
  shows "\<exists>ar1 s1. run_process env st (make_proc env t command dir) (h, s) = (Ok ar1, h', s1) \<and>
    capture_paths (ag_codec env) (st_put st) n (exec_dir command dir) (output_paths command) ar1 (h', s1) =
      Some (Ok ar, h', s')"
proof -
  obtain r h1 s1 where x: "run_process env st (make_proc env t command dir) (h, s) = (r, h1, s1)"
    by (rule prod_cases3)
  with assms show ?thesis
    by (cases r) (auto simp: run_in_def capture_outputs_def dest: capture_paths_ok)
qed

lemma run_task_ok:
  assumes "run_task env n t (h, s) = Some (Ok ar, h', s')"
  shows "\<exists>command h0 s0 h2. unmarshal_cmd (ag_codec env) (t_command t) = Inr command \<and>
    run_in env n (task_store env t) t command [''tmp'', ''buildfarm-action-'' @ ag_tmp env h] (h0, s0) =
      Some (Ok ar, h2, s') \<and>
    h' = snd (os_remove_all h2 [''tmp'', ''buildfarm-action-'' @ ag_tmp env h])"
proof -
  let ?dir = "[''tmp'', ''buildfarm-action-'' @ ag_tmp env h]"
  from assms obtain command h0 where c: "unmarshal_cmd (ag_codec env) (t_command t) = Inr command"
    and y: "map_option (cleanup ?dir) (run_with_inputs env n (task_store env t) t command ?dir (h0, s)) = Some (Ok ar, h', s')"
    by (auto simp: run_task_def Let_def split: option.splits sum.splits if_splits prod.splits res.splits)
  from y obtain h2 where h2: "run_with_inputs env n (task_store env t) t command ?dir (h0, s) = Some (Ok ar, h2, s')"
    "h' = snd (os_remove_all h2 ?dir)"
    by (auto simp: cleanup_def split: prod.splits)
  then show ?thesis
    using c by (force simp: run_with_inputs_def Let_def split: option.splits prod.splits res.splits)
qed

text \<open>
  C17.  What a successful task reports: the exit code of the process, digests of the bytes its output
  streams hold when it has ended, and exactly the expected outputs that then exist (files with the
  digest of their content and their executable bit, symbolic links with their target, the
  directories), in the order the command lists them; the missing ones are left out.
\<close>

theorem agent_reports_outputs:
  assumes "run_task env n t (h, s) = Some (Ok ar, h', s')"
  defines "dir \<equiv> [''tmp'', ''buildfarm-action-'' @ ag_tmp env h]"
  shows "\<exists>command p h1 h2 rr deadline out er. unmarshal_cmd (ag_codec env) (t_command t) = Inr command \<and>
    p = make_proc env t command dir \<and> ag_run env p h1 = ((rr, deadline), h2) \<and>
    exit_code rr deadline = Ok (ar_exit_code ar) \<and>
    os_read_file h2 (p_stdout p) = Ok out \<and> ar_stdout_digest ar = Some (from_bytes out) \<and>
    os_read_file h2 (p_stderr p) = Ok er \<and> ar_stderr_digest ar = Some (from_bytes er) \<and>
    ar_output_files ar = spec_output_files h2 (p_dir p) (output_paths command) \<and>
    ar_output_symlinks ar = spec_output_links h2 (p_dir p) (output_paths command) \<and>
    map od_path (ar_output_directories ar) = spec_output_dirs h2 (p_dir p) (output_paths command) \<and>
    h' = snd (os_remove_all h2 dir)"
proof -
  obtain command h0 s0 h2 where task: "unmarshal_cmd (ag_codec env) (t_command t) = Inr command"
    "run_in env n (task_store env t) t command dir (h0, s0) = Some (Ok ar, h2, s')"
    "h' = snd (os_remove_all h2 dir)"
    using run_task_ok [OF assms(1)] unfolding dir_def by blast
  define p where "p = make_proc env t command dir"
  obtain ar1 s1 where
    proc: "run_process env (task_store env t) p (h0, s0) = (Ok ar1, h2, s1)" and
    caps: "capture_paths (ag_codec env) (st_put (task_store env t)) n (exec_dir command dir) (output_paths command) ar1 (h2, s1) =
      Some (Ok ar, h2, s')"
    using run_in_ok [OF task(2)] unfolding p_def by blast
  have "p_dir p = exec_dir command dir" by (simp add: p_def make_proc_def)
  moreover obtain h1 rr deadline b c where
    run: "ag_run env p h1 = ((rr, deadline), h2)" "exit_code rr deadline = Ok (ar_exit_code ar1)"
      "os_read_file h2 (p_stdout p) = Ok b" "os_read_file h2 (p_stderr p) = Ok c"
      "ar_stdout_digest ar1 = Some (from_bytes b)" "ar_stderr_digest ar1 = Some (from_bytes c)"
      "ar_output_files ar1 = []" "ar_output_symlinks ar1 = []" "ar_output_directories ar1 = []"
    using run_process_ok [OF proc] by (auto simp: new_result_def)
  moreover note capture_paths_ok [OF caps]
  ultimately show ?thesis using task(1,3) p_def
    by (intro exI [of _ command] exI [of _ p] exI [of _ h1] exI [of _ h2] exI [of _ rr] exI [of _ deadline]
        exI [of _ b] exI [of _ c]) simp
qed

subsection \<open>Every reported digest is stored\<close>

definition ar_digests :: "action_result \<Rightarrow> digest_ptr list" where
  "ar_digests ar =
     filter (\<lambda>d. d \<noteq> None)
       ([ar_stdout_digest ar, ar_stderr_digest ar] @ map of_digest (ar_output_files ar) @
        concat (map (\<lambda>od. [od_tree_digest od, od_root_digest od]) (ar_output_directories ar)))"

lemma ar_digests_add:
  "set (ar_digests (ar\<lparr>ar_output_files := ar_output_files ar @ [f]\<rparr>)) \<subseteq> insert (of_digest f) (set (ar_digests ar))"
  "set (ar_digests (ar\<lparr>ar_output_directories := ar_output_directories ar @ [od]\<rparr>)) \<subseteq>
     insert (od_tree_digest od) (insert (od_root_digest od) (set (ar_digests ar)))"
  "ar_digests (ar\<lparr>ar_output_symlinks := ls\<rparr>) = ar_digests ar"
  unfolding ar_digests_def by (simp_all del: filter.simps add: subset_iff) (blast, blast)

locale agent_uploads = agent_bucket env keep kd
  for env :: "'s agent_env" and keep kd +
  fixes has :: "execute_task \<Rightarrow> 's \<Rightarrow> digest_ptr \<Rightarrow> bool"
  assumes keep_has: "keep s s' \<Longrightarrow> has t s d \<Longrightarrow> has t s' d"
    and put_has: "st_put (task_store env t) s (Some (from_bytes b)) b = (Ok u, s') \<Longrightarrow> has t s' (Some (from_bytes b))"
begin

lemma put_keeps: "st_put (task_store env t) s (Some (from_bytes b)) b = (r, s') \<Longrightarrow> keep s s'"
  using put_keep by blast

lemma build_directory_has:
  assumes "build_directory pb (st_put (task_store env t)) h n p s = Some (Ok (root, d, desc), s')"
  shows "has t s' d"
proof (cases n)
  case (Suc m)
  with assms obtain root' desc' s1 where "finish_directory pb (st_put (task_store env t)) root' desc' s1 = (Ok (root, d, desc), s')"
    by (auto split: res.splits option.splits prod.splits)
  then show ?thesis
    by (auto simp: finish_directory_def Let_def dest!: and_then_ok intro: put_has)
qed (use assms in simp)

lemma capture_directory_has:
  assumes "capture_directory pb (st_put (task_store env t)) h n out p s = Some (Ok od, s')"
  shows "has t s' (od_tree_digest od) \<and> has t s' (od_root_digest od)"
proof -
  obtain tb s1 u root desc where
    p: "st_put (task_store env t) s1 (Some (from_bytes tb)) tb = (Ok u, s')" "od_tree_digest od = Some (from_bytes tb)"
    and b: "build_directory pb (st_put (task_store env t)) h n p s = Some (Ok (root, od_root_digest od, desc), s1)"
    using capture_directory_ok [OF assms] by blast
  have "has t s' (od_root_digest od)"
    by (rule keep_has [OF put_keeps [OF p(1)] build_directory_has [OF b]])
  with put_has [OF p(1)] p(2) show ?thesis by simp
qed

lemma capture_output_has:
  assumes "capture_output pb (st_put (task_store env t)) n dir p ar (h, s) = Some (Ok ar', h', s')"
    and "list_all (has t s) (ar_digests ar)"
  shows "list_all (has t s') (ar_digests ar')"
proof -
  have "keep s s'"
    using capture_output_safe [of h s pb t n dir p ar] assms(1) by simp
  then have old: "list_all (has t s') (ar_digests ar)"
    using assms(2) keep_has by (auto simp: list_all_iff)
  show ?thesis
  proof (cases "found h dir p")
    case None
    with capture_output_ok [OF assms(1)] old show ?thesis by simp
  next
    case (Some c)
    show ?thesis
    proof (cases c)
      case (File b e)
      with capture_output_ok [OF assms(1)] Some obtain u where
        o: "ar' = ar\<lparr>ar_output_files :=
                 ar_output_files ar @ [\<lparr>of_path = p, of_digest = Some (from_bytes b), of_exec = e\<rparr>]\<rparr>"
          "st_put (task_store env t) s (Some (from_bytes b)) b = (Ok u, s')"
        by auto
      have "set (ar_digests ar') \<subseteq> insert (Some (from_bytes b)) (set (ar_digests ar))"
        unfolding o(1) by (rule order_trans [OF ar_digests_add(1)]) simp
      with put_has [OF o(2)] old show ?thesis unfolding list_all_iff by blast
    next
      case (Link l)
      with capture_output_ok [OF assms(1)] Some old show ?thesis by (simp add: ar_digests_add)
    next
      case (Dir es)
      with capture_output_ok [OF assms(1)] Some obtain od where
        od: "ar' = ar\<lparr>ar_output_directories := ar_output_directories ar @ [od]\<rparr>"
          "capture_directory pb (st_put (task_store env t)) h n p (join_path dir p) s = Some (Ok od, s')"
        by auto
      from capture_directory_has [OF od(2)] old ar_digests_add(2) [of ar od] show ?thesis
        unfolding od(1) list_all_iff by blast
    qed
  qed
qed

lemma capture_paths_has:
  "capture_paths pb (st_put (task_store env t)) n dir ps ar (h, s) = Some (Ok ar', h', s') \<Longrightarrow>
    list_all (has t s) (ar_digests ar) \<Longrightarrow> list_all (has t s') (ar_digests ar')"
proof (induction ps arbitrary: ar h s)
  case Nil
  then show ?case by simp
next
  case (Cons p ps)
  then obtain ar1 h1 s1 where one: "capture_output pb (st_put (task_store env t)) n dir p ar (h, s) = Some (Ok ar1, h1, s1)"
    and rest: "capture_paths pb (st_put (task_store env t)) n dir ps ar1 (h1, s1) = Some (Ok ar', h', s')"
    by (auto split: option.splits res.splits)
  from Cons.IH [OF rest capture_output_has [OF one Cons.prems(2)]] show ?case .
qed

lemma run_task_has:
  assumes "run_task env n t (h, s) = Some (Ok ar, h', s')"
  shows "list_all (has t s') (ar_digests ar)"
proof -
  obtain command h0 s0 h2 dir where ri: "run_in env n (task_store env t) t command dir (h0, s0) = Some (Ok ar, h2, s')"
    using run_task_ok [OF assms] by blast
  obtain ar1 s1 where proc: "run_process env (task_store env t) (make_proc env t command dir) (h0, s0) = (Ok ar1, h2, s1)"
    and caps: "capture_paths (ag_codec env) (st_put (task_store env t)) n (exec_dir command dir) (output_paths command) ar1 (h2, s1) =
      Some (Ok ar, h2, s')"
    using run_in_ok [OF ri] by blast
  have "list_all (has t s1) (ar_digests ar1)"
  proof -
    obtain b c code s2 u v where
      p: "st_put (task_store env t) s0 (Some (from_bytes b)) b = (Ok u, s2)"
        "st_put (task_store env t) s2 (Some (from_bytes c)) c = (Ok v, s1)"
      and ar1: "ar1 = new_result (ag_clock env) code
        \<lparr>ar_stdout_digest := Some (from_bytes b), ar_stderr_digest := Some (from_bytes c)\<rparr>"
      using run_process_ok [OF proc] by blast
    have "has t s1 (Some (from_bytes b))" by (rule keep_has [OF put_keeps [OF p(2)] put_has [OF p(1)]])
    then show ?thesis using put_has [OF p(2)] by (simp add: ar1 ar_digests_def new_result_def)
  qed
  then show ?thesis by (rule capture_paths_has [OF caps])
qed

end

text \<open>For the agent over the bucket: the store of the task has a blob of that hash.\<close>

definition task_cfg :: "execute_task \<Rightarrow> s3_config" where
  "task_cfg t = \<lparr>s3_bucket_name = t_bucket t, s3_prefix = t_prefix t\<rparr>"

definition has_blob :: "execute_task \<Rightarrow> bucket \<Rightarrow> digest_ptr \<Rightarrow> bool" where
  "has_blob t s d \<longleftrightarrow> is_empty d \<or> v_blobs (s3_view bk_objs (task_cfg t) s) (get_hash d) \<noteq> None"

interpretation bucket_uploads: agent_uploads "env\<lparr>ag_client := \<lambda>_. bucket_client\<rparr>" adds_blobs "\<lambda>_ _. True" has_blob
  for env :: "bucket agent_env"
proof (unfold_locales, goal_cases)
  case (1 s s' t d)
  then show ?case using adds_blobs_present unfolding has_blob_def by blast
next
  case (2 t s b u s')
  have "good_digest (Some (from_bytes b))"
    by (simp add: good_digest_def valid_hash_plain valid_hash_sha256)
  moreover have "s3_put bucket_client (task_cfg t) s (Some (from_bytes b)) b = (Ok u, s')"
    using 2 by (simp add: task_store_def task_cfg_def)
  ultimately have "s3_view bk_objs (task_cfg t) s' = put_blob (s3_view bk_objs (task_cfg t) s) (Some (from_bytes b)) b"
    using ref_s3.s3_put_law by simp
  then show ?case by (simp add: has_blob_def put_blob_def)
qed

text \<open>
  C18.  A result the agent returns can be fetched: every digest in it (the streams, the output files, the
  trees and root directories of the output directories) is stored in the bucket and prefix of the
  task when the request ends, faults of the bucket or not.
\<close>

theorem agent_result_stored:
  assumes "ag_client env = (\<lambda>_. bucket_client)" and "run_task env n t (h, s) = Some (Ok ar, h', s')"
    and "d \<in> set (ar_digests ar)"
  shows "lookup_blob (s3_view bk_objs (task_cfg t) s') d \<noteq> None"
proof -
  have "env = env\<lparr>ag_client := \<lambda>_. bucket_client\<rparr>" using assms(1) by simp
  then have "has_blob t s' d"
    using bucket_uploads.run_task_has [of env n t h s ar h' s'] assms(2,3) by (simp add: list_all_iff)
  then show ?thesis by (auto simp: has_blob_def lookup_blob_def)
qed

text \<open>
  C30.  Whatever is sent to the agent, at any path and with any method, over a bucket with any faults
  and a file system with any: the handler does not panic, no action-cache entry changes under any
  prefix, every blob is what it was or hashes to its name (so a content-addressed store stays one),
  and no blob is lost.
\<close>

theorem agent_only_adds_blobs:
  assumes "ag_client env = (\<lambda>_. bucket_client)"
    and "agent_serve env n verb url_path body (h, s) = Some (r, h', s')"
  shows "r \<noteq> Panic \<and> v_acs (s3_view bk_objs cfg s') = v_acs (s3_view bk_objs cfg s) \<and>
    (content_addressed (s3_view bk_objs cfg s) \<longrightarrow> content_addressed (s3_view bk_objs cfg s')) \<and>
    (\<forall>hash. v_blobs (s3_view bk_objs cfg s) hash \<noteq> None \<longrightarrow> v_blobs (s3_view bk_objs cfg s') hash \<noteq> None)"
proof -
  have "env = env\<lparr>ag_client := \<lambda>_. bucket_client\<rparr>" using assms(1) by simp
  then have "r \<noteq> Panic \<and> adds_blobs s s'"
    using bucket_agent.agent_serve_tame [of s env n verb url_path body h] assms(2)
    by (simp add: bucket_agent.tame_opt_simps)
  then show ?thesis
    using adds_blobs_addressed [of s s' cfg] adds_blobs_present [of s s' cfg]
    unfolding adds_blobs_def by blast
qed

end
