(* ===== verification/FsNames.thy ===== *)
theory FsNames
  imports AgentReport
begin

text \<open>
  The calls of the agent keep the file system well formed: paths are joined from plain names, and
  resolving them, links included, leads to plain names.
\<close>

subsection \<open>Plain paths\<close>

abbreviation plain_path :: "fspath \<Rightarrow> bool" where
  "plain_path p \<equiv> list_all plain_name p"

lemma plain_nameI: "x \<noteq> [] \<Longrightarrow> x \<noteq> dot \<Longrightarrow> x \<noteq> dotdot \<Longrightarrow> CHR ''/'' \<notin> set x \<Longrightarrow> plain_name x"
  by (simp add: plain_name_def)

definition slashless :: "string list \<Rightarrow> bool" where
  "slashless xs \<longleftrightarrow> list_all (\<lambda>x. CHR ''/'' \<notin> set x) xs"

lemma slashless_simps [simp]:
  "slashless []" "slashless (x # xs) \<longleftrightarrow> CHR ''/'' \<notin> set x \<and> slashless xs"
  "slashless (xs @ ys) \<longleftrightarrow> slashless xs \<and> slashless ys"
  by (simp_all add: slashless_def)

lemma slashless_plain: "plain_path p \<Longrightarrow> slashless p"
  by (simp add: slashless_def list_all_iff plain_name_def)

lemma slashless_split [simp]: "slashless (split_on CHR ''/'' s)"
  using split_on_parts [of "CHR ''/''" s] by (simp add: slashless_def list_all_iff)

lemma clean_parts_plain_path: "slashless es \<Longrightarrow> plain_path (clean_parts True es)"
proof -
  have step: "plain_path (foldl (clean_step True) st es)" if "plain_path st" "slashless es" for st
    using that
  proof (induction es arbitrary: st)
    case (Cons e es)
    have "plain_path (clean_step True st e)"
      using Cons.prems by (auto simp: clean_step_def intro: plain_nameI split: list.split)
    with Cons show ?case by simp
  qed simp
  assume "slashless es"
  with step [of "[]"] show ?thesis by (simp add: clean_parts_def list_all_iff)
qed

lemma plain_join [simp]: "plain_path dir \<Longrightarrow> plain_path (join_path dir e)"
  unfolding join_path_def by (rule clean_parts_plain_path) (simp add: slashless_plain)

lemma plain_butlast: "plain_path p \<Longrightarrow> plain_path (butlast p)"
  by (auto simp: list_all_iff dest: in_set_butlastD)

lemma resolve_plain:
  "resolve r fl k cur xs = Ok q \<Longrightarrow> plain_path cur \<Longrightarrow> slashless xs \<Longrightarrow> plain_path q"
proof (induction r fl k cur xs rule: resolve.induct)
  case (1 r fl k cur)
  then show ?case by (simp add: resolve.simps)
next
  case (2 r fl k cur x rest)
  consider "x = '''' \<or> x = dot" | "x = dotdot" "x \<noteq> ''''" "x \<noteq> dot" | "x \<noteq> ''''" "x \<noteq> dot" "x \<noteq> dotdot"
    by blast
  then show ?case
  proof cases
    case 1
    then show ?thesis using "2.IH"(1) "2.prems" by (simp add: resolve.simps(2))
  next
    case 2
    then show ?thesis using "2.IH"(2) "2.prems" plain_butlast by (simp add: resolve.simps(2))
  next
    case 3
    then have cur: "plain_path (cur @ [x])" using "2.prems" by (simp add: plain_nameI)
    show ?thesis
    proof (cases "node_at r (cur @ [x])")
      case None
      then show ?thesis using 3 None "2.prems" cur by (auto simp: resolve.simps(2) split: if_splits)
    next
      case (Some m)
      show ?thesis
      proof (cases m)
        case (File b e)
        then show ?thesis using 3 Some "2.prems" cur by (auto simp: resolve.simps(2) split: if_splits)
      next
        case (Dir es)
        then show ?thesis using 3 Some "2.prems" "2.IH"(4) cur by (simp add: resolve.simps(2))
      next
        case (Link t)
        show ?thesis
        proof (cases "rest = [] \<and> \<not> fl")
          case True
          then show ?thesis using 3 Some Link "2.prems" cur by (auto simp: resolve.simps(2))
        next
          case False
          with 3 Some Link "2.prems" obtain k' where k: "k = Suc k'"
            "resolve r fl k' (if rooted t then [] else cur) (split_on CHR ''/'' t @ rest) = Ok q"
            by (cases k) (auto simp: resolve.simps(2))
          have "plain_path (if rooted t then [] else cur)" "slashless (split_on CHR ''/'' t @ rest)"
            using "2.prems" by simp_all
          with "2.IH"(3) [OF _ _ Some Link False k(1) k(2)] 3 show ?thesis by blast
        qed
      qed
    qed
  qed
qed

subsection \<open>Well-formed trees stay so\<close>

lemma wf_put_entry:
  assumes "wf_node (Dir es)" "plain_name x" "wf_node c"
  shows "wf_node (Dir (put_entry x c es))"
  using assms sorted_put_entry [of es x c] set_put_entry [of x c es] by (auto simp: list_all_iff)

lemma wf_entry: "wf_node (Dir es) \<Longrightarrow> map_of es x = Some c \<Longrightarrow> plain_name x \<and> wf_node c"
  by (auto simp: list_all_iff dest!: map_of_SomeD)

lemma wf_set_node: "wf_node n \<Longrightarrow> plain_path p \<Longrightarrow> wf_node c \<Longrightarrow> wf_node (set_node n p c)"
proof (induction n p c rule: set_node.induct)
  case (2 es x p c)
  show ?case
  proof (cases "p = []")
    case True
    with "2.prems" wf_put_entry [of es x c] show ?thesis by simp
  next
    case False
    show ?thesis
    proof (cases "map_of es x")
      case None
      with False "2.prems" show ?thesis by simp
    next
      case (Some d)
      have "wf_node (set_node d p c)"
        using "2.IH" [OF False Some] "2.prems" wf_entry [OF "2.prems"(1) Some] by simp
      with False Some "2.prems" wf_put_entry [of es x "set_node d p c"] show ?thesis by simp
    qed
  qed
qed simp_all

lemma wf_node_at: "wf_node n \<Longrightarrow> node_at n p = Some m \<Longrightarrow> wf_node m"
proof (induction n p rule: node_at.induct)
  case (2 es x p)
  then show ?case using wf_entry [of es x] by (cases "map_of es x") simp_all
qed simp_all

definition wf_fs :: "fs \<Rightarrow> bool" where
  "wf_fs h \<longleftrightarrow> wf_node (fs_root h)"

lemma change_wf:
  assumes "wf_fs h" "plain_path p" "\<And>x n. (\<And>m. x = Some m \<Longrightarrow> wf_node m) \<Longrightarrow> how x = Ok n \<Longrightarrow> wf_node n"
  shows "wf_fs (snd (os_change h fl call p how))"
proof (cases "resolve (fs_root h) fl max_links [] p")
  case (Ok q)
  have q: "plain_path q" by (rule resolve_plain [OF Ok]) (simp_all add: slashless_plain assms(2))
  have old: "wf_node m" if "node_at (fs_root h) q = Some m" for m
    using assms(1) that wf_node_at unfolding wf_fs_def by blast
  show ?thesis
  proof (cases "how (node_at (fs_root h) q)")
    case (Ok n)
    have "wf_node n" by (rule assms(3) [OF old Ok])
    with assms(1) q have "wf_node (set_node (fs_root h) q n)" unfolding wf_fs_def by (intro wf_set_node)
    with \<open>resolve _ _ _ _ _ = Ok q\<close> Ok assms(1) show ?thesis
      by (auto simp: os_change_def wf_fs_def split: option.split)
  qed (use \<open>resolve _ _ _ _ _ = Ok q\<close> assms(1) in \<open>auto simp: os_change_def split: option.split\<close>)
qed (use assms(1) in \<open>auto simp: os_change_def split: option.split\<close>)

lemma overwrite_wf: "overwrite b e x = Ok n \<Longrightarrow> wf_node n"
  by (cases "(b, e, x)" rule: overwrite.cases) auto

lemma create_only_wf: "create_only c x = Ok n \<Longrightarrow> wf_node c \<Longrightarrow> wf_node n"
  by (cases x) auto

lemma calls_wf [simp]:
  assumes "wf_fs h" "plain_path p"
  shows "wf_fs (snd (os_write_file h p b e))" "wf_fs (snd (os_create h p))" "wf_fs (snd (os_symlink h t p))"
    "wf_fs (snd (os_mkdir h p))"
proof -
  show "wf_fs (snd (os_write_file h p b e))" "wf_fs (snd (os_create h p))"
    unfolding os_write_file_def os_create_def by (rule change_wf [OF assms], erule overwrite_wf)+
  show "wf_fs (snd (os_mkdir h p))"
    unfolding os_mkdir_def by (rule change_wf [OF assms]) (auto dest: create_only_wf)
  have "t \<noteq> '''' \<Longrightarrow> wf_fs (snd (os_change h False ''symlink'' p (create_only (Link t))))"
    by (rule change_wf [OF assms]) (auto dest: create_only_wf)
  then show "wf_fs (snd (os_symlink h t p))" using assms(1) by (simp add: os_symlink_def)
qed

lemma mkdir_all_wf [simp]:
  assumes "wf_fs h" "plain_path p"
  shows "wf_fs (snd (os_mkdir_all h p))"
proof -
  have last: "wf_fs (snd (mkdir_last h p))" if "wf_fs h" "plain_path p" for h p
  proof -
    obtain r h' where m: "os_mkdir h p = (r, h')" by fastforce
    have "wf_fs h'" using calls_wf(4) [OF that] m by simp
    then show ?thesis by (auto simp: mkdir_last_def m split: res.splits)
  qed
  have "wf_fs (snd (mkdir_up q h))" if "plain_path q" for q
    using that
  proof (induction q)
    case Nil
    then show ?case using last [OF assms(1), of "[]"] by simp
  next
    case (Cons x q)
    obtain r h' where m: "mkdir_up q h = (r, h')" by fastforce
    have "wf_fs h'" using Cons m by simp
    then have "wf_fs (snd (mkdir_last h' (rev q @ [x])))"
      using last [of h' "rev q @ [x]"] Cons.prems by (simp add: list_all_iff)
    with \<open>wf_fs h'\<close> assms(1) show ?case by (auto simp: m split: res.splits)
  qed
  moreover have "plain_path (rev p)" using assms(2) by (simp add: list_all_iff)
  ultimately show ?thesis unfolding os_mkdir_all_def by blast
qed

end
