(* ===== verification/AgentReturns.thy ===== *)
theory AgentReturns
  imports FsNames
begin

text \<open>
  The agent returns.  The recursions over directories are bounded by a fuel in the model: here the
  fuel is shown to be no restriction.  The nesting of the input tree, which the store
  holds, bounds \<^verbatim>\<open>Materialize\<close>; the depth of the file system, which is finite, bounds the capture of
  directories; and what the agent does with enough fuel does not depend on it.
\<close>

subsection \<open>Materialize returns\<close>

text \<open>The directories below a digest, as far as they are stored and parse, nest less than \<open>n\<close> deep.\<close>

fun shallow_tree :: "codec \<Rightarrow> (digest_ptr \<Rightarrow> bool) \<Rightarrow> view \<Rightarrow> nat \<Rightarrow> digest_ptr \<Rightarrow> bool" where
  "shallow_tree pb okd v 0 d = False"
| "shallow_tree pb okd v (Suc n) d =
     (okd d \<and>
      (case lookup_blob v d of
         None \<Rightarrow> True
       | Some data \<Rightarrow>
           (case unmarshal_dir pb data of
              Inl e \<Rightarrow> True
            | Inr dm \<Rightarrow>
                list_all (\<lambda>f. okd (fn_digest f)) (dir_files dm) \<and>
                list_all (\<lambda>s. shallow_tree pb okd v n (dn_digest s)) (dir_directories dm))))"

lemma snd_wrap_err [simp]: "snd (wrap_err f as x) = snd x"
  by (cases "(f, as, x)" rule: wrap_err.cases) simp_all

lemma fst_wrap_err_ok: "wrap_err f as x = (Ok a, w) \<Longrightarrow> x = (Ok a, w)"
  by (cases "(f, as, x)" rule: wrap_err.cases) simp_all

context blob_store
begin

definition clean :: "view \<Rightarrow> fs \<times> 's \<Rightarrow> bool" where
  "clean v w \<longleftrightarrow> wf_fs (fst w) \<and> inv (snd w) \<and> vw (snd w) = v"

lemma clean_pair [simp]: "clean v (h, s) \<longleftrightarrow> wf_fs h \<and> inv s \<and> vw s = v"
  by (simp add: clean_def)

lemma clean_and_then:
  "clean v (snd x) \<Longrightarrow> (\<And>a w. x = (Ok a, w) \<Longrightarrow> clean v w \<Longrightarrow> clean v (snd (k a w))) \<Longrightarrow>
    clean v (snd (and_then x k))"
  by (cases "(x, k)" rule: and_then.cases) auto

lemma clean_get:
  "clean v (h, s) \<Longrightarrow> okd d \<Longrightarrow> clean v (snd (on_snd h (st_get st s d)))"
  using get_law [of s d] by (cases "st_get st s d") auto

lemma mat_files_clean:
  "plain_path dir \<Longrightarrow> list_all (\<lambda>f. okd (fn_digest f)) fs \<Longrightarrow> clean v w \<Longrightarrow>
    clean v (snd (mat_files (st_get st) dir fs w))"
proof (induction fs arbitrary: w)
  case (Cons f fs)
  obtain h s where w: "w = (h, s)" by fastforce
  show ?case
    unfolding w mat_files.simps
  proof (rule clean_and_then)
    fix a w1
    assume "(check_name (fn_name f), h, s) = (Ok a, w1)"
    have got: "clean v (snd (wrap_err ''fetch file %q (%s): %w'' [fn_name f, key (fn_digest f)]
        (on_snd h (st_get st s (fn_digest f)))))"
      using clean_get [of v h s "fn_digest f"] Cons.prems w by simp
    show "clean v (snd (and_then (wrap_err ''fetch file %q (%s): %w'' [fn_name f, key (fn_digest f)]
        (on_snd h (st_get st s (fn_digest f)))) (\<lambda>content (h, s).
      and_then (on_fst (os_write_file h (join_path dir (fn_name f)) content (fn_exec f)) s) (\<lambda>_ w.
        mat_files (st_get st) dir fs w))))"
      by (rule clean_and_then [OF got]) (auto intro!: clean_and_then Cons.IH simp: on_fst_def Cons.prems(1)
          Cons.prems(2) [simplified])
  qed (use Cons.prems w in simp)
qed simp

lemma mat_links_clean: "plain_path dir \<Longrightarrow> clean v w \<Longrightarrow> clean v (snd (mat_links dir ls w))"
proof (induction ls arbitrary: w)
  case (Cons l ls)
  obtain h s where w: "w = (h, s)" by fastforce
  show ?case
    unfolding w mat_links.simps
    by (rule clean_and_then) (use Cons w in \<open>auto intro!: clean_and_then Cons.IH simp: on_fst_def\<close>)
qed simp

lemma mat_subs_returns:
  assumes "\<And>sub dir w. sub \<in> set subs \<Longrightarrow> plain_path dir \<Longrightarrow> clean v w \<Longrightarrow>
      \<exists>r w'. materialize pb (st_get st) n (dn_digest sub) dir w = Some (r, w') \<and> clean v w'"
    and "plain_path dir" "clean v w"
  shows "\<exists>r w'. mat_subs pb (st_get st) n dir subs w = Some (r, w') \<and> clean v w'"
  using assms(1,3)
proof (induction subs arbitrary: w)
  case (Cons sub subs)
  obtain r w1 where m: "materialize pb (st_get st) n (dn_digest sub) (join_path dir (dn_name sub)) w = Some (r, w1)"
    "clean v w1"
    using Cons.prems(1) [of sub "join_path dir (dn_name sub)" w] Cons.prems(2) assms(2) by auto
  show ?case
    using m Cons.IH [of w1] Cons.prems by (cases "check_name (dn_name sub)"; cases r) auto
qed simp

lemma materialize_returns:
  "shallow_tree pb okd v n root \<Longrightarrow> plain_path dir \<Longrightarrow> clean v w \<Longrightarrow>
    \<exists>r w'. materialize pb (st_get st) n root dir w = Some (r, w') \<and> clean v w'"
proof (induction n arbitrary: root dir w)
  case (Suc n)
  obtain h s where w: "w = (h, s)" by fastforce
  have root: "okd root" using Suc.prems(1) by simp
  let ?fetch = "\<lambda>h s. wrap_err ''fetch directory %s: %w'' [key root] (on_snd h (st_get st s root))"
  let ?parse = "\<lambda>data w. wrap_err ''unmarshal directory %s: %w'' [key root] (of_ext (unmarshal_dir pb data), w)"
  let ?fill = "\<lambda>d w. and_then (mat_files (st_get st) dir (dir_files d) w) (\<lambda>_ w.
      and_then (mat_links dir (dir_symlinks d) w) (\<lambda>_ w. (Ok d, w)))"
  let ?x = "and_then (on_fst (os_mkdir_all h dir) s) (\<lambda>_ (h, s).
      and_then (?fetch h s) (\<lambda>data w. and_then (?parse data w) ?fill))"
  have fill: "clean v (snd (?fill d w1))" if "list_all (\<lambda>f. okd (fn_digest f)) (dir_files d)" "clean v w1" for d w1
    by (rule clean_and_then [OF mat_files_clean [OF Suc.prems(2) that]],
        rule clean_and_then [OF mat_links_clean [OF Suc.prems(2)]]) simp_all
  have read: "clean v (snd (?fetch h1 s1)) \<and>
      (\<forall>data w2. ?fetch h1 s1 = (Ok data, w2) \<longrightarrow> lookup_blob v root = Some data)"
    if c: "clean v (h1, s1)" for h1 s1
  proof -
    obtain rg s2 where g: "st_get st s1 root = (rg, s2)" by fastforce
    with get_law [OF _ root g] c show ?thesis by (auto dest!: fst_wrap_err_ok)
  qed
  have files: "list_all (\<lambda>f. okd (fn_digest f)) (dir_files d) \<and>
      list_all (\<lambda>x. shallow_tree pb okd v n (dn_digest x)) (dir_directories d)"
    if "lookup_blob v root = Some data" "unmarshal_dir pb data = Inr d" for data d
    using Suc.prems(1) that by simp
  have kept: "d' = d" if "?fill d w1 = (Ok d', w2)" for d d' w1 w2
    using that by (auto dest!: and_then_ok)
  obtain r0 h1 where mk: "os_mkdir_all h dir = (r0, h1)" by fastforce
  have c1: "clean v (h1, s)" using mkdir_all_wf [of h dir] mk Suc.prems(2,3) w by simp
  obtain rf w2 where f: "?fetch h1 s = (rf, w2)" by (metis surj_pair)
  have c2: "clean v w2" "rf = Ok data \<Longrightarrow> lookup_blob v root = Some data" for data
    using read [OF c1] f by auto
  have go: "\<exists>r w3. ?x = (r, w3) \<and> clean v w3 \<and> (\<forall>d. r = Ok d \<longrightarrow>
      list_all (\<lambda>x. shallow_tree pb okd v n (dn_digest x)) (dir_directories d))"
  proof (cases "\<exists>u data d. r0 = Ok u \<and> rf = Ok data \<and> unmarshal_dir pb data = Inr d")
    case True
    then obtain u data d where ok: "r0 = Ok u" "rf = Ok data" "unmarshal_dir pb data = Inr d" by blast
    have x: "?x = ?fill d w2" by (simp add: mk ok f [unfolded ok])
    obtain r3 w3 where fl: "?fill d w2 = (r3, w3)" by (metis surj_pair)
    have "clean v w3" using fill [of d w2] files [OF c2(2) ok(3)] c2(1) ok(2) fl by simp
    moreover have "\<forall>d'. r3 = Ok d' \<longrightarrow> d' = d" using kept fl by blast
    ultimately show ?thesis unfolding x fl using files [OF c2(2) ok(3)] ok(2) by auto
  next
    case False
    have bad: "\<exists>e. unmarshal_dir pb data = Inl e" if "rf = Ok data" "r0 = Ok ()" for data
      using False that by (cases "unmarshal_dir pb data") auto
    show ?thesis
      using c1 c2(1) f by (cases r0; cases rf; cases w2) (auto simp: mk dest!: bad)
  qed
  then obtain r w3 where x: "?x = (r, w3)" "clean v w3"
    "\<forall>d. r = Ok d \<longrightarrow> list_all (\<lambda>x. shallow_tree pb okd v n (dn_digest x)) (dir_directories d)"
    by blast
  show ?case
  proof (cases r)
    case (Ok d)
    have "\<exists>r w'. mat_subs pb (st_get st) n dir (dir_directories d) w3 = Some (r, w') \<and> clean v w'"
      by (rule mat_subs_returns) (use Suc.IH Suc.prems(2) x Ok in \<open>auto simp: list_all_iff\<close>)
    then show ?thesis unfolding w materialize.simps x(1) Ok by simp
  qed (use x in \<open>simp_all add: w\<close>)
qed simp

end

subsection \<open>Capturing returns\<close>

lemma resolve_append:
  "resolve r fl k cur xs = Ok q \<Longrightarrow> fl \<Longrightarrow> node_at r q = Some (Dir es) \<Longrightarrow> ys \<noteq> [] \<Longrightarrow>
    \<exists>k'. resolve r gl k cur (xs @ ys) = resolve r gl k' q ys"
proof (induction r fl k cur xs rule: resolve.induct)
  case (1 r fl k cur)
  then show ?case by (auto simp: resolve.simps(1))
next
  case (2 r fl k cur x rest)
  consider "x = '''' \<or> x = dot" | "x = dotdot" "x \<noteq> ''''" "x \<noteq> dot" | "x \<noteq> ''''" "x \<noteq> dot" "x \<noteq> dotdot"
    by blast
  then show ?case
  proof cases
    case 1
    then show ?thesis using "2.IH"(1) "2.prems" by (simp add: resolve.simps(2))
  next
    case 2
    then show ?thesis using "2.IH"(2) "2.prems" by (simp add: resolve.simps(2))
  next
    case 3
    show ?thesis
    proof (cases "node_at r (cur @ [x])")
      case None
      then show ?thesis using 3 "2.prems" by (auto simp: resolve.simps(2) split: if_splits)
    next
      case (Some m)
      show ?thesis
      proof (cases m)
        case (File b e)
        then show ?thesis using 3 Some "2.prems" by (auto simp: resolve.simps(2) split: if_splits)
      next
        case (Dir ds)
        then show ?thesis using 3 Some "2.prems" "2.IH"(4) by (simp add: resolve.simps(2))
      next
        case (Link t)
        with 3 Some "2.prems" obtain k' where k: "k = Suc k'"
          "resolve r fl k' (if rooted t then [] else cur) (split_on CHR ''/'' t @ rest) = Ok q"
          by (cases k) (auto simp: resolve.simps(2))
        have "\<not> (rest = [] \<and> \<not> fl)" using "2.prems" by simp
        with "2.IH"(3) [OF _ _ Some Link _ k(1) k(2)] "2.prems" 3
        have "\<exists>k''. resolve r gl k' (if rooted t then [] else cur) ((split_on CHR ''/'' t @ rest) @ ys) = resolve r gl k'' q ys"
          by blast
        with 3 Some Link k(1) "2.prems" show ?thesis by (simp add: resolve.simps(2))
      qed
    qed
  qed
qed

lemma read_dir_at:
  assumes "os_read_dir h p = Ok es"
  shows "\<exists>q. resolve (fs_root h) True max_links [] p = Ok q \<and> node_at (fs_root h) q = Some (Dir es)"
proof -
  have "os_stat h True ''readdir'' p = Ok (Dir es)"
    using assms by (auto simp: os_read_dir_def split: res.splits node.splits)
  then show ?thesis by (rule stat_at)
qed

text \<open>A subdirectory that is read by its path is an entry of the directory read before.\<close>

lemma read_dir_entry:
  assumes "os_read_dir h p = Ok es" "plain_name x" "os_lstat h (p @ [x]) = Ok info" "\<not> is_link info"
    and "os_read_dir h (p @ [x]) = Ok es'"
  shows "(x, Dir es') \<in> set es"
proof -
  obtain q q' where q: "resolve (fs_root h) True max_links [] p = Ok q" "node_at (fs_root h) q = Some (Dir es)"
    and q': "resolve (fs_root h) True max_links [] (p @ [x]) = Ok q'" "node_at (fs_root h) q' = Some (Dir es')"
    using read_dir_at [OF assms(1)] read_dir_at [OF assms(5)] by blast
  obtain q2 where q2: "resolve (fs_root h) False max_links [] (p @ [x]) = Ok q2" "node_at (fs_root h) q2 = Some info"
    using assms(3) stat_at unfolding os_lstat_def by blast
  obtain k' where "resolve (fs_root h) False max_links [] (p @ [x]) = resolve (fs_root h) False k' q [x]"
    using resolve_append [OF q(1) _ q(2), of "[x]" False] by auto
  moreover have "resolve (fs_root h) False k' q [x] = Ok (q @ [x])"
    using assms(2) node_at_snoc [OF q(2), of x]
    by (auto simp: resolve.simps plain_name_def split: option.split node.split)
  ultimately have "q2 = q @ [x]" using q2(1) by simp
  moreover have "q' = q2" using resolve_nonlink [OF q2(1) _ q2(2) assms(4)] q'(1) by simp
  ultimately have "map_of es x = Some (Dir es')" using q'(2) node_at_snoc [OF q(2), of x] by simp
  then show ?thesis by (rule map_of_SomeD)
qed

lemma build_entries_returns:
  assumes "\<And>x c info s. (x, c) \<in> set es \<Longrightarrow> is_dir c \<Longrightarrow> os_lstat h (join_path p x) = Ok info \<Longrightarrow> \<not> is_link info \<Longrightarrow>
      build_directory pb put h n (join_path p x) s \<noteq> None"
  shows "build_entries pb put h n p es dir desc s \<noteq> None"
  using assms
proof (induction es arbitrary: dir desc s)
  case (Cons e es)
  obtain x c where e: "e = (x, c)" by fastforce
  have IH: "build_entries pb put h n p es dir desc s \<noteq> None" for dir desc s
    by (rule Cons.IH, rule Cons.prems) auto
  have sub: "build_directory pb put h n (join_path p x) s \<noteq> None"
    if "os_lstat h (join_path p x) = Ok info" "\<not> is_link info" "is_dir c" for info s
    using Cons.prems [of x c info s] that e by simp
  show ?case
  proof (cases "os_lstat h (join_path p x)")
    case (Ok info)
    show ?thesis
    proof (cases "\<not> is_link info \<and> is_dir c")
      case True
      then obtain r s1 where "build_directory pb put h n (join_path p x) s = Some (r, s1)"
        using sub [OF Ok, of s] by auto
      with True Ok IH show ?thesis unfolding e by (cases r) (simp_all add: Let_def split: prod.split)
    next
      case False
      with Ok IH show ?thesis unfolding e by (auto simp: Let_def split: res.split prod.split)
    qed
  qed (simp_all add: e)
qed simp

lemma build_directory_returns:
  "0 < n \<Longrightarrow> wf_fs h \<Longrightarrow> plain_path p \<Longrightarrow> (\<And>es. os_read_dir h p = Ok es \<Longrightarrow> depth (Dir es) \<le> n) \<Longrightarrow>
    build_directory pb put h n p s \<noteq> None"
proof (induction n arbitrary: p s)
  case (Suc n)
  show ?case
  proof (cases "os_read_dir h p")
    case (Ok es)
    obtain q where "node_at (fs_root h) q = Some (Dir es)"
      using read_dir_at [OF Ok] by blast
    then have "wf_node (Dir es)" using Suc.prems(2) wf_node_at unfolding wf_fs_def by blast
    then have names: "plain_name x" if "(x, c) \<in> set es" for x c using that by (auto simp: list_all_iff)
    have "build_entries pb put h n p es empty_directory [] s \<noteq> None"
    proof (rule build_entries_returns)
      fix x c info s
      assume e: "(x, c) \<in> set es" "is_dir c" "os_lstat h (join_path p x) = Ok info" "\<not> is_link info"
      have j: "join_path p x = p @ [x]" using join_plain [OF Suc.prems(3) names [OF e(1)]] .
      have "0 < depth c" using e(2) by (cases c) simp_all
      then have "0 < n" using depth_entry [OF e(1)] Suc.prems(4) [OF Ok] by simp
      then show "build_directory pb put h n (join_path p x) s \<noteq> None"
      proof (rule Suc.IH [OF _ Suc.prems(2)])
        show "plain_path (join_path p x)" using Suc.prems(3) by simp
        fix es'
        assume "os_read_dir h (join_path p x) = Ok es'"
        with read_dir_entry [OF Ok names [OF e(1)]] e(3,4) have "(x, Dir es') \<in> set es" unfolding j by blast
        from depth_entry [OF this] show "depth (Dir es') \<le> n" using Suc.prems(4) [OF Ok] by simp
      qed
    qed
    with Ok show ?thesis by (auto split: res.split prod.split)
  qed simp_all
qed simp

lemma depth_node_at: "node_at n p = Some m \<Longrightarrow> depth m \<le> depth n"
proof (induction n p arbitrary: m rule: node_at.induct)
  case (2 es x p)
  then obtain c where c: "map_of es x = Some c" "depth m \<le> depth c" by (auto split: option.splits)
  from depth_entry [OF map_of_SomeD [OF c(1)]] c(2) show ?case by simp
qed simp_all

lemma capture_directory_returns:
  assumes "wf_fs h" "plain_path p" "depth (fs_root h) < n"
  shows "capture_directory pb put h n out p s \<noteq> None"
proof -
  have "depth (Dir es) \<le> n" if got: "os_read_dir h p = Ok es" for es
  proof -
    obtain q where "node_at (fs_root h) q = Some (Dir es)"
      using read_dir_at [OF got] by blast
    from depth_node_at [OF this] assms(3) show ?thesis by simp
  qed
  then have "build_directory pb put h n p s \<noteq> None"
    using build_directory_returns [OF _ assms(1,2), of n] assms(3) by simp
  then show ?thesis by (auto simp: capture_directory_def)
qed

lemma capture_output_returns:
  assumes "wf_fs h" "plain_path dir" "depth (fs_root h) < n"
  shows "\<exists>r s'. capture_output pb put n dir p ar (h, s) = Some (r, h, s')"
proof -
  let ?full = "join_path dir p"
  obtain r0 s0 where d: "capture_directory pb put h n p ?full s = Some (r0, s0)"
    using capture_directory_returns [OF assms(1) plain_join [OF assms(2)] assms(3), of pb put p p s] by auto
  show ?thesis
  proof (cases "os_lstat h ?full")
    case (Ok info)
    obtain r1 s1 where f: "capture_file put h p ?full (is_exec info) s = (r1, s1)" by fastforce
    show ?thesis
      by (cases "os_readlink h ?full"; cases r0; cases r1) (simp_all add: capture_output_def Let_def d f Ok)
  qed (simp_all add: capture_output_def Let_def)
qed

lemma capture_paths_returns:
  assumes "wf_fs h" "plain_path dir" "depth (fs_root h) < n"
  shows "\<exists>r s'. capture_paths pb put n dir ps ar (h, s) = Some (r, h, s')"
proof (induction ps arbitrary: ar s)
  case (Cons p ps)
  obtain r s1 where o: "capture_output pb put n dir p ar (h, s) = Some (r, h, s1)"
    using capture_output_returns [OF assms, of pb put p ar s] by auto
  with Cons.IH show ?case by (cases r) simp_all
qed simp

subsection \<open>More fuel changes nothing\<close>

lemma mat_subs_more:
  assumes "\<And>d dir w x. materialize pb get n d dir w = Some x \<Longrightarrow> materialize pb get (Suc n) d dir w = Some x"
  shows "mat_subs pb get n dir subs w = Some x \<Longrightarrow> mat_subs pb get (Suc n) dir subs w = Some x"
proof (induction subs arbitrary: w)
  case (Cons sub subs)
  show ?case
  proof (cases "check_name (dn_name sub)")
    case (Ok u)
    with Cons.prems obtain r w1 where m: "materialize pb get n (dn_digest sub) (join_path dir (dn_name sub)) w = Some (r, w1)"
      by (auto split: option.splits)
    from assms [OF m] m Ok Cons show ?thesis by (cases r) (auto simp del: materialize.simps)
  qed (use Cons.prems in simp_all)
qed simp

lemma materialize_more:
  "materialize pb get n d dir w = Some x \<Longrightarrow> materialize pb get (Suc n) d dir w = Some x"
proof (induction n arbitrary: d dir w x)
  case (Suc n)
  note more = mat_subs_more [OF Suc.IH]
  obtain h s where w: "w = (h, s)" by fastforce
  show ?case
    using Suc.prems unfolding w materialize.simps(2) [of pb get "Suc n"] materialize.simps(2) [of pb get n]
    by (auto split: prod.splits res.splits intro: more simp del: materialize.simps)
qed simp

lemma build_entries_more:
  assumes "\<And>p s x. build_directory pb put h n p s = Some x \<Longrightarrow> build_directory pb put h (Suc n) p s = Some x"
  shows "build_entries pb put h n p es dir desc s = Some x \<Longrightarrow> build_entries pb put h (Suc n) p es dir desc s = Some x"
proof (induction es arbitrary: dir desc s)
  case (Cons e es)
  obtain y c where e: "e = (y, c)" by fastforce
  show ?case
  proof (cases "os_lstat h (join_path p y)")
    case (Ok info)
    show ?thesis
    proof (cases "\<not> is_link info \<and> is_dir c")
      case True
      then obtain r s1 where b: "build_directory pb put h n (join_path p y) s = Some (r, s1)"
        using Cons.prems Ok by (auto simp: e Let_def split: option.splits)
      from assms [OF b] b True Ok Cons.prems Cons.IH show ?thesis
        unfolding e by (cases r) (auto simp: Let_def simp del: build_directory.simps split: prod.splits)
    next
      case False
      with Ok Cons show ?thesis
        unfolding e by (auto simp: Let_def simp del: build_directory.simps split: res.splits prod.splits)
    qed
  qed (use Cons.prems in \<open>simp_all add: e Let_def\<close>)
qed simp

lemma build_directory_more:
  "build_directory pb put h n p s = Some x \<Longrightarrow> build_directory pb put h (Suc n) p s = Some x"
proof (induction n arbitrary: p s x)
  case (Suc n)
  have more: "build_entries pb put h (Suc n) p es dir desc s = Some x"
    if "build_entries pb put h n p es dir desc s = Some x" for es dir desc s x
    by (rule build_entries_more [OF Suc.IH that])
  show ?case
  proof (cases "os_read_dir h p")
    case (Ok es)
    then obtain r s1 where b: "build_entries pb put h n p es empty_directory [] s = Some (r, s1)"
      using Suc.prems by (auto split: option.splits)
    from more [OF b] b Ok Suc.prems show ?thesis
      unfolding build_directory.simps(2) [of pb put h "Suc n"] build_directory.simps(2) [of pb put h n]
      by (cases r) (auto simp del: build_directory.simps build_entries.simps)
  qed (use Suc.prems in simp_all)
qed simp

lemma capture_output_more:
  "capture_output pb put n dir p ar w = Some x \<Longrightarrow> capture_output pb put (Suc n) dir p ar w = Some x"
  by (cases w)
     (auto simp: capture_output_def capture_directory_def Let_def simp del: build_directory.simps
       split: res.splits if_splits option.splits dest: build_directory_more)

lemma capture_paths_more:
  "capture_paths pb put n dir ps ar w = Some x \<Longrightarrow> capture_paths pb put (Suc n) dir ps ar w = Some x"
proof (induction ps arbitrary: ar w)
  case (Cons p ps)
  obtain r w1 where o: "capture_output pb put n dir p ar w = Some (r, w1)"
    using Cons.prems by (auto split: option.splits)
  from capture_output_more [OF o] o Cons show ?case by (cases r) auto
qed simp

lemma run_in_more: "run_in env n st t command dir w = Some x \<Longrightarrow> run_in env (Suc n) st t command dir w = Some x"
  by (auto simp: run_in_def capture_outputs_def split: prod.splits res.splits dest: capture_paths_more)

lemma run_with_inputs_more:
  assumes "run_with_inputs env n st t command dir w = Some x"
  shows "run_with_inputs env (Suc n) st t command dir w = Some x"
proof -
  let ?root = "Some \<lparr>d_hash = t_root_hash t, d_size = t_root_size t\<rparr>"
  obtain r w1 where m: "materialize (ag_codec env) (st_get st) n ?root dir w = Some (r, w1)"
    using assms by (auto simp: run_with_inputs_def Let_def split: option.splits)
  from materialize_more [OF m] m assms show ?thesis
    by (cases r) (simp_all add: run_with_inputs_def Let_def run_in_more del: materialize.simps)
qed

lemma run_task_more: "run_task env n t w = Some x \<Longrightarrow> run_task env (Suc n) t w = Some x"
  by (auto simp: run_task_def Let_def split: option.splits sum.splits if_splits prod.splits res.splits
      dest: run_with_inputs_more)

lemma handle_execute_more:
  assumes "handle_execute env n verb body w = Some x"
  shows "handle_execute env (Suc n) verb body w = Some x"
proof (cases "verb \<noteq> ''POST'' \<or> (\<exists>e. decode_task (ag_json env) body = Inl e)")
  case True
  with assms show ?thesis by (auto simp: handle_execute_def)
next
  case False
  then obtain t where t: "verb = ''POST''" "decode_task (ag_json env) body = Inr t"
    by (cases "decode_task (ag_json env) body") auto
  then obtain y where y: "run_task env n t w = Some y"
    using assms by (auto simp: handle_execute_def split: option.splits)
  from run_task_more [OF y] y assms t show ?thesis by (simp add: handle_execute_def)
qed

lemma agent_serve_more:
  "agent_serve env n verb path body w = Some x \<Longrightarrow> agent_serve env (Suc n) verb path body w = Some x"
  by (auto simp: agent_serve_def split: if_splits dest: handle_execute_more)

lemma more_fuel:
  assumes "f m = Some x" "\<And>n x. f n = Some x \<Longrightarrow> f (Suc n) = Some x" "m \<le> n"
  shows "f n = Some x"
  using assms(3,1) by (induction rule: dec_induct) (auto intro: assms(2))

subsection \<open>The agent returns\<close>

text \<open>A process that keeps a well-formed file system well formed, started at plain paths.\<close>

definition keeps_fs :: "'s agent_env \<Rightarrow> bool" where
  "keeps_fs env \<longleftrightarrow>
     (\<forall>q h. plain_path (p_stdout q) \<and> plain_path (p_stderr q) \<and> plain_path (p_dir q) \<and> wf_fs h \<longrightarrow>
        wf_fs (snd (ag_run env q h)))"

lemma fs_and_then:
  "wf_fs (fst (snd x)) \<Longrightarrow> (\<And>a h s. wf_fs h \<Longrightarrow> wf_fs (fst (snd (k a (h, s))))) \<Longrightarrow>
    wf_fs (fst (snd (and_then x k)))"
  by (cases "(x, k)" rule: and_then.cases) auto

lemma attach_stream_fs [simp]: "fst (snd (attach_stream put ar file e (h, s))) = h"
proof (cases "os_read_file h file")
  case (Ok b)
  obtain r s' where "put s (Some (from_bytes b)) b = (r, s')" by fastforce
  with Ok show ?thesis by (cases r) (simp_all add: attach_stream_def Let_def)
qed (simp_all add: attach_stream_def)

lemma plain_exec_dir: "plain_path dir \<Longrightarrow> plain_path (exec_dir command dir)"
  by (simp add: exec_dir_def)

lemma run_process_wf:
  assumes "keeps_fs env" "plain_path dir" "wf_fs h"
  shows "wf_fs (fst (snd (run_process env st (make_proc env t command dir) (h, s))))"
proof -
  let ?p = "make_proc env t command dir"
  have p: "plain_path (p_stdout ?p)" "plain_path (p_stderr ?p)" "plain_path (p_dir ?p)"
    using assms(2) by (simp_all add: make_proc_def plain_exec_dir)
  have run: "wf_fs h2" if "ag_run env ?p h1 = (x, h2)" "wf_fs h1" for x h1 h2
    using assms(1) p that unfolding keeps_fs_def by (metis snd_conv)
  have tail: "wf_fs (fst (snd (case ag_run env ?p h2 of ((r, deadline), h') \<Rightarrow>
      and_then (exit_code r deadline, h', s2) (\<lambda>code w.
      and_then (attach_stream (st_put st) (new_result (ag_clock env) code) (p_stdout ?p) False w)
        (\<lambda>ar w. attach_stream (st_put st) ar (p_stderr ?p) True w)))))"
    if wf: "wf_fs h2" for h2 s2
  proof -
    obtain r deadline h3 where a: "ag_run env ?p h2 = ((r, deadline), h3)" by (metis surj_pair)
    have "wf_fs h3" by (rule run [OF a wf])
    then show ?thesis unfolding a prod.case by (auto intro!: fs_and_then)
  qed
  show ?thesis
    unfolding run_process_def prod.case
    by (rule fs_and_then, simp add: on_fst_def assms(3) p, unfold prod.case, rule fs_and_then,
        simp add: on_fst_def p, unfold prod.case, rule tail)
qed

lemma run_in_returns:
  assumes "keeps_fs env" "plain_path dir" "wf_fs h"
  shows "\<exists>n. run_in env n st t command dir (h, s) \<noteq> None"
proof -
  obtain r h1 s1 where x: "run_process env st (make_proc env t command dir) (h, s) = (r, h1, s1)"
    by (rule prod_cases3)
  have "wf_fs h1" using run_process_wf [OF assms, of st t command s] x by simp
  then show ?thesis
    using capture_paths_returns [OF _ plain_exec_dir [OF assms(2)] lessI, of h1 "ag_codec env" "st_put st" command
        "output_paths command" _ s1]
    by (cases r) (fastforce simp: run_in_def x capture_outputs_def)+
qed

lemma run_with_inputs_returns:
  assumes "keeps_fs env" "plain_path dir" "wf_fs h" "blob_store st (ag_codec env) si okd vw" "si s"
    and "shallow_tree (ag_codec env) okd (vw s) m (Some \<lparr>d_hash = t_root_hash t, d_size = t_root_size t\<rparr>)"
  shows "\<exists>n. run_with_inputs env n st t command dir (h, s) \<noteq> None"
proof -
  let ?root = "Some \<lparr>d_hash = t_root_hash t, d_size = t_root_size t\<rparr>"
  let ?mat = "\<lambda>n. materialize (ag_codec env) (st_get st) n ?root dir (h, s)"
  note clean = blob_store.clean_pair [OF assms(4)]
  obtain r h1 s1 where m: "?mat m = Some (r, h1, s1)" "wf_fs h1"
    using blob_store.materialize_returns [OF assms(4,6,2), of "(h, s)"] assms(3,5) by (auto simp: clean)
  show ?thesis
  proof (cases r)
    case (Ok u)
    obtain n where n: "run_in env n st t command dir (h1, s1) \<noteq> None"
      using run_in_returns [OF assms(1,2) m(2)] by blast
    then obtain y where y: "run_in env n st t command dir (h1, s1) = Some y" by blast
    have "?mat (max m n) = Some (r, h1, s1)"
      by (rule more_fuel [of ?mat, OF m(1) materialize_more]) simp_all
    moreover have "run_in env (max m n) st t command dir (h1, s1) = Some y"
      by (rule more_fuel [of "\<lambda>n. run_in env n st t command dir (h1, s1)", OF y run_in_more]) simp_all
    ultimately have "run_with_inputs env (max m n) st t command dir (h, s) = Some y"
      by (simp add: run_with_inputs_def Ok)
    then show ?thesis by blast
  next
    case (Err e)
    then have "run_with_inputs env m st t command dir (h, s) \<noteq> None" using m(1) by (simp add: run_with_inputs_def)
    then show ?thesis ..
  next
    case Panic
    then have "run_with_inputs env m st t command dir (h, s) \<noteq> None" using m(1) by (simp add: run_with_inputs_def)
    then show ?thesis ..
  qed
qed

lemma plain_work_dir:
  "plain_name x \<Longrightarrow> plain_path [''tmp'', x]"
  by (simp add: plain_name_def dot_def dotdot_def)

lemma run_task_returns:
  fixes env :: "bucket agent_env"
  assumes "keeps_fs env" and "wf_fs h" and "plain_name (''buildfarm-action-'' @ ag_tmp env h)"
    and "ag_client env = (\<lambda>_. bucket_client)"
    and "shallow_tree (ag_codec env) good_digest (s3_view bk_objs (task_cfg t) s) m
        (Some \<lparr>d_hash = t_root_hash t, d_size = t_root_size t\<rparr>)"
  shows "\<exists>n. run_task env n t (h, s) \<noteq> None"
proof -
  let ?dir = "[''tmp'', ''buildfarm-action-'' @ ag_tmp env h]"
  note dir = plain_work_dir [OF assms(3)]
  obtain rm h1 where mk: "os_mkdir h ?dir = (rm, h1)" by fastforce
  have "wf_fs h1" using calls_wf(4) [OF assms(2) dir] mk by simp
  moreover have "blob_store (task_store env t) (ag_codec env) (\<lambda>_. True) good_digest (s3_view bk_objs (task_cfg t))"
    using ref_s3.s3_blobs.blob_store_axioms [of "task_cfg t" "ag_codec env"]
    by (simp add: task_store_def task_cfg_def assms(4))
  ultimately have "\<exists>n. run_with_inputs env n (task_store env t) t command ?dir (h1, s) \<noteq> None" for command
    using assms(5) by (intro run_with_inputs_returns [OF assms(1) dir, where si = "\<lambda>_. True"]) simp_all
  then have inputs: "\<exists>n y. run_with_inputs env n (task_store env t) t command ?dir (h1, s) = Some y" for command
    by blast
  show ?thesis
  proof (cases "\<exists>c. ag_config env (t_region t) = None \<and> unmarshal_cmd (ag_codec env) (t_command t) = Inr c")
    case True
    then obtain c where c: "ag_config env (t_region t) = None" "unmarshal_cmd (ag_codec env) (t_command t) = Inr c"
      by blast
    obtain n y where "run_with_inputs env n (task_store env t) t c ?dir (h1, s) = Some y"
      using inputs [of c] by blast
    moreover obtain a b e where "cleanup ?dir y = (a, b, e)" by (rule prod_cases3)
    ultimately have "run_task env n t (h, s) \<noteq> None"
      using c mk by (cases rm) (simp_all add: run_task_def)
    then show ?thesis ..
  next
    case False
    then have "run_task env n t (h, s) \<noteq> None" for n
      by (auto simp: run_task_def split: option.split sum.split)
    then show ?thesis by blast
  qed
qed

subsection \<open>The property\<close>

text \<open>
  C19.  The agent answers every request: when the input tree of the task has no cycle as far as it is
  stored (\<open>m\<close> bounds its nesting), the process ends, and it leaves a well-formed file system, there is
  one answer, no panic, that the agent gives with every fuel from some point on, whatever else is asked of
  it and whichever calls fail.  So the fuel of the model stands for no limit of the code.
\<close>

theorem agent_returns:
  fixes env :: "bucket agent_env"
  assumes "keeps_fs env" and "wf_fs h" and "plain_name (''buildfarm-action-'' @ ag_tmp env h)"
    and "\<And>t. decode_task (ag_json env) body = Inr t \<Longrightarrow>
      shallow_tree (ag_codec env) good_digest (s3_view bk_objs (task_cfg t) s) m
        (Some \<lparr>d_hash = t_root_hash t, d_size = t_root_size t\<rparr>)"
  shows "\<exists>resp w' n0. \<forall>n \<ge> n0.
    agent_serve (env\<lparr>ag_client := \<lambda>_. bucket_client\<rparr>) n verb path body (h, s) = Some (Ok resp, w')"
proof -
  let ?env = "env\<lparr>ag_client := \<lambda>_. bucket_client\<rparr>"
  have task: "\<exists>n. run_task ?env n t (h, s) \<noteq> None" if t: "decode_task (ag_json env) body = Inr t" for t
    by (rule run_task_returns [where m = m]) (use assms(1-3) assms(4) [OF t] in \<open>simp_all add: keeps_fs_def\<close>)
  have "\<exists>n. agent_serve ?env n verb path body (h, s) \<noteq> None"
  proof (cases "decode_task (ag_json env) body")
    case (Inl e)
    then show ?thesis by (simp add: agent_serve_def handle_execute_def)
  next
    case (Inr t)
    obtain n y where y: "run_task ?env n t (h, s) = Some y" using task [OF Inr] by blast
    then have "agent_serve ?env n verb path body (h, s) \<noteq> None"
      using Inr by (auto simp: agent_serve_def handle_execute_def split: prod.split res.split sum.split)
    then show ?thesis ..
  qed
  then obtain n0 r h' s' where n0: "agent_serve ?env n0 verb path body (h, s) = Some (r, h', s')" by auto
  have "agent_serve ?env n verb path body (h, s) = Some (r, h', s')" if "n0 \<le> n" for n
    by (rule more_fuel [of "\<lambda>n. agent_serve ?env n verb path body (h, s)", OF n0 agent_serve_more that])
  moreover have "\<exists>resp. r = Ok resp"
  proof -
    have "r \<noteq> Panic"
      using bucket_agent.agent_serve_tame [of s env n0 verb path body h] n0 by (simp add: bucket_agent.tame_opt_simps)
    then show ?thesis
      using n0 by (cases r)
        (auto simp: agent_serve_def handle_execute_def split: if_splits sum.splits option.splits res.splits)
  qed
  ultimately show ?thesis by metis
qed

end
