(* ===== verification/AgentDemo.thy ===== *)
theory AgentDemo
  imports AgentReturns
begin

text \<open>
  The agent at work on concrete values: a command that writes one byte to its standard output and to
  its expected output, run over an empty bucket, and the properties of the agent applied to it.
\<close>

subsection \<open>A task, a machine and a process\<close>

definition agent_command :: command where
  "agent_command = \<lparr>c_arguments = [''run''], c_environment = [], c_output_files = [],
     c_output_directories = [], c_output_paths = [''out''], c_working_directory = ''''\<rparr>"

definition agent_result :: action_result where
  "agent_result = \<lparr>ar_output_files = [\<lparr>of_path = ''out'', of_digest = Some zero_digest, of_exec = False\<rparr>],
     ar_output_directories = [], ar_output_symlinks = [], ar_exit_code = 0,
     ar_stdout_digest = Some zero_digest, ar_stderr_digest = Some empty_digest,
     ar_metadata = Some \<lparr>em_worker = ''lambda-microvm'', em_worker_start = 1, em_worker_completed = 2,
       em_exec_start = 1, em_exec_completed = 2\<rparr>\<rparr>"

definition empty_result :: action_result where
  "empty_result = \<lparr>ar_output_files = [], ar_output_directories = [], ar_output_symlinks = [], ar_exit_code = 0,
     ar_stdout_digest = None, ar_stderr_digest = None, ar_metadata = None\<rparr>"

definition farm_action_msg :: action where
  "farm_action_msg = \<lparr>a_command_digest = Some empty_digest, a_input_root = Some empty_digest,
     a_timeout = Some 1000000000, a_do_not_cache = False\<rparr>"

definition agent_codec :: codec where
  "agent_codec = table_codec [empty_directory] [] [empty_result, agent_result] [farm_action_msg] [agent_command]"

lemma agent_result_neq [simp]: "agent_result \<noteq> empty_result" "empty_result \<noteq> agent_result"
  by (simp_all add: agent_result_def empty_result_def)

definition agent_task :: execute_task where
  "agent_task = \<lparr>t_region = ''us-east-1'', t_bucket = ''farm'', t_prefix = ''p'', t_command = [],
     t_root_hash = empty_hash, t_root_size = 0, t_timeout = 1\<rparr>"

definition agent_host :: fs where
  "agent_host = \<lparr>fs_root = Dir [(''tmp'', Dir [])], fs_fault = (\<lambda>_ _. None)\<rparr>"

text \<open>The process writes one byte to its standard output and to the file \<^verbatim>\<open>out\<close>.\<close>

definition demo_process :: "proc \<Rightarrow> fs \<Rightarrow> (run_result \<times> bool) \<times> fs" where
  "demo_process p h =
     ((RunOk, False),
      snd (os_write_file (snd (os_write_file h (p_stdout p) [0] False)) (join_path (p_dir p) ''out'') [0] False))"

definition demo_agent :: "json_text \<Rightarrow> bucket agent_env" where
  "demo_agent jt = \<lparr>ag_config = (\<lambda>_. None), ag_client = (\<lambda>_. bucket_client), ag_codec = agent_codec,
     ag_json = jt, ag_tmp = (\<lambda>_. ''1''), ag_run = demo_process, ag_clock = (1, 2), ag_path = ''''\<rparr>"

definition work_tree :: "entries \<Rightarrow> fs" where
  "work_tree es = \<lparr>fs_root = Dir [(''tmp'', Dir [(''buildfarm-action-1'', Dir es)])], fs_fault = (\<lambda>_ _. None)\<rparr>"

lemma work_names [simp]:
  "plain_name ''tmp''" "plain_name ''buildfarm-action-1''" "plain_name ''out''" "plain_name ''.stdout''"
  "plain_name ''.stderr''"
  by (simp_all add: plain_name_def dot_def dotdot_def)

lemma work_dir: "real_dir (work_tree es) [''tmp'', ''buildfarm-action-1''] es"
  by (simp add: real_dir_def work_tree_def)

lemma demo_mkdir: "os_mkdir agent_host [''tmp'', ''buildfarm-action-1''] = (Ok (), work_tree [])"
proof -
  have "real_dir agent_host [''tmp''] []" by (simp add: real_dir_def agent_host_def)
  from change_entry [OF this, of "''buildfarm-action-1''" False "''mkdir''" "create_only (Dir [])"]
  show ?thesis by (simp add: os_mkdir_def agent_host_def work_tree_def)
qed

lemma work_fault [simp]: "fs_fault (work_tree es) c p = None"
  by (simp add: work_tree_def)

lemma work_set [simp]:
  "(work_tree es)\<lparr>fs_root := set_node (fs_root (work_tree es)) [''tmp'', ''buildfarm-action-1'', x] c\<rparr> =
    work_tree (put_entry x c es)"
  by (simp add: work_tree_def)

lemma work_join [simp]:
  "plain_name x \<Longrightarrow> join_path [''tmp'', ''buildfarm-action-1''] x = [''tmp'', ''buildfarm-action-1'', x]"
  by (simp add: join_plain)

lemma work_change:
  assumes "plain_name x" "\<And>t. fl \<Longrightarrow> map_of es x \<noteq> Some (Link t)"
  shows "os_change (work_tree es) fl call [''tmp'', ''buildfarm-action-1'', x] how =
    (case how (map_of es x) of
       Ok n \<Rightarrow> (Ok (), work_tree (put_entry x n es)) | Err e \<Rightarrow> (Err e, work_tree es) | Panic \<Rightarrow> (Panic, work_tree es))"
  using change_entry [OF work_dir assms(1), where fl = fl and call = call and how = how] assms(2)
  by (simp split: res.split)

lemma work_stat:
  assumes "plain_name x" "\<And>t. fl \<Longrightarrow> map_of es x \<noteq> Some (Link t)"
  shows "os_stat (work_tree es) fl call [''tmp'', ''buildfarm-action-1'', x] =
    (case map_of es x of None \<Rightarrow> Err enoent | Some n \<Rightarrow> Ok n)"
  using stat_entry [OF work_dir assms] by simp

definition zero_put :: "bucket \<Rightarrow> bucket" where
  "zero_put s = snd (s3_put bucket_client (task_cfg agent_task) s (Some zero_digest) [0])"

lemma demo_put:
  "bk_faults s = [] \<Longrightarrow> s3_put bucket_client (task_cfg agent_task) s (Some zero_digest) [0] = (Ok (), zero_put s)"
  "bk_faults s = [] \<Longrightarrow> bk_faults (zero_put s) = []"
  "s3_put bucket_client (task_cfg agent_task) s (Some empty_digest) [] = (Ok (), s)"
  by (simp_all add: zero_put_def s3_put_def s3_put_stream_def bk_upload_def bk_put_def bk_next_def is_empty_eq
      zero_digest_def empty_digest_def empty_hash_def)

lemma demo_store [simp]:
  "st_get (task_store (demo_agent jt) agent_task) = s3_get bucket_client (task_cfg agent_task)"
  "st_put (task_store (demo_agent jt) agent_task) = s3_put bucket_client (task_cfg agent_task)"
  by (simp_all add: task_store_def demo_agent_def task_cfg_def)

lemma demo_materialize:
  "materialize agent_codec (s3_get bucket_client (task_cfg agent_task)) 1 (Some empty_digest)
     [''tmp'', ''buildfarm-action-1''] (work_tree [], s) = Some (Ok (), work_tree [], s)"
proof -
  have mk: "os_mkdir_all (work_tree []) [''tmp'', ''buildfarm-action-1''] = (Ok (), work_tree [])"
    using mkdir_all_existing [OF work_dir, of "[]"]
    by (cases "os_mkdir_all (work_tree []) [''tmp'', ''buildfarm-action-1'']") (simp add: no_fault_def)
  have get: "s3_get bucket_client (task_cfg agent_task) s (Some empty_digest) = (Ok [], s)"
    by (simp add: s3_get_def is_empty_eq)
  show ?thesis
    by (simp add: numeral_nat One_nat_def mk get agent_codec_def table_decode_def empty_directory_def)
qed

lemma demo_agent_sel [simp]:
  "ag_config (demo_agent jt) = (\<lambda>_. None)" "ag_client (demo_agent jt) = (\<lambda>_. bucket_client)"
  "ag_codec (demo_agent jt) = agent_codec" "ag_json (demo_agent jt) = jt" "ag_tmp (demo_agent jt) h = ''1''"
  "ag_run (demo_agent jt) = demo_process" "ag_clock (demo_agent jt) = (1, 2)" "ag_path (demo_agent jt) = []"
  by (simp_all add: demo_agent_def)

lemma demo_process_run:
  assumes "bk_faults s = []"
  shows "run_process (demo_agent jt) (task_store (demo_agent jt) agent_task)
     (make_proc (demo_agent jt) agent_task agent_command [''tmp'', ''buildfarm-action-1'']) (work_tree [], s) =
   (Ok (agent_result\<lparr>ar_output_files := []\<rparr>),
    work_tree [(''.stderr'', File [] False), (''.stdout'', File [0] False), (''out'', File [0] False)], zero_put s)"
  using assms
  by (simp add: run_process_def make_proc_def exec_dir_def agent_command_def os_create_def work_change
      demo_process_def os_write_file_def exit_code_def attach_stream_def os_read_file_def work_stat Let_def
      from_bytes_zero from_bytes_Nil demo_put new_result_def agent_result_def less_char_def)

lemma demo_run_in:
  assumes "bk_faults s = []"
  shows "run_in (demo_agent jt) 1 (task_store (demo_agent jt) agent_task) agent_task agent_command
      [''tmp'', ''buildfarm-action-1''] (work_tree [], s) =
    Some (Ok agent_result,
      work_tree [(''.stderr'', File [] False), (''.stdout'', File [0] False), (''out'', File [0] False)],
      zero_put (zero_put s))"
  by (simp add: run_in_def demo_process_run [OF assms])
     (simp add: exec_dir_def agent_command_def capture_outputs_def output_paths_def capture_output_def capture_file_def
      os_lstat_def os_read_file_def work_stat Let_def from_bytes_zero demo_put assms agent_result_def)

lemma empty_bucket_faults: "bk_faults empty_bucket = []"
  by (simp add: empty_bucket_def)

lemma demo_task_run:
  "run_task (demo_agent jt) 1 agent_task (agent_host, empty_bucket) =
    Some (Ok agent_result, agent_host, zero_put (zero_put empty_bucket))"
proof -
  have root: "Some \<lparr>d_hash = t_root_hash agent_task, d_size = t_root_size agent_task\<rparr> = Some empty_digest"
    by (simp add: agent_task_def empty_digest_def)
  have cmd: "unmarshal_cmd agent_codec (t_command agent_task) = Inr agent_command" "c_arguments agent_command \<noteq> []"
    by (simp_all add: agent_codec_def agent_task_def table_decode_def agent_command_def)
  have inputs: "run_with_inputs (demo_agent jt) 1 (task_store (demo_agent jt) agent_task) agent_task agent_command
      [''tmp'', ''buildfarm-action-1''] (work_tree [], empty_bucket) =
    Some (Ok agent_result,
      work_tree [(''.stderr'', File [] False), (''.stdout'', File [0] False), (''out'', File [0] False)],
      zero_put (zero_put empty_bucket))"
    unfolding run_with_inputs_def root Let_def demo_agent_sel demo_store demo_materialize option.case prod.case
      res.case demo_run_in [OF empty_bucket_faults] ..
  have "snd (os_remove_all (work_tree es) [''tmp'', ''buildfarm-action-1'']) = agent_host" for es
  proof -
    have "resolve (fs_root (work_tree es)) False max_links [] [''tmp'', ''buildfarm-action-1''] = Ok [''tmp'', ''buildfarm-action-1'']"
      using work_dir [of es] by (simp add: real_dir_def resolve_self)
    then show ?thesis by (simp add: os_remove_all_def) (simp add: work_tree_def agent_host_def)
  qed
  with inputs cmd show ?thesis
    by (simp add: run_task_def demo_mkdir cleanup_def)
qed

subsection \<open>The properties of the agent on this run\<close>

text \<open>
  A text of JSON values that knows those of a table: the number of the value in unary, with an end
  mark.  What follows the mark is white space.
\<close>

definition table_json :: "json list \<Rightarrow> json_text" where
  "table_json js =
     (let read = (\<lambda>b. let n = length (takeWhile (\<lambda>x. x = 0) b)
                     in if n < length js \<and> n < length b \<and> b ! n = 1 then Inr (js ! n)
                        else Inl ''unexpected end of JSON input'')
      in \<lparr>jt_render = (\<lambda>j. case position j js of None \<Rightarrow> [] | Some n \<Rightarrow> replicate n 0 @ [1]),
          jt_parse = read, jt_first = read\<rparr>)"

lemma mark_length [simp]: "length (takeWhile (\<lambda>x. x = 0) (replicate n (0 :: byte) @ 1 # b)) = n"
  by (induction n) simp_all

lemma mark_nth [simp]: "(replicate n x @ y # b) ! n = y"
  by (induction n) simp_all

lemma table_json_ok: "j \<in> set js \<Longrightarrow> json_text_ok (table_json js) j"
  using position_in [of j js] by (auto simp: table_json_def json_text_ok_def Let_def dest: position_nth)

definition demo_json :: json_text where
  "demo_json = table_json [json_of_task agent_task, json_of_result \<lparr>tr_action_result = [0], tr_error = []\<rparr>]"

lemma demo_json_ok:
  "json_text_ok demo_json (json_of_task agent_task)"
  "json_text_ok demo_json (json_of_result \<lparr>tr_action_result = [0], tr_error = []\<rparr>)"
  unfolding demo_json_def by (rule table_json_ok; simp)+

lemma demo_serve:
  "agent_serve (demo_agent demo_json) 1 ''POST'' execute_path (jt_render demo_json (json_of_task agent_task))
     (agent_host, empty_bucket) =
   Some (Ok (write_result demo_json \<lparr>tr_action_result = [0], tr_error = []\<rparr>), agent_host,
     zero_put (zero_put empty_bucket))"
proof -
  have task: "decode_task demo_json (jt_render demo_json (json_of_task agent_task)) = Inr agent_task"
    using demo_json_ok(1) by (simp add: decode_task_def json_text_ok_def task_json_roundtrip)
  have res: "marshal_ar agent_codec agent_result = Inr [0]"
    by (simp add: agent_codec_def table_encode_def)
  show ?thesis
    using task res demo_task_run [of demo_json]
    by (simp add: agent_serve_def handle_execute_def execute_path_def health_path_def)
qed

lemma demo_work_path: "[''tmp'', ''buildfarm-action-'' @ ag_tmp (demo_agent jt) h] = [''tmp'', ''buildfarm-action-1'']"
  by simp

theorem agent_cleans_up_witness:
  "run_task (demo_agent demo_json) 1 agent_task (agent_host, empty_bucket) =
      Some (Ok agent_result, agent_host, zero_put (zero_put empty_bucket)) \<and>
    node_at (fs_root agent_host) [''tmp'', ''buildfarm-action-1''] = None"
proof -
  have keeps: "keeps_tmp h (snd (ag_run (demo_agent demo_json) q h))" for q h
  proof -
    have w: "keeps_tmp h (snd (os_write_file h p b e))" for h p b e
      unfolding os_write_file_def by (rule change_keeps_tmp) simp
    show ?thesis
      using w [of h "p_stdout q" "[0]" False]
        w [of "snd (os_write_file h (p_stdout q) [0] False)" "join_path (p_dir q) ''out''" "[0]" False]
      by (simp add: demo_process_def keeps_tmp_def)
  qed
  have tmp: "real_dir agent_host [''tmp''] []" by (simp add: real_dir_def agent_host_def)
  have "Ok agent_result \<noteq> Panic \<and>
      node_at (fs_root agent_host) [''tmp'', ''buildfarm-action-'' @ ag_tmp (demo_agent demo_json) agent_host] = None"
    by (rule agent_cleans_up [OF keeps tmp _ _ _ demo_task_run]) (simp_all add: agent_host_def)
  then show ?thesis using demo_task_run by simp
qed

theorem agent_reports_outputs_witness:
  "\<exists>h2 out. os_read_file h2 [''tmp'', ''buildfarm-action-1'', ''.stdout''] = Ok out \<and>
    ar_stdout_digest agent_result = Some (from_bytes out) \<and>
    ar_output_files agent_result = spec_output_files h2 [''tmp'', ''buildfarm-action-1''] [''out'']"
proof -
  have cmd: "unmarshal_cmd agent_codec (t_command agent_task) = Inr agent_command"
    by (simp add: agent_codec_def agent_task_def table_decode_def)
  have proc: "p_stdout (make_proc env agent_task agent_command [''tmp'', ''buildfarm-action-1'']) =
      [''tmp'', ''buildfarm-action-1'', ''.stdout'']"
    "p_dir (make_proc env agent_task agent_command [''tmp'', ''buildfarm-action-1'']) = [''tmp'', ''buildfarm-action-1'']"
    "output_paths agent_command = [''out'']" for env :: "bucket agent_env"
    by (simp_all add: make_proc_def exec_dir_def agent_command_def output_paths_def)
  show ?thesis
    using agent_reports_outputs [OF demo_task_run [of demo_json]] unfolding demo_work_path
    by (auto simp: cmd proc)
qed


theorem agent_result_stored_witness:
  "lookup_blob (s3_view bk_objs (task_cfg agent_task) (zero_put (zero_put empty_bucket))) (Some zero_digest) \<noteq> None"
  by (rule agent_result_stored [OF _ demo_task_run [of demo_json]]) (simp_all add: ar_digests_def agent_result_def)

theorem agent_only_adds_blobs_witness:
  "v_acs (s3_view bk_objs (task_cfg agent_task) (zero_put (zero_put empty_bucket))) = v_acs (s3_view bk_objs (task_cfg agent_task) empty_bucket) \<and>
    content_addressed (s3_view bk_objs (task_cfg agent_task) (zero_put (zero_put empty_bucket)))"
proof -
  have "content_addressed (s3_view bk_objs (task_cfg agent_task) empty_bucket)"
    by (simp add: content_addressed_def s3_view_def empty_bucket_def)
  with agent_only_adds_blobs [OF _ demo_serve, of "task_cfg agent_task"]
  show ?thesis by simp
qed

theorem agent_returns_witness:
  "\<exists>resp w' n. agent_serve (demo_agent demo_json) n ''POST'' execute_path (jt_render demo_json (json_of_task agent_task))
     (agent_host, empty_bucket) = Some (Ok resp, w')"
proof -
  have keeps: "keeps_fs (demo_agent demo_json)" by (simp add: keeps_fs_def demo_process_def)
  have host: "wf_fs agent_host" by (simp add: wf_fs_def agent_host_def plain_name_def dot_def dotdot_def)
  have tmp: "plain_name (''buildfarm-action-'' @ ag_tmp (demo_agent demo_json) agent_host)"
    by (simp add: plain_name_def dot_def dotdot_def)
  have "decode_task demo_json (jt_render demo_json (json_of_task agent_task)) = Inr agent_task"
    using demo_json_ok(1) by (simp add: decode_task_def json_text_ok_def task_json_roundtrip)
  moreover have root: "Some \<lparr>d_hash = t_root_hash agent_task, d_size = t_root_size agent_task\<rparr> = Some empty_digest"
    by (simp add: agent_task_def empty_digest_def)
  moreover have "shallow_tree agent_codec good_digest v 1 (Some empty_digest)" for v
    using valid_hash_plain [OF valid_hash_sha256, of "[]"] from_bytes_Nil
    by (simp add: good_digest_def from_bytes_def empty_digest_def numeral_nat One_nat_def lookup_blob_def is_empty_eq agent_codec_def table_decode_def empty_directory_def)
  ultimately have tree: "shallow_tree (ag_codec (demo_agent demo_json)) good_digest (s3_view bk_objs (task_cfg t) empty_bucket) 1
        (Some \<lparr>d_hash = t_root_hash t, d_size = t_root_size t\<rparr>)"
    if "decode_task (ag_json (demo_agent demo_json)) (jt_render demo_json (json_of_task agent_task)) = Inr t" for t
    using that by simp
  have client: "(demo_agent demo_json)\<lparr>ag_client := \<lambda>_. bucket_client\<rparr> = demo_agent demo_json"
    by (simp add: demo_agent_def)
  from agent_returns [OF keeps host tmp tree, where verb = "''POST''" and path = execute_path] show ?thesis
    unfolding client by blast
qed

end
