(* ===== verification/Remote.thy ===== *)
theory Remote
  imports Microvm AgentDemo
begin

text \<open>
  The executor and the agent together: the request the executor sends is the task the agent runs, and
  the answer it decodes is the agent's result.
\<close>

subsection \<open>Over the wire\<close>

text \<open>A response the HTTP transport delivers whole.\<close>

definition delivered :: "http_response \<Rightarrow> client_response" where
  "delivered r = \<lparr>rs_code = hr_status r, rs_status = dec (hr_status r), rs_body = bytes_reader (hr_body r)\<rparr>"

lemma read_prefix_bytes [simp]: "read_prefix (bytes_reader b) = b"
  by (simp add: bytes_reader_def)

text \<open>What the agent answers for the outcome of a task.\<close>

definition answer :: "codec \<Rightarrow> action_result res \<Rightarrow> execute_result" where
  "answer pb r =
     (case r of
        Ok ar \<Rightarrow> (case marshal_ar pb ar of
                   Inl e \<Rightarrow> error_result (''marshal action result: '' @ e)
                 | Inr b \<Rightarrow> \<lparr>tr_action_result = b, tr_error = ''''\<rparr>)
      | Err e \<Rightarrow> error_result (error_text e)
      | Panic \<Rightarrow> error_result '''')"

lemma handle_execute_answer:
  assumes "json_text_ok (ag_json env) (json_of_task t)" "run_task env n t (h, s) = Some (r, h', s')" "r \<noteq> Panic"
  shows "agent_serve env n ''POST'' execute_path (jt_render (ag_json env) (json_of_task t)) (h, s) =
    Some (Ok (write_result (ag_json env) (answer (ag_codec env) r)), h', s')"
proof -
  have task: "decode_task (ag_json env) (jt_render (ag_json env) (json_of_task t)) = Inr t"
    using assms(1) by (simp add: decode_task_def json_text_ok_def task_json_roundtrip)
  show ?thesis
    using assms(2,3) task
    by (cases r) (auto simp: agent_serve_def handle_execute_def execute_path_def health_path_def answer_def
        split: sum.split)
qed

lemma decode_delivered:
  assumes "json_text_ok jt (json_of_result res)" "length (jt_render jt (json_of_result res)) < max_response"
  shows "decode_response pb jt (delivered (write_result jt res)) =
    (if tr_error res \<noteq> '''' then Err (Errorf ''agent execution failed: %s'' [tr_error res])
     else case unmarshal_ar pb (tr_action_result res) of
            Inl e \<Rightarrow> Err (Wrapf ''unmarshal action result: %w'' [] (Ext e))
          | Inr ar \<Rightarrow> Ok ar)"
  using assms
  by (simp add: decode_response_def delivered_def write_result_def json_text_ok_def result_json_roundtrip)

text \<open>
  C20.  Remote execution is local execution: when the agent receives the request the executor builds
  for a task and the executor decodes the agent's answer, what comes out is what \<^verbatim>\<open>runTask\<close>
  returned (the action result itself, or an error that carries the text of the agent's error),
  provided the answer is below the 64 MiB the executor reads and the codecs round-trip it.
\<close>

theorem remote_run_is_local:
  assumes "json_text_ok (ag_json env) (json_of_task t)"
    and "run_task env n t (h, s) = Some (r, h', s')" and "r \<noteq> Panic"
    and "json_text_ok (ag_json env) (json_of_result (answer (ag_codec env) r))"
    and "length (jt_render (ag_json env) (json_of_result (answer (ag_codec env) r))) < max_response"
    and "\<And>ar. r = Ok ar \<Longrightarrow> ar_roundtrip (ag_codec env) ar" and "\<And>e. r = Err e \<Longrightarrow> error_text e \<noteq> ''''"
  shows "\<exists>resp. agent_serve env n ''POST'' execute_path (jt_render (ag_json env) (json_of_task t)) (h, s) =
      Some (Ok resp, h', s') \<and>
    decode_response (ag_codec env) (ag_json env) (delivered resp) =
      (case r of Ok ar \<Rightarrow> Ok ar
       | Err e \<Rightarrow> Err (Errorf ''agent execution failed: %s'' [error_text e]) | Panic \<Rightarrow> Panic)"
proof -
  have "decode_response (ag_codec env) (ag_json env) (delivered (write_result (ag_json env) (answer (ag_codec env) r))) =
      (case r of Ok ar \<Rightarrow> Ok ar
       | Err e \<Rightarrow> Err (Errorf ''agent execution failed: %s'' [error_text e]) | Panic \<Rightarrow> Panic)"
    unfolding decode_delivered [OF assms(4,5)]
    using assms(3,6,7) by (cases r) (auto simp: answer_def ar_roundtrip_def error_result_def)
  with handle_execute_answer [OF assms(1-3)] show ?thesis by blast
qed

lemma demo_answer: "answer agent_codec (Ok agent_result) = \<lparr>tr_action_result = [0], tr_error = []\<rparr>"
  by (simp add: answer_def agent_codec_def table_encode_def)

lemma demo_roundtrip: "ar_roundtrip agent_codec agent_result"
  unfolding agent_codec_def by (rule table_codec_ar) simp

lemma demo_small: "length (jt_render demo_json (json_of_result \<lparr>tr_action_result = [0], tr_error = []\<rparr>)) < max_response"
proof -
  have "length (jt_render demo_json j) \<le> 2" for j
  proof (cases "position j [json_of_task agent_task, json_of_result \<lparr>tr_action_result = [0], tr_error = []\<rparr>]")
    case (Some n)
    with position_nth [OF Some] show ?thesis by (simp add: demo_json_def table_json_def Let_def)
  qed (simp add: demo_json_def table_json_def Let_def)
  from this [of "json_of_result \<lparr>tr_action_result = [0], tr_error = []\<rparr>"] show ?thesis
    by (simp add: max_response_def)
qed

theorem remote_run_is_local_witness:
  "\<exists>resp. agent_serve (demo_agent demo_json) 1 ''POST'' execute_path (jt_render demo_json (json_of_task agent_task))
      (agent_host, empty_bucket) = Some (Ok resp, agent_host, zero_put (zero_put empty_bucket)) \<and>
    decode_response agent_codec demo_json (delivered resp) = Ok agent_result"
proof -
  have "\<exists>resp. agent_serve (demo_agent demo_json) 1 ''POST'' execute_path
      (jt_render (ag_json (demo_agent demo_json)) (json_of_task agent_task)) (agent_host, empty_bucket) =
      Some (Ok resp, agent_host, zero_put (zero_put empty_bucket)) \<and>
    decode_response (ag_codec (demo_agent demo_json)) (ag_json (demo_agent demo_json)) (delivered resp) =
      (case Ok agent_result of Ok ar \<Rightarrow> Ok ar
       | Err e \<Rightarrow> Err (Errorf ''agent execution failed: %s'' [error_text e]) | Panic \<Rightarrow> Panic)"
    by (rule remote_run_is_local [OF _ demo_task_run])
       (simp_all add: demo_json_ok demo_answer demo_small demo_roundtrip)
  then show ?thesis by simp
qed

subsection \<open>What a successful answer means\<close>

text \<open>
  Documented behaviour of the protobuf codec, for any value: bytes that unmarshal came from the message; an
  empty message has no digests.
\<close>

definition codec_sound :: "codec \<Rightarrow> bool" where
  "codec_sound pb \<longleftrightarrow>
     (\<forall>ar b x. marshal_ar pb ar = Inr b \<longrightarrow> unmarshal_ar pb b = Inr x \<longrightarrow> x = ar) \<and>
     (\<forall>x. unmarshal_ar pb [] = Inr x \<longrightarrow> ar_digests x = [])"

text \<open>A response of which the client gets the first bytes, whole or up to an error of the connection.\<close>

definition received :: "http_response \<Rightarrow> client_response \<Rightarrow> bool" where
  "received r c \<longleftrightarrow> rs_code c = hr_status r \<and> (\<exists>n. read_prefix (rs_body c) = take n (hr_body r))"

lemma received_delivered: "received r (delivered r)"
  unfolding received_def delivered_def by (auto intro: exI [of _ "length (hr_body r)"])

lemma decode_response_ok:
  assumes "json_sound jt" "received (write_result jt res) c" "decode_response pb jt c = Ok ar"
  shows "tr_error res = '''' \<and> unmarshal_ar pb (tr_action_result res) = Inr ar"
proof -
  obtain n where n: "take max_response (read_prefix (rs_body c)) = take n (jt_render jt (json_of_result res) @ [10])"
  proof -
    obtain k where "read_prefix (rs_body c) = take k (jt_render jt (json_of_result res) @ [10])"
      using assms(2) unfolding received_def write_result_def by auto
    then show thesis using that [of "min max_response k"] by (simp only: take_take)
  qed
  with assms(2) obtain j where j: "jt_parse jt (take n (jt_render jt (json_of_result res) @ [10])) = Inr j"
    and r: "(case result_of_json j of Inl e \<Rightarrow> Err (Wrapf ''decode agent response: %w'' [] (Ext e))
       | Inr result \<Rightarrow> if tr_error result \<noteq> '''' then Err (Errorf ''agent execution failed: %s'' [tr_error result])
           else (case unmarshal_ar pb (tr_action_result result) of
                   Inl e \<Rightarrow> Err (Wrapf ''unmarshal action result: %w'' [] (Ext e)) | Inr ar \<Rightarrow> Ok ar)) = Ok ar"
    using assms(3)
    by (cases "jt_parse jt (take n (jt_render jt (json_of_result res) @ [10]))")
       (auto simp: decode_response_def n Let_def split: if_splits)
  have "j = json_of_result (coerce_result res)" using assms(1) j unfolding json_sound_def by blast
  with r show ?thesis by (auto simp: result_json_roundtrip split: if_splits sum.splits)
qed

lemma decode_plain:
  assumes "json_sound jt" "received (plain_response 200 '''') c"
  shows "decode_response pb jt c \<noteq> Ok ar"
  using json_sound_Nil [OF assms(1)] assms(2)
  by (auto simp: decode_response_def received_def plain_response_def text_bytes_def Let_def split: sum.splits)

text \<open>
  An answer that decodes to a result, from whatever path of the agent it came and however much of it:
  everything in the result is in the store of the task the agent read.
\<close>

lemma serve_ok_stored:
  assumes sound: "json_sound (ag_json env)" "codec_sound (ag_codec env)" and "ag_client env = (\<lambda>_. bucket_client)"
    and serve: "agent_serve env n ''POST'' path (jt_render (ag_json env) (json_of_task t)) (h, s) = Some (Ok resp, h', s')"
    and c: "received resp c" and ok: "decode_response (ag_codec env) (ag_json env) c = Ok ar"
  shows "list_all (has_blob (coerce_task t) s') (ar_digests ar)"
proof (cases "path = execute_path")
  case False
  have "resp = plain_response 200 '''' \<or> hr_status resp = 404"
    using serve False by (auto simp: agent_serve_def plain_response_def split: if_splits)
  then show ?thesis
    using ok c decode_plain [OF sound(1), of c] by (auto simp: decode_response_def received_def Let_def)
next
  case True
  have nodig: "list_all (has_blob (coerce_task t) s') (ar_digests ar)"
    if "resp = write_result (ag_json env) (error_result e)" for e
    using decode_response_ok [OF sound(1) c [unfolded that] ok] sound(2)
    by (simp add: error_result_def codec_sound_def)
  have handle: "handle_execute env n ''POST'' (jt_render (ag_json env) (json_of_task t)) (h, s) = Some (Ok resp, h', s')"
    using serve True by (simp add: agent_serve_def execute_path_def health_path_def)
  show ?thesis
  proof (cases "decode_task (ag_json env) (jt_render (ag_json env) (json_of_task t))")
    case (Inl e)
    with handle show ?thesis by (intro nodig [of "''decode task: '' @ e"]) (simp add: handle_execute_def)
  next
    case (Inr t')
    then obtain j where j: "jt_first (ag_json env) (jt_render (ag_json env) (json_of_task t)) = Inr j" "task_of_json j = Inr t'"
      by (auto simp: decode_task_def split: sum.splits)
    have "j = json_of_task (coerce_task t)" using sound(1) j(1) unfolding json_sound_def by blast
    then have "t' = coerce_task t" using j(2) by (simp add: task_json_roundtrip)
    with Inr handle obtain r where run: "run_task env n (coerce_task t) (h, s) = Some (r, h', s')" "r \<noteq> Panic"
      and resp: "resp = write_result (ag_json env) (answer (ag_codec env) r)"
      by (auto simp: handle_execute_def answer_def split: option.splits res.splits sum.splits)
    show ?thesis
    proof (cases r)
      case (Err e)
      with resp show ?thesis by (intro nodig) (simp add: answer_def)
    next
      case Panic
      with run show ?thesis by simp
    next
      case (Ok ar0)
      show ?thesis
      proof (cases "marshal_ar (ag_codec env) ar0")
        case (Inl e)
        with Ok resp show ?thesis by (intro nodig) (simp add: answer_def)
      next
        case (Inr b)
        then have "unmarshal_ar (ag_codec env) b = Inr ar"
          using decode_response_ok [OF sound(1) c [unfolded resp] ok] Ok by (simp add: answer_def)
        then have "ar = ar0" using sound(2) Inr unfolding codec_sound_def by blast
        moreover have "env = env\<lparr>ag_client := \<lambda>_. bucket_client\<rparr>" using assms(3) by simp
        ultimately show ?thesis
          using bucket_uploads.run_task_has [of env n "coerce_task t" h s ar0 h' s'] run(1) Ok by simp
      qed
    qed
  qed
qed

subsection \<open>Timeouts\<close>

text \<open>
  C33.  The limit that reaches the process for a timeout of the server: none when the timeout is below
  one second (negative ones included), and otherwise the timeout rounded down to whole seconds; the
  multiplication in the agent does not wrap around for any timeout the executor can send.
\<close>

theorem timeout_on_the_wire:
  "case task_timeout (make_task cfg command_proto root timeout) of
     None \<Rightarrow> sint timeout < 1000000000
   | Some x \<Rightarrow> 1000000000 \<le> sint timeout \<and> sint x \<le> sint timeout \<and> sint timeout - sint x < 1000000000 \<and>
       1000000000 dvd sint x"
proof -
  let ?q = "sint timeout sdiv 1000000000"
  have range: "- (2 ^ 63) \<le> sint timeout" "sint timeout < 2 ^ 63"
    using sint_ge [of timeout] sint_lt [of timeout] by simp_all
  have secs: "t_timeout (make_task cfg command_proto root timeout) = of_int ?q"
    by (simp add: make_task_def timeout_seconds_def)
  show ?thesis
  proof (cases "sint timeout < 1000000000")
    case True
    have "- (2 ^ 63) \<le> ?q \<and> ?q \<le> 0"
      using True range by (auto simp: signed_divide_int_def sgn_if abs_if)
    then have "sint (of_int ?q :: int64) \<le> 0" by (subst sint_of_int64) auto
    with True show ?thesis by (simp add: task_timeout_def secs)
  next
    case False
    then have q: "?q = sint timeout div 1000000000" by (simp add: signed_divide_int_def sgn_if)
    have pos: "0 < ?q" "?q * 1000000000 \<le> sint timeout" "sint timeout - ?q * 1000000000 < 1000000000"
      unfolding q using False by (simp_all add: minus_div_mult_eq_mod pos_imp_zdiv_pos_iff)
    have "sint (of_int ?q :: int64) = ?q" using pos(1,2) range(2) by (intro sint_of_int64) auto
    moreover have "(of_int ?q :: int64) * 1000000000 = of_int (?q * 1000000000)" by simp
    moreover have "sint (of_int (?q * 1000000000) :: int64) = ?q * 1000000000"
      using pos range(2) by (intro sint_of_int64) auto
    ultimately show ?thesis using pos False by (simp add: task_timeout_def secs)
  qed
qed

end
