(* ===== verification/MicrovmCalls.thy ===== *)
theory MicrovmCalls
  imports Microvm
begin

text \<open>
  How many calls of the platform an execution makes: each waiting loop polls at most once a second
  for the startup timeout.
\<close>

subsection \<open>The log does not change the contract\<close>

context microvm_client
begin

lemma logged_client:
  "microvm_client (logged cl) (\<lambda>w. inv (fst w)) (\<lambda>w. clk (fst w)) (\<lambda>w. obs (fst w))"
proof (unfold_locales, goal_cases)
  case (1 w ri ro w')
  then show ?case
    using run_keeps [of "fst w" ri] by (cases w; cases "mv_run cl (fst w) ri") (auto simp: logged_def split: sum.splits)
next
  case (2 w vm rg w')
  then show ?case
    using get_keeps [of "fst w" vm] by (cases w; cases "mv_get cl (fst w) vm") (auto simp: logged_def split: sum.splits)
next
  case (3 w vm rt w')
  then show ?case
    using token_keeps [of "fst w" vm] by (cases w; cases "mv_token cl (fst w) vm") (auto simp: logged_def split: sum.splits)
next
  case (4 w vm rk w')
  then show ?case
    using kill_keeps [of "fst w" vm] by (cases w; cases "mv_terminate cl (fst w) vm") (auto simp: logged_def split: sum.splits)
next
  case (5 w rq rd w')
  then show ?case
    using do_keeps [of "fst w" rq] by (cases w; cases "mv_do cl (fst w) rq") (auto simp: logged_def split: sum.splits)
next
  case (6 w u w')
  then show ?case
    using uuid_keeps [of "fst w"] by (cases w; cases "mv_uuid cl (fst w)") (auto simp: logged_def split: sum.splits)
next
  case (7 w t w')
  then show ?case
    using now_law [of "fst w"] by (cases w; cases "mv_now cl (fst w)") (auto simp: logged_def split: sum.splits)
next
  case (8 w d rs w')
  then show ?case
    using sleep_law [of "fst w" d] by (cases w; cases "mv_select cl (fst w) d") (auto simp: logged_def split: sum.splits)
qed

end

lemma calls_length: "calls w w' \<Longrightarrow> length (snd w) \<le> length (snd w')"
  by (auto simp: calls_def)

text \<open>A call adds one entry, a turn of a loop at most three.\<close>

lemma logged_length:
  "mv_run (logged cl) w ri = (ro, w') \<Longrightarrow> length (snd w') = Suc (length (snd w))"
  "mv_get (logged cl) w vm = (rg, w') \<Longrightarrow> length (snd w') = Suc (length (snd w))"
  "mv_token (logged cl) w vm = (rt, w') \<Longrightarrow> length (snd w') = Suc (length (snd w))"
  "mv_terminate (logged cl) w vm = (rk, w') \<Longrightarrow> length (snd w') = Suc (length (snd w))"
  "mv_do (logged cl) w rq = (rd, w') \<Longrightarrow> length (snd w') = Suc (length (snd w))"
  "mv_now (logged cl) w = (t, w') \<Longrightarrow> length (snd w') = Suc (length (snd w))"
  "mv_select (logged cl) w d = (rs, w') \<Longrightarrow> length (snd w') = Suc (length (snd w))"
  "mv_uuid (logged cl) w = (u, w') \<Longrightarrow> length (snd w') = Suc (length (snd w))"
  by (auto simp: logged_def split: prod.splits sum.splits)

lemma poll_running_length:
  assumes "ex_client ex = logged cl" "poll_running ex vm deadline w = (r, w')"
  shows "length (snd w') \<le> length (snd w) + 3"
  using assms
  by (auto simp: poll_running_def sleep_def split: prod.splits sum.splits mv_state.splits if_splits option.splits
      dest!: logged_length)

lemma poll_healthy_length:
  assumes "ex_client ex = logged cl" "poll_healthy ex base token deadline w = (r, w')"
  shows "length (snd w') \<le> length (snd w) + 3"
  using assms
  by (auto simp: poll_healthy_def sleep_def split: prod.splits sum.splits if_splits option.splits
      dest!: logged_length)

subsection \<open>Bounded waiting\<close>

text \<open>The turns that can end with a sleep before the deadline \<open>d\<close> when the clock shows \<open>c\<close>.\<close>

definition turns :: "int \<Rightarrow> int \<Rightarrow> nat" where
  "turns d c = (if c \<le> d then nat ((d - c) div 1000000000) + 1 else 0)"

lemma turns_step: "c \<le> d \<Longrightarrow> c + 1000000000 \<le> c' \<Longrightarrow> Suc (turns d c') \<le> turns d c"
proof -
  assume c: "c \<le> d" "c + 1000000000 \<le> c'"
  have "(d - c') div 1000000000 \<le> (d - c - 1000000000) div 1000000000"
    by (rule zdiv_mono1) (use c in simp_all)
  also have "\<dots> = (d - c) div 1000000000 - 1" by (simp add: div_diff)
  finally show ?thesis using c by (auto simp: turns_def nat_le_iff pos_imp_zdiv_nonneg_iff)
qed

lemma turns_start: "t \<le> c \<Longrightarrow> turns (t + s) c \<le> nat (s div 1000000000) + 1"
proof -
  assume t: "t \<le> c"
  have "(t + s - c) div 1000000000 \<le> s div 1000000000" by (rule zdiv_mono1) (use t in simp_all)
  then show ?thesis by (simp add: turns_def nat_mono)
qed

context microvm_client
begin

lemma running_loop_length:
  assumes "inv (fst w)" "ex_client ex = logged cl"
  shows "\<exists>r w'. running_loop ex vm deadline w = Some (r, w') \<and>
    length (snd w') \<le> length (snd w) + 3 * Suc (turns deadline (clk (fst w)))"
  using assms(1)
proof (induction "turns deadline (clk (fst w))" arbitrary: w rule: less_induct)
  case less
  obtain r w1 where p: "poll_running ex vm deadline w = (r, w1)" by (metis surj_pair)
  note law = microvm_client.poll_running_law [OF logged_client less.prems assms(2) p]
  note len = poll_running_length [OF assms(2) p]
  show ?case
  proof (cases r)
    case (Some x)
    with len show ?thesis by (subst running_loop.simps) (simp add: p)
  next
    case None
    have "inv (fst w1)" using law microvm_client.kept_inv [OF logged_client] by blast
    moreover have step: "Suc (turns deadline (clk (fst w1))) \<le> turns deadline (clk (fst w))"
      using law None by (intro turns_step) simp_all
    ultimately obtain r' w' where "running_loop ex vm deadline w1 = Some (r', w')"
      "length (snd w') \<le> length (snd w1) + 3 * Suc (turns deadline (clk (fst w1)))"
      using less.hyps [of w1] by auto
    with None len step show ?thesis
      by (subst running_loop.simps) (simp add: p)
  qed
qed

lemma healthy_loop_length:
  assumes "inv (fst w)" "ex_client ex = logged cl"
  shows "\<exists>r w'. healthy_loop ex base token deadline w = Some (r, w') \<and>
    length (snd w') \<le> length (snd w) + 3 * Suc (turns deadline (clk (fst w)))"
  using assms(1)
proof (induction "turns deadline (clk (fst w))" arbitrary: w rule: less_induct)
  case less
  obtain r w1 where p: "poll_healthy ex base token deadline w = (r, w1)" by (metis surj_pair)
  note law = microvm_client.poll_healthy_law [OF logged_client less.prems assms(2) p]
  note len = poll_healthy_length [OF assms(2) p]
  show ?case
  proof (cases r)
    case (Some x)
    with len show ?thesis by (subst healthy_loop.simps) (simp add: p)
  next
    case None
    have "inv (fst w1)" using law microvm_client.kept_inv [OF logged_client] by blast
    moreover have step: "Suc (turns deadline (clk (fst w1))) \<le> turns deadline (clk (fst w))"
      using law None by (intro turns_step) simp_all
    ultimately obtain r' w' where "healthy_loop ex base token deadline w1 = Some (r', w')"
      "length (snd w') \<le> length (snd w1) + 3 * Suc (turns deadline (clk (fst w1)))"
      using less.hyps [of w1] by auto
    with None len step show ?thesis
      by (subst healthy_loop.simps) (simp add: p)
  qed
qed

text \<open>The calls of one wait, for a startup timeout of \<open>s\<close> nanoseconds.\<close>

definition wait_bound :: "mv_config \<Rightarrow> nat" where
  "wait_bound cfg = 3 * nat (sint (mc_startup cfg) div 1000000000) + 7"

lemma wait_running_length:
  assumes "inv (fst w)" "ex_client ex = logged cl" "wait_running ex vm w = Some (r, w')"
  shows "length (snd w') \<le> length (snd w) + wait_bound (ex_cfg ex)"
proof -
  obtain t w1 where n: "mv_now (logged cl) w = (t, w1)" by (metis surj_pair)
  have k: "inv (fst w1)" "t \<le> clk (fst w1)"
    using microvm_client.now_law [OF logged_client assms(1) n] by auto
  from running_loop_length [OF k(1) assms(2), of vm "t + sint (mc_startup (ex_cfg ex))"] assms(3)
  show ?thesis
    using logged_length(6) [OF n] turns_start [OF k(2), of "sint (mc_startup (ex_cfg ex))"]
    by (auto simp: wait_running_def assms(2) n wait_bound_def)
qed

lemma wait_healthy_length:
  assumes "inv (fst w)" "ex_client ex = logged cl" "wait_healthy ex base token w = Some (r, w')"
  shows "length (snd w') \<le> length (snd w) + wait_bound (ex_cfg ex)"
proof -
  obtain t w1 where n: "mv_now (logged cl) w = (t, w1)" by (metis surj_pair)
  have k: "inv (fst w1)" "t \<le> clk (fst w1)"
    using microvm_client.now_law [OF logged_client assms(1) n] by auto
  from healthy_loop_length [OF k(1) assms(2), of base token "t + sint (mc_startup (ex_cfg ex))"] assms(3)
  show ?thesis
    using logged_length(6) [OF n] turns_start [OF k(2), of "sint (mc_startup (ex_cfg ex))"]
    by (auto simp: wait_healthy_def assms(2) n wait_bound_def)
qed

lemma dispatch_length:
  assumes "ex_client ex = logged cl" "dispatch pb jt ex base token t w = (r, w')"
  shows "length (snd w') \<le> Suc (length (snd w))"
  using assms
  by (auto simp: dispatch_def split: option.splits prod.splits sum.splits dest!: logged_length)

lemma use_agent_length:
  assumes "inv (fst w)" "ex_client ex = logged cl" "use_agent pb jt ex vm endpoint t w = Some (r, w')"
  shows "length (snd w') \<le> length (snd w) + wait_bound (ex_cfg ex) + 2"
proof -
  obtain rt w1 where tk: "mv_token (logged cl) w vm = (rt, w1)" by (metis surj_pair)
  have i: "inv (fst w1)" using microvm_client.token_keeps [OF logged_client assms(1) tk] by blast
  have l: "length (snd w1) = Suc (length (snd w))" by (rule logged_length(3) [OF tk])
  show ?thesis
    using assms(3) l
    by (auto simp: use_agent_def assms(2) tk Let_def split: sum.splits if_splits option.splits res.splits prod.splits
        dest!: wait_healthy_length [OF i assms(2)] dispatch_length [OF assms(2)])
qed

lemma use_vm_length:
  assumes "inv (fst w)" "ex_client ex = logged cl" "use_vm pb jt ex out t w = Some (r, w')"
  shows "length (snd w') \<le> length (snd w) + 2 * wait_bound (ex_cfg ex) + 2"
proof (cases "ro_state out = Running")
  case True
  with use_agent_length [OF assms(1,2)] assms(3) show ?thesis by (fastforce simp: use_vm_def)
next
  case False
  obtain rw w1 where wr: "wait_running ex (ro_id out) w = Some (rw, w1)"
    and k: "microvm_client.kept (\<lambda>w. inv (fst w)) (\<lambda>w. clk (fst w)) (\<lambda>w. obs (fst w)) w w1"
    using microvm_client.wait_running_returns [OF logged_client assms(1,2)] by blast
  have i: "inv (fst w1)" by (rule microvm_client.kept_inv [OF logged_client k])
  note l = wait_running_length [OF assms(1,2) wr]
  show ?thesis
  proof (cases rw)
    case (Ok endpoint)
    then have "use_agent pb jt ex (ro_id out) endpoint t w1 = Some (r, w')"
      using assms(3) False wr by (simp add: use_vm_def)
    from use_agent_length [OF i assms(2) this] l show ?thesis by simp
  qed (use assms(3) False wr l in \<open>auto simp: use_vm_def\<close>)
qed

lemma executor_run_length:
  assumes "inv w" "ex_client ex = logged cl"
  shows "\<exists>r w' l. executor_run pb jt ex (w, []) command root timeout = Some (r, w', l) \<and> inv w' \<and> obs w' = obs w \<and>
    r \<noteq> Panic \<and> length l \<le> 2 * wait_bound (ex_cfg ex) + 5"
proof -
  obtain r w' l where run: "executor_run pb jt ex (w, []) command root timeout = Some (r, w', l)"
    and k: "microvm_client.kept (\<lambda>w. inv (fst w)) (\<lambda>w. clk (fst w)) (\<lambda>w. obs (fst w)) (w, []) (w', l)" "r \<noteq> Panic"
    using microvm_client.executor_run_returns [OF logged_client _ assms(2), of "(w, [])" pb jt command root timeout] assms(1)
    by auto
  have kept: "inv w'" "obs w' = obs w"
    using k(1) by (simp_all add: microvm_client.kept_def [OF logged_client])
  have "length l \<le> 2 * wait_bound (ex_cfg ex) + 5"
  proof (cases "marshal_cmd pb command")
    case (Inl e)
    with run show ?thesis by (simp add: executor_run_def)
  next
    case (Inr cp)
    obtain u w1 where un: "mv_uuid (logged cl) (w, []) = (u, w1)" by (metis surj_pair)
    obtain ro w2 where rn: "mv_run (logged cl) w1 (make_input (ex_cfg ex) u) = (ro, w2)" by (metis surj_pair)
    have i1: "inv (fst w1)" using microvm_client.uuid_keeps [OF logged_client _ un] assms(1) by simp
    have i2: "inv (fst w2)" using microvm_client.run_keeps [OF logged_client i1 rn] by blast
    have l2: "length (snd w2) = 2" using logged_length(1) [OF rn] logged_length(8) [OF un] by simp
    show ?thesis
    proof (cases ro)
      case (Inl e)
      with run \<open>marshal_cmd pb command = Inr cp\<close> l2 show ?thesis by (simp add: executor_run_def assms(2) un rn)
    next
      case (Inr out)
      then obtain r3 w3 where v: "use_vm pb jt ex out (make_task (ex_cfg ex) cp root timeout) w2 = Some (r3, w3)"
        and t: "snd (mv_terminate (logged cl) w3 (ro_id out)) = (w', l)"
        using run \<open>marshal_cmd pb command = Inr cp\<close> by (auto simp: executor_run_def assms(2) un rn)
      have "length l = Suc (length (snd w3))"
        using logged_length(4) [of cl w3 "ro_id out"] t by (cases "mv_terminate (logged cl) w3 (ro_id out)") simp
      with use_vm_length [OF i2 assms(2) v] l2 show ?thesis by simp
    qed
  qed
  with run kept k(2) show ?thesis by blast
qed

end


subsection \<open>Properties\<close>

text \<open>
  C14.  The waiting loops end: over a platform whose clock does not run backwards and whose sleeps take
  their time, an execution returns, does not panic, and makes at most
  \<open>6 * (startup timeout in seconds) + 19\<close> calls of the platform, however these answer.
\<close>

theorem executor_returns:
  assumes "microvm_client cl winv clk obs" and "winv w" and "ex_client ex = logged cl"
  shows "\<exists>r w' l. executor_run pb jt ex (w, []) command root timeout = Some (r, w', l) \<and> r \<noteq> Panic \<and>
    winv w' \<and> obs w' = obs w \<and>
    length l \<le> 6 * nat (sint (mc_startup (ex_cfg ex)) div 1000000000) + 19"
  using microvm_client.executor_run_length [OF assms(1,2,3), of pb jt command root timeout]
  by (auto simp: microvm_client.wait_bound_def [OF assms(1)])

end
