(* ===== verification/Farm.thy ===== *)
theory Farm
  imports Remote MicrovmCalls "HOL-Library.AList"
begin

text \<open>
  The whole farm: the server's execution service over the S3 store, the executor, and a platform whose
  MicroVMs run the agent over the same bucket.  The platform stands for AWS Lambda MicroVMs as
  documented: a launched MicroVM has its own file system made from an image, answers at its own
  endpoint to requests with its token, and is gone once it is terminated.  Beyond that it is at the
  mercy of a schedule, a parameter that says of every call how it goes wrong, if it does, and how
  long it takes: no call need ever succeed, and a MicroVM may stay pending for ever.  The processes,
  the faults of the bucket and of the file systems are arbitrary too.
\<close>

subsection \<open>The world\<close>

record farm =
  fm_bucket :: bucket
  fm_clock :: int
  fm_vms :: "(string \<times> fs) list"
  fm_count :: nat
  fm_calls :: nat

text \<open>The bucket's client, on the bucket inside the world.\<close>

definition in_bucket :: "('a \<times> bucket) \<Rightarrow> farm \<Rightarrow> 'a \<times> farm" where
  "in_bucket x w = (fst x, w\<lparr>fm_bucket := snd x\<rparr>)"

definition farm_s3 :: "farm s3_client" where
  "farm_s3 =
     \<lparr>head_object = (\<lambda>w b k. in_bucket (bk_head (fm_bucket w) b k) w),
      get_object = (\<lambda>w b k rng. in_bucket (bk_get (fm_bucket w) b k rng) w),
      put_object = (\<lambda>w b k x. in_bucket (bk_put (fm_bucket w) b k x) w),
      upload = (\<lambda>w b k rd. in_bucket (bk_upload (fm_bucket w) b k rd) w)\<rparr>"

definition farm_objs :: "farm \<Rightarrow> string \<Rightarrow> string \<Rightarrow> bytes option" where
  "farm_objs w = bk_objs (fm_bucket w)"

lemma in_bucket_eq:
  "in_bucket x w = (r, w') \<Longrightarrow> \<exists>b'. x = (r, b') \<and> w' = w\<lparr>fm_bucket := b'\<rparr>"
  by (cases x) (auto simp: in_bucket_def)

interpretation farm_bucket: s3_bucket farm_s3 "\<lambda>_. True" farm_objs cfg pb
  for cfg :: s3_config and pb :: codec
proof (unfold_locales, goal_cases)
  case (1 w b k rh w')
  then show ?case
    using ref_s3.head_law [of "fm_bucket w" b k rh]
    by (auto simp: farm_s3_def farm_objs_def dest!: in_bucket_eq)
next
  case (2 w b k rng ro w')
  then show ?case
    using ref_s3.object_law [of "fm_bucket w" b k rng ro]
    by (auto simp: farm_s3_def farm_objs_def dest!: in_bucket_eq)
next
  case (3 w b k body w' x)
  then show ?case
    using ref_s3.whole_law [of "fm_bucket w" b k body _ x]
    by (auto simp: farm_s3_def farm_objs_def dest!: in_bucket_eq)
next
  case (4 w b k n body w' x ob)
  then show ?case
    using ref_s3.from_law [of "fm_bucket w" b k n body _ x ob]
    by (auto simp: farm_s3_def farm_objs_def dest!: in_bucket_eq)
next
  case (5 w b k n m body w' x ob)
  then show ?case
    using ref_s3.between_law [of "fm_bucket w" b k n m body _ x ob]
    by (auto simp: farm_s3_def farm_objs_def dest!: in_bucket_eq)
next
  case (6 w b k x rp w')
  then show ?case
    using ref_s3.put_object_law [of "fm_bucket w" b k x rp]
    by (auto simp: farm_s3_def farm_objs_def dest!: in_bucket_eq)
next
  case (7 w b k rd rp w' x)
  then show ?case
    using ref_s3.upload_law [of "fm_bucket w" b k rd rp _ x]
    by (auto simp: farm_s3_def farm_objs_def dest!: in_bucket_eq)
qed

subsection \<open>The platform\<close>

definition endpoint_of :: "string \<Rightarrow> string" where
  "endpoint_of vm = vm @ ''.vm.aws''"

text \<open>A request reaches the MicroVM whose endpoint its URL starts with; the rest is the path.\<close>

fun route :: "(string \<times> fs) list \<Rightarrow> string \<Rightarrow> (string \<times> string) option" where
  "route [] url = None"
| "route ((vm, h) # vms) url =
     (let base = ''https://'' @ endpoint_of vm
      in if take (length base) url = base then Some (vm, drop (length base) url) else route vms url)"

text \<open>
  How a call of the platform goes: as documented; it fails and nothing happens; it happens but its answer
  is lost; the API reports this state of the MicroVM; the proxy in front of the MicroVM refuses the
  request with an error status, and the API gives no token; the connection breaks after so many bytes
  of the answer.  An event that a call cannot have leaves it as documented.
\<close>

datatype platform_event =
    Works
  | Fails err
  | Lost err
  | Reports mv_state string
  | Refuses nat
  | Cuts nat err

text \<open>
  The schedule: the event and the duration of the \<open>n\<close>th call.  \<open>pl_url\<close> is what \<^verbatim>\<open>http.NewRequest\<close> says
  of a URL.
\<close>

record platform =
  pl_event :: "nat \<Rightarrow> platform_event"
  pl_delay :: "nat \<Rightarrow> nat"
  pl_url :: "string \<Rightarrow> err option"

definition turn :: "platform \<Rightarrow> farm \<Rightarrow> platform_event \<times> farm" where
  "turn pf w =
     (pl_event pf (fm_calls w),
      w\<lparr>fm_calls := Suc (fm_calls w), fm_clock := fm_clock w + int (pl_delay pf (fm_calls w))\<rparr>)"

text \<open>A call that fails, happens, or happens with its answer lost.\<close>

definition attempt :: "platform_event \<Rightarrow> farm \<Rightarrow> ('a \<times> farm) \<Rightarrow> (err + 'a) \<times> farm" where
  "attempt ev w done =
     (case ev of
        Fails e \<Rightarrow> (Inl e, w)
      | Lost e \<Rightarrow> (Inl e, snd done)
      | _ \<Rightarrow> (Inr (fst done), snd done))"

text \<open>What reaches the client of the agent's answer.\<close>

definition cut_response :: "platform_event \<Rightarrow> http_response \<Rightarrow> client_response" where
  "cut_response ev r =
     (case ev of
        Cuts k e \<Rightarrow> (delivered r)\<lparr>rs_body := [(take k (hr_body r), Some e)]\<rparr>
      | _ \<Rightarrow> delivered r)"

definition refusal :: "nat \<Rightarrow> client_response" where
  "refusal c = \<lparr>rs_code = 400 + c mod 200, rs_status = dec (400 + c mod 200), rs_body = []\<rparr>"

text \<open>A request on its way to the agent of the MicroVM its URL names.\<close>

definition farm_serve ::
    "bucket agent_env \<Rightarrow> nat \<Rightarrow> platform_event \<Rightarrow> farm \<Rightarrow> http_request \<Rightarrow> (err + client_response) \<times> farm" where
  "farm_serve env n ev w rq =
     (case route (fm_vms w) (rq_url rq) of
        None \<Rightarrow> (Inl (Ext ''no such host''), w)
      | Some (vm, path) \<Rightarrow>
          if map_of (rq_headers rq) ''X-aws-proxy-auth'' \<noteq> Some vm then (Inr (refusal 3), w)
          else
            (case map_of (fm_vms w) vm of
               None \<Rightarrow> (Inl (Ext ''no such host''), w)
             | Some h \<Rightarrow>
                 (case agent_serve env n (rq_method rq) path (rq_body rq) (h, fm_bucket w) of
                    Some (r, h', b') \<Rightarrow>
                      (let w' = w\<lparr>fm_bucket := b', fm_vms := AList.update vm h' (fm_vms w)\<rparr>
                       in case r of
                            Ok resp \<Rightarrow> attempt ev w' (cut_response ev resp, w')
                          | _ \<Rightarrow> (Inl (Ext ''connection reset''), w'))
                  | None \<Rightarrow> (Inl CtxDeadlineExceeded, w))))"

definition farm_do ::
    "platform \<Rightarrow> bucket agent_env \<Rightarrow> nat \<Rightarrow> farm \<Rightarrow> http_request \<Rightarrow> (err + client_response) \<times> farm" where
  "farm_do pf env n w rq =
     (case turn pf w of
        (ev, w) \<Rightarrow>
          (case ev of
             Fails e \<Rightarrow> (Inl e, w)
           | Refuses c \<Rightarrow> (Inr (refusal c), w)
           | _ \<Rightarrow> farm_serve env n ev w rq))"

text \<open>The API of the platform.\<close>

definition farm_launch :: "platform \<Rightarrow> fs \<Rightarrow> farm \<Rightarrow> run_input \<Rightarrow> (err + run_output) \<times> farm" where
  "farm_launch pf img w ri =
     (case turn pf w of
        (ev, w) \<Rightarrow>
          (let vm = ''mv-'' @ dec (fm_count w);
               state = (case ev of Reports x reason \<Rightarrow> x | _ \<Rightarrow> OtherState ''PENDING'')
           in attempt ev w
                (\<lparr>ro_id = vm, ro_endpoint = endpoint_of vm, ro_state = state\<rparr>,
                 w\<lparr>fm_vms := (vm, img) # fm_vms w, fm_count := Suc (fm_count w)\<rparr>)))"

definition farm_get :: "platform \<Rightarrow> farm \<Rightarrow> string \<Rightarrow> (err + get_output) \<times> farm" where
  "farm_get pf w vm =
     (case turn pf w of
        (ev, w) \<Rightarrow>
          (case ev of
             Reports state reason \<Rightarrow> (Inr \<lparr>go_state = state, go_endpoint = endpoint_of vm, go_reason = reason\<rparr>, w)
           | _ \<Rightarrow>
               (case map_of (fm_vms w) vm of
                  None \<Rightarrow> (Inl (Ext ''ResourceNotFoundException''), w)
                | Some h \<Rightarrow>
                    attempt ev w (\<lparr>go_state = Running, go_endpoint = endpoint_of vm, go_reason = ''''\<rparr>, w))))"

definition farm_token :: "platform \<Rightarrow> farm \<Rightarrow> string \<Rightarrow> (err + (string \<Rightarrow> string option)) \<times> farm" where
  "farm_token pf w vm =
     (case turn pf w of
        (ev, w) \<Rightarrow>
          attempt ev w (case ev of Refuses c \<Rightarrow> Map.empty | _ \<Rightarrow> [''X-aws-proxy-auth'' \<mapsto> vm], w))"

definition farm_terminate :: "platform \<Rightarrow> farm \<Rightarrow> string \<Rightarrow> (err + unit) \<times> farm" where
  "farm_terminate pf w vm =
     (case turn pf w of
        (ev, w) \<Rightarrow> attempt ev w ((), w\<lparr>fm_vms := filter (\<lambda>(x, h). x \<noteq> vm) (fm_vms w)\<rparr>))"

text \<open>A sleep ends early when the context of the action is done.\<close>

definition farm_select :: "platform \<Rightarrow> farm \<Rightarrow> int \<Rightarrow> err option \<times> farm" where
  "farm_select pf w d =
     (case turn pf w of
        (ev, w) \<Rightarrow> (case ev of Fails e \<Rightarrow> (Some e, w) | _ \<Rightarrow> (None, w\<lparr>fm_clock := fm_clock w + max 0 d\<rparr>)))"

definition farm_client :: "platform \<Rightarrow> bucket agent_env \<Rightarrow> nat \<Rightarrow> fs \<Rightarrow> farm mv_client" where
  "farm_client pf env n img =
     \<lparr>mv_run = farm_launch pf img, mv_get = farm_get pf, mv_token = farm_token pf,
      mv_terminate = farm_terminate pf, mv_url = pl_url pf, mv_do = farm_do pf env n,
      mv_now = (\<lambda>w. (fm_clock w, w)), mv_select = farm_select pf,
      mv_uuid = (\<lambda>w. (''6f1c'' @ dec (fm_calls w), w))\<rparr>"

text \<open>The agents of the farm use the farm's bucket.\<close>

definition with_bucket :: "bucket agent_env \<Rightarrow> bucket agent_env" where
  "with_bucket env = env\<lparr>ag_client := \<lambda>_. bucket_client\<rparr>"

lemma farm_view_bucket: "s3_view farm_objs cfg w = s3_view bk_objs cfg (fm_bucket w)"
  by (simp add: s3_view_def farm_objs_def cong: if_cong)

lemma turn_sel:
  "turn pf w = (ev, w') \<Longrightarrow> fm_bucket w' = fm_bucket w \<and> fm_clock w \<le> fm_clock w' \<and> fm_vms w' = fm_vms w"
  by (auto simp: turn_def)

lemma attempt_cases:
  "attempt ev w x = (r, w') \<Longrightarrow> w' = w \<or> w' = snd x" "attempt ev w x = (Inr y, w') \<Longrightarrow> x = (y, w')"
  by (cases ev; cases x; simp add: attempt_def)+

text \<open>A request: only an agent changes anything, and what it changes it does by adding blobs.\<close>

lemma farm_serve_adds:
  assumes "farm_serve (with_bucket env) n ev w rq = (r, w')"
  shows "adds_blobs (fm_bucket w) (fm_bucket w') \<and> fm_clock w' = fm_clock w"
proof (cases "route (fm_vms w) (rq_url rq)")
  case None
  with assms show ?thesis by (simp add: farm_serve_def adds_blobs_refl)
next
  case (Some x)
  obtain vm path where x: "x = (vm, path)" by fastforce
  show ?thesis
  proof (cases "map_of (rq_headers rq) ''X-aws-proxy-auth'' = Some vm \<and> map_of (fm_vms w) vm \<noteq> None")
    case False
    with assms Some x show ?thesis by (auto simp: farm_serve_def adds_blobs_refl split: if_splits)
  next
    case True
    then obtain h where h: "map_of (fm_vms w) vm = Some h" by blast
    show ?thesis
    proof (cases "agent_serve (with_bucket env) n (rq_method rq) path (rq_body rq) (h, fm_bucket w)")
      case None
      with assms Some x True h show ?thesis by (simp add: farm_serve_def adds_blobs_refl)
    next
      case (Some y)
      obtain ra h' b' where y: "y = (ra, h', b')" by (rule prod_cases3)
      have "adds_blobs (fm_bucket w) b'"
        using bucket_agent.agent_serve_tame [of "fm_bucket w" env n "rq_method rq" path "rq_body rq" h] Some y
        by (simp add: bucket_agent.tame_opt_simps with_bucket_def)
      with assms \<open>route (fm_vms w) (rq_url rq) = Some x\<close> x True h Some y show ?thesis
        by (cases ra) (auto simp: farm_serve_def Let_def dest!: attempt_cases(1))
    qed
  qed
qed

lemma farm_do_adds:
  assumes "farm_do pf (with_bucket env) n w rq = (r, w')"
  shows "adds_blobs (fm_bucket w) (fm_bucket w') \<and> fm_clock w \<le> fm_clock w'"
proof -
  obtain ev w1 where t: "turn pf w = (ev, w1)" by fastforce
  have "r = r' \<and> w1 = w' \<or> farm_serve (with_bucket env) n ev w1 rq = (r, w')" if "farm_do pf (with_bucket env) n w rq = (r', w')" for r'
    using assms that by (cases ev) (auto simp: farm_do_def t)
  then show ?thesis
    using assms turn_sel [OF t] farm_serve_adds [of env n ev w1 rq r w'] by (auto simp: adds_blobs_refl)
qed

interpretation farm_platform: microvm_client "farm_client pf (with_bucket env) n img" "\<lambda>_. True" fm_clock
    "\<lambda>w. v_acs (s3_view farm_objs cfg w)"
  for pf :: platform and env :: "bucket agent_env" and n :: nat and img :: fs and cfg :: s3_config
proof (unfold_locales, goal_cases)
  case (1 w ri ro w')
  then show ?case
    by (auto simp: farm_client_def farm_launch_def farm_view_bucket Let_def dest!: turn_sel attempt_cases(1)
        split: prod.splits)
next
  case (2 w vm rg w')
  then show ?case
    by (auto simp: farm_client_def farm_get_def farm_view_bucket dest!: turn_sel attempt_cases(1)
        split: prod.splits platform_event.splits option.splits)
next
  case (3 w vm rt w')
  then show ?case
    by (auto simp: farm_client_def farm_token_def farm_view_bucket dest!: turn_sel attempt_cases(1) split: prod.splits)
next
  case (4 w vm rk w')
  then show ?case
    by (auto simp: farm_client_def farm_terminate_def farm_view_bucket dest!: turn_sel attempt_cases(1) split: prod.splits)
next
  case (5 w rq rd w')
  then have "farm_do pf (with_bucket env) n w rq = (rd, w')" by (simp add: farm_client_def)
  from farm_do_adds [OF this] show ?case by (simp add: farm_view_bucket adds_blobs_def)
next
  case (8 w d rs w')
  then show ?case
    by (auto simp: farm_client_def farm_select_def farm_view_bucket dest!: turn_sel
        split: prod.splits platform_event.splits)
qed (auto simp: farm_client_def)

interpretation farm_world: microvm_world "s3_ops farm_s3 cfg pb" pb "\<lambda>_. True" good_digest "s3_view farm_objs cfg"
    "farm_client pf (with_bucket env) n img" fm_clock jt "new_executor (farm_client pf (with_bucket env) n img) mv"
  for pf :: platform and cfg :: s3_config and pb :: codec and env :: "bucket agent_env" and n :: nat and img :: fs
    and jt :: json_text and mv :: mv_config
  by unfold_locales (simp add: new_executor_def Let_def)

subsection \<open>What an execution on the farm leaves\<close>

text \<open>A result of the executor is one decoded from a response of the agent, before the termination.\<close>

lemma executor_dispatched:
  assumes "executor_run pb jt ex w command root timeout = Some (Ok ar, w')"
  shows "\<exists>cp base token w1 w2 vm. marshal_cmd pb command = Inr cp \<and>
    dispatch pb jt ex base token (make_task (ex_cfg ex) cp root timeout) w1 = (Ok ar, w2) \<and>
    w' = snd (mv_terminate (ex_client ex) w2 vm)"
proof -
  have agent: "\<exists>base token w1. dispatch pb jt ex base token t w1 = (Ok ar, w2)"
    if "use_agent pb jt ex vm endpoint t w = Some (Ok ar, w2)" for vm endpoint t w w2
    using that by (auto simp: use_agent_def Let_def split: prod.splits sum.splits if_splits option.splits res.splits)
  have vm: "\<exists>base token w1. dispatch pb jt ex base token t w1 = (Ok ar, w2)"
    if "use_vm pb jt ex out t w = Some (Ok ar, w2)" for out t w w2
    using that by (auto simp: use_vm_def split: if_splits option.splits res.splits prod.splits dest: agent)
  from assms obtain cp out t w2 w3 where "marshal_cmd pb command = Inr cp"
    "use_vm pb jt ex out (make_task (ex_cfg ex) cp root timeout) w3 = Some (Ok ar, w2)"
    "w' = snd (mv_terminate (ex_client ex) w2 (ro_id out))"
    by (auto simp: executor_run_def split: sum.splits prod.splits)
  with vm show ?thesis by blast
qed

lemma cut_received: "received r (cut_response ev r)"
proof (cases ev)
  case (Cuts k e)
  then show ?thesis by (auto simp: received_def cut_response_def delivered_def)
qed (simp_all add: cut_response_def received_delivered)

lemma farm_serve_ok:
  assumes "farm_serve env n ev w rq = (Inr resp, w')" "rs_code resp = 200"
  shows "\<exists>path h h' r. agent_serve env n (rq_method rq) path (rq_body rq) (h, fm_bucket w) = Some (Ok r, h', fm_bucket w') \<and>
    received r resp"
  using assms cut_received [of _ ev]
  by (auto simp: farm_serve_def refusal_def Let_def split: option.splits prod.splits if_splits res.splits
      dest!: attempt_cases(2)) blast

lemma farm_do_ok:
  assumes "farm_do pf env n w rq = (Inr resp, w')" "rs_code resp = 200"
  shows "\<exists>path h h' r. agent_serve env n (rq_method rq) path (rq_body rq) (h, fm_bucket w) = Some (Ok r, h', fm_bucket w') \<and>
    received r resp"
proof -
  obtain ev w1 where t: "turn pf w = (ev, w1)" by fastforce
  have "farm_serve env n ev w1 rq = (Inr resp, w')"
    using assms by (auto simp: farm_do_def t refusal_def split: platform_event.splits)
  from farm_serve_ok [OF this assms(2)] turn_sel [OF t] show ?thesis by simp
qed

lemma new_executor_cfg [simp]:
  "mc_bucket (ex_cfg (new_executor cl cfg)) = mc_bucket cfg" "mc_prefix (ex_cfg (new_executor cl cfg)) = mc_prefix cfg"
  "ex_client (new_executor cl cfg) = cl"
  by (simp_all add: new_executor_def Let_def)

definition farm_executor :: "platform \<Rightarrow> bucket agent_env \<Rightarrow> nat \<Rightarrow> fs \<Rightarrow> mv_config \<Rightarrow> farm executor" where
  "farm_executor pf env n img mv = new_executor (farm_client pf (with_bucket env) n img) mv"

text \<open>The store of the server whose executor has the configuration \<open>mv\<close>.\<close>

definition server_cfg :: "mv_config \<Rightarrow> s3_config" where
  "server_cfg mv = \<lparr>s3_bucket_name = mc_bucket mv, s3_prefix = mc_prefix mv\<rparr>"

lemma farm_dispatch_stored:
  assumes "json_sound (ag_json env)" "codec_sound (ag_codec env)"
    and "dispatch (ag_codec env) (ag_json env) (farm_executor pf env n img mv) base token t w = (Ok ar, w')"
  shows "list_all (has_blob (coerce_task t) (fm_bucket w')) (ar_digests ar)"
proof -
  let ?rq = "\<lparr>rq_method = ''POST'', rq_url = base @ execute_path,
      rq_headers = proxy_headers (ex_cfg (farm_executor pf env n img mv)) token @ [(''Content-Type'', ''application/json'')],
      rq_body = jt_render (ag_json env) (json_of_task t)\<rparr>"
  obtain resp where do: "farm_do pf (with_bucket env) n w ?rq = (Inr resp, w')"
    and ok: "decode_response (ag_codec env) (ag_json env) resp = Ok ar"
    using assms(3) by (auto simp: dispatch_def farm_executor_def farm_client_def split: prod.splits sum.splits option.splits)
  have "rs_code resp = 200" using ok by (auto simp: decode_response_def Let_def split: if_splits)
  from farm_do_ok [OF do this] obtain path h h' r where
    serve: "agent_serve (with_bucket env) n ''POST'' path (jt_render (ag_json env) (json_of_task t)) (h, fm_bucket w) =
      Some (Ok r, h', fm_bucket w')" "received r resp"
    by auto
  have "ag_json (with_bucket env) = ag_json env" "ag_codec (with_bucket env) = ag_codec env"
    "ag_client (with_bucket env) = (\<lambda>_. bucket_client)"
    by (simp_all add: with_bucket_def)
  with serve_ok_stored [of "with_bucket env" n path t h "fm_bucket w" r h' "fm_bucket w'" resp ar] assms(1,2) serve ok
  show ?thesis by simp
qed

lemma terminate_bucket: "fm_bucket (snd (mv_terminate (farm_client pf env n img) w vm)) = fm_bucket w"
proof -
  obtain ev w1 where t: "turn pf w = (ev, w1)" by fastforce
  then have "fm_bucket w1 = fm_bucket w" using turn_sel by blast
  then show ?thesis by (cases ev) (simp_all add: farm_client_def farm_terminate_def t attempt_def)
qed

text \<open>
  Whenever the executor of a farm returns a result, whatever the platform, the processes and the
  faults did, and whichever agent answered, every blob the result refers to is in the store of the
  server that asked, under the bucket and prefix of its configuration, which travel as JSON and so
  have to be UTF-8.
\<close>

lemma farm_digests_stored:
  assumes "json_sound (ag_json env)" and "codec_sound (ag_codec env)" and "utf8 (mc_bucket mv)" "utf8 (mc_prefix mv)"
    and "executor_run (ag_codec env) (ag_json env) (farm_executor pf env n img mv) w command root timeout = Some (Ok ar, w')"
    and "d \<in> set (ar_digests ar)"
  shows "lookup_blob (s3_view farm_objs (server_cfg mv) w') d \<noteq> None"
proof -
  let ?ex = "farm_executor pf env n img mv"
  obtain cp base token w1 w2 vm where
    disp: "dispatch (ag_codec env) (ag_json env) ?ex base token (make_task (ex_cfg ?ex) cp root timeout) w1 = (Ok ar, w2)"
    and w': "w' = snd (mv_terminate (ex_client ?ex) w2 vm)"
    using executor_dispatched [OF assms(5)] by blast
  have "has_blob (coerce_task (make_task (ex_cfg ?ex) cp root timeout)) (fm_bucket w2) d"
    using farm_dispatch_stored [OF assms(1,2) disp] assms(6) by (simp add: list_all_iff)
  moreover have "fm_bucket w' = fm_bucket w2" by (simp add: w' farm_executor_def terminate_bucket)
  moreover have "task_cfg (coerce_task (make_task (ex_cfg ?ex) cp root timeout)) = server_cfg mv"
    using assms(3,4) by (simp add: task_cfg_def make_task_def server_cfg_def utf8_def farm_executor_def)
  ultimately show ?thesis by (auto simp: has_blob_def lookup_blob_def farm_view_bucket)
qed

lemma farm_executor_returns: "executor_run pb jt (farm_executor pf env n img mv) w command root timeout \<noteq> None"
proof -
  have client: "ex_client (farm_executor pf env n img mv) = farm_client pf (with_bucket env) n img"
    by (simp add: farm_executor_def)
  show ?thesis using farm_platform.executor_run_returns [OF TrueI client] by (metis option.distinct(1))
qed

text \<open>
  C11.  The whole system: an action run by the server with the executor over the farm's bucket, for any
  agents and processes and any faults, of the platform too: launches, polls, tokens, requests and
  terminations may each fail, be lost, be cut short or take any time, and a MicroVM may stay
  pending or unhealthy for ever.  The executor always returns, the goroutine of the action returns
  and publishes the operations of the protocol (stages in order, the last one completed and done), and
  the action cache changes at most at the action, and only to a result with exit code 0 of an action
  that may be cached: nothing the MicroVMs do touches it.
\<close>

theorem farm_action:
  assumes "good_digest (xr_action_digest req)" and "good_digest (a_command_digest a)"
    and "run_action pb (s3_ops farm_s3 cfg pb) (runner_of pb jt (farm_executor pf env n img mv)) w name req a = ((r, ops), w')"
  shows "(\<forall>w1 command root timeout. executor_run pb jt (farm_executor pf env n img mv) w1 command root timeout \<noteq> None) \<and>
    r = Ok () \<and> well_formed_ops name (xr_action_digest req) ops \<and>
    cache_effect pb (s3_view farm_objs cfg w) (s3_view farm_objs cfg w') (xr_action_digest req) a ops"
  using farm_executor_returns
    farm_world.executor.run_action_law [OF TrueI assms(1,2) assms(3) [unfolded farm_executor_def]] by blast

end
