(* ===== verification/FarmRun.thy ===== *)
theory FarmRun
  imports Farm
begin

text \<open>
  The farm at work: one action from the request to the action cache, and the properties of the whole
  applied to it.
\<close>

definition farm_config :: mv_config where
  "farm_config = \<lparr>mc_image = ''img'', mc_version = '''', mc_role = '''', mc_ingress = [], mc_egress = [],
     mc_region = ''us-east-1'', mc_bucket = ''farm'', mc_prefix = ''p'', mc_max_duration = 0, mc_agent_port = 0,
     mc_startup = 0\<rparr>"

text \<open>A platform on which every call goes as documented and takes no time.\<close>

definition calm :: platform where
  "calm = \<lparr>pl_event = (\<lambda>_. Works), pl_delay = (\<lambda>_. 0), pl_url = (\<lambda>_. None)\<rparr>"

definition demo_client :: "farm mv_client" where
  "demo_client = farm_client calm (with_bucket (demo_agent demo_json)) 1 agent_host"

definition idle_farm :: farm where
  "idle_farm = \<lparr>fm_bucket = empty_bucket, fm_clock = 0, fm_vms = [], fm_count = 0, fm_calls = 0\<rparr>"

definition busy_farm :: "nat \<Rightarrow> bucket \<Rightarrow> farm" where
  "busy_farm k b = \<lparr>fm_bucket = b, fm_clock = 0, fm_vms = [(''mv-0'', agent_host)], fm_count = 1, fm_calls = k\<rparr>"

definition done_farm :: farm where
  "done_farm = \<lparr>fm_bucket = zero_put (zero_put empty_bucket), fm_clock = 0, fm_vms = [], fm_count = 1, fm_calls = 6\<rparr>"

definition demo_do :: "farm \<Rightarrow> http_request \<Rightarrow> (err + client_response) \<times> farm" where
  "demo_do = farm_do calm (demo_agent demo_json) 1"

definition demo_base :: string where
  "demo_base = ''https://mv-0.vm.aws''"

lemma demo_bucket [simp]: "with_bucket (demo_agent jt) = demo_agent jt"
  by (simp add: with_bucket_def demo_agent_def)

lemma calm_turn: "turn calm w = (Works, w\<lparr>fm_calls := Suc (fm_calls w)\<rparr>)"
  by (simp add: turn_def calm_def)

lemma busy_turn: "turn calm (busy_farm k b) = (Works, busy_farm (Suc k) b)"
  by (simp add: calm_turn busy_farm_def)

lemma demo_calls:
  "mv_uuid demo_client w = (''6f1c'' @ dec (fm_calls w), w)"
  "mv_run demo_client idle_farm ri =
     (Inr \<lparr>ro_id = ''mv-0'', ro_endpoint = ''mv-0.vm.aws'', ro_state = OtherState ''PENDING''\<rparr>,
      busy_farm (Suc 0) empty_bucket)"
  "mv_get demo_client (busy_farm k b) ''mv-0'' =
     (Inr \<lparr>go_state = Running, go_endpoint = ''mv-0.vm.aws'', go_reason = ''''\<rparr>, busy_farm (Suc k) b)"
  "mv_token demo_client (busy_farm k b) vm = (Inr [''X-aws-proxy-auth'' \<mapsto> vm], busy_farm (Suc k) b)"
  "snd (mv_terminate demo_client (busy_farm k b) ''mv-0'') = done_farm\<lparr>fm_bucket := b, fm_calls := Suc k\<rparr>"
  "mv_url demo_client u = None" "mv_now demo_client w = (fm_clock w, w)"
  "mv_do demo_client = demo_do"
  by (simp_all add: demo_client_def demo_do_def farm_client_def farm_launch_def farm_get_def farm_token_def
      farm_terminate_def calm_turn busy_turn attempt_def idle_farm_def endpoint_of_def Let_def dec.simps dec_digit_def
      char_of_def bit_0)
     (simp_all add: busy_farm_def done_farm_def calm_def attempt_def endpoint_of_def)

lemma demo_route:
  "route (fm_vms (busy_farm k b)) (demo_base @ path) = Some (''mv-0'', path)"
  by (simp add: busy_farm_def endpoint_of_def demo_base_def Let_def)

lemma demo_request:
  assumes "agent_serve (demo_agent demo_json) 1 verb path body (agent_host, b) = Some (Ok resp, agent_host, b')"
  shows "demo_do (busy_farm k b)
     \<lparr>rq_method = verb, rq_url = demo_base @ path,
      rq_headers = (''X-aws-proxy-auth'', ''mv-0'') # hs, rq_body = body\<rparr> =
   (Inr (delivered resp), busy_farm (Suc k) b')"
  unfolding demo_do_def farm_do_def busy_turn prod.case platform_event.case farm_serve_def http_request.simps demo_route
  using assms by (simp add: busy_farm_def attempt_def cut_response_def Let_def)

subsection \<open>The executor on the farm\<close>

definition demo_executor :: "farm executor" where
  "demo_executor = new_executor demo_client farm_config"

definition logging_executor :: "(farm \<times> mv_event list) executor" where
  "logging_executor = new_executor (logged demo_client) farm_config"

definition full_config :: mv_config where
  "full_config = farm_config\<lparr>mc_agent_port := 8080, mc_startup := 120000000000, mc_max_duration := 3600\<rparr>"

lemma executor_sel [simp]:
  "ex_client demo_executor = demo_client" "ex_cfg demo_executor = full_config"
  "ex_client logging_executor = logged demo_client" "ex_cfg logging_executor = full_config"
  by (simp_all add: demo_executor_def logging_executor_def new_executor_def full_config_def farm_config_def Let_def)

lemma logged_sel [simp]:
  "mv_get (logged cl) (w, l) vm = (case mv_get cl w vm of (r, w') \<Rightarrow> (r, w', l @ [Called]))"
  "mv_token (logged cl) (w, l) vm = (case mv_token cl w vm of (r, w') \<Rightarrow> (r, w', l @ [Called]))"
  "mv_terminate (logged cl) (w, l) vm = (case mv_terminate cl w vm of (r, w') \<Rightarrow> (r, w', l @ [Killed vm]))"
  "mv_url (logged cl) = mv_url cl"
  "mv_do (logged cl) (w, l) rq = (case mv_do cl w rq of (r, w') \<Rightarrow> (r, w', l @ [Called]))"
  "mv_now (logged cl) (w, l) = (case mv_now cl w of (r, w') \<Rightarrow> (r, w', l @ [Called]))"
  "mv_uuid (logged cl) (w, l) = (case mv_uuid cl w of (r, w') \<Rightarrow> (r, w', l @ [Called]))"
  "mv_run (logged cl) (w, l) ri = (case mv_run cl w ri of
     (Inl e, w') \<Rightarrow> (Inl e, w', l @ [Called]) | (Inr out, w') \<Rightarrow> (Inr out, w', l @ [Launched (ro_id out)]))"
  by (simp_all add: logged_def)

text \<open>The two requests of the executor and what comes back.\<close>

lemma demo_health:
  "demo_do (busy_farm k b)
     \<lparr>rq_method = ''GET'', rq_url = demo_base @ health_path,
      rq_headers = proxy_headers full_config ''mv-0'', rq_body = []\<rparr> =
   (Inr (delivered (plain_response 200 '''')), busy_farm (Suc k) b)"
  unfolding proxy_headers_def by (rule demo_request) (simp add: agent_serve_def)

lemma demo_dispatch:
  "demo_do (busy_farm k empty_bucket)
     \<lparr>rq_method = ''POST'', rq_url = demo_base @ execute_path,
      rq_headers = proxy_headers full_config ''mv-0'' @ [(''Content-Type'', ''application/json'')],
      rq_body = jt_render demo_json (json_of_task agent_task)\<rparr> =
   (Inr (delivered (write_result demo_json \<lparr>tr_action_result = [0], tr_error = []\<rparr>)),
    busy_farm (Suc k) (zero_put (zero_put empty_bucket)))"
  unfolding proxy_headers_def append_Cons append_Nil by (rule demo_request) (rule demo_serve)

lemma demo_answer_decodes:
  "decode_response agent_codec demo_json (delivered (write_result demo_json \<lparr>tr_action_result = [0], tr_error = []\<rparr>)) =
    Ok agent_result"
  unfolding decode_delivered [OF demo_json_ok(2) demo_small] by (simp add: agent_codec_def table_decode_def)

lemma demo_task:
  "make_task full_config [] (Some empty_digest) 1000000000 = agent_task"
  by (simp add: make_task_def agent_task_def full_config_def farm_config_def timeout_seconds_def empty_digest_def
      signed_divide_int_def)

lemma demo_marshal: "marshal_cmd agent_codec agent_command = Inr []"
  by (simp add: agent_codec_def table_encode_def)

lemma demo_endpoint: "normalize_endpoint ''mv-0.vm.aws'' = demo_base"
  by (simp add: normalize_endpoint_def demo_base_def)

lemmas demo_steps = demo_calls demo_health demo_dispatch demo_answer_decodes demo_endpoint

lemma demo_executor_run:
  "executor_run agent_codec demo_json demo_executor idle_farm agent_command (Some empty_digest) 1000000000 =
    Some (Ok agent_result, done_farm)"
proof -
  have wr: "wait_running demo_executor ''mv-0'' (busy_farm k b) = Some (Ok ''mv-0.vm.aws'', busy_farm (Suc k) b)" for k b
    by (simp add: wait_running_def demo_steps) (subst running_loop.simps, simp add: poll_running_def demo_steps)
  have wh: "wait_healthy demo_executor demo_base ''mv-0'' (busy_farm k b) = Some (Ok (), busy_farm (Suc k) b)" for k b
    by (simp add: wait_healthy_def demo_steps) (subst healthy_loop.simps,
      simp add: poll_healthy_def demo_steps delivered_def plain_response_def)
  have d: "dispatch agent_codec demo_json demo_executor demo_base ''mv-0'' agent_task (busy_farm k empty_bucket) =
      (Ok agent_result, busy_farm (Suc k) (zero_put (zero_put empty_bucket)))" for k    unfolding dispatch_def executor_sel demo_calls option.case demo_dispatch prod.case sum.case demo_answer_decodes ..
  show ?thesis
    by (simp add: executor_run_def demo_marshal demo_task use_vm_def use_agent_def wr wh d demo_steps Let_def)
       (simp add: done_farm_def)
qed

lemma demo_logged_run:
  "executor_run agent_codec demo_json logging_executor (idle_farm, []) agent_command (Some empty_digest) 1000000000 =
    Some (Ok agent_result, done_farm,
      [Called, Launched ''mv-0'', Called, Called, Called, Called, Called, Called, Killed ''mv-0''])"
proof -
  have wr: "wait_running logging_executor ''mv-0'' (busy_farm k b, l) =
      Some (Ok ''mv-0.vm.aws'', busy_farm (Suc k) b, l @ [Called, Called])" for k b l
    by (simp add: wait_running_def demo_steps) (subst running_loop.simps, simp add: poll_running_def demo_steps)
  have wh: "wait_healthy logging_executor demo_base ''mv-0'' (busy_farm k b, l) =
      Some (Ok (), busy_farm (Suc k) b, l @ [Called, Called])" for k b l
    by (simp add: wait_healthy_def demo_steps) (subst healthy_loop.simps,
      simp add: poll_healthy_def demo_steps delivered_def plain_response_def)
  have d: "dispatch agent_codec demo_json logging_executor demo_base ''mv-0'' agent_task (busy_farm k empty_bucket, l) =
      (Ok agent_result, busy_farm (Suc k) (zero_put (zero_put empty_bucket)), l @ [Called])" for k l
    unfolding dispatch_def executor_sel logged_sel demo_calls option.case demo_dispatch prod.case sum.case demo_answer_decodes ..
  have kill: "snd (case mv_terminate demo_client (busy_farm k b) ''mv-0'' of (r, w') \<Rightarrow> (r, w', l)) =
      (done_farm\<lparr>fm_bucket := b, fm_calls := Suc k\<rparr>, l)" for k b l
    using demo_calls(5) [of k b] by (cases "mv_terminate demo_client (busy_farm k b) ''mv-0''") simp
  show ?thesis
    by (simp add: executor_run_def demo_marshal demo_task use_vm_def use_agent_def wr wh d demo_steps kill Let_def
        del: demo_calls(5)) (simp add: done_farm_def)
qed

subsection \<open>The properties on this run\<close>

theorem executor_tears_down_witness:
  "\<exists>n m vm. [Called, Launched ''mv-0'', Called, Called, Called, Called, Called, Called, Killed ''mv-0''] =
     replicate n Called @ [Launched vm] @ replicate m Called @ [Killed vm]"
  using executor_tears_down [OF executor_sel(3) demo_logged_run] by auto

theorem executor_returns_witness:
  "\<exists>r w' l. executor_run agent_codec demo_json logging_executor (idle_farm, []) agent_command (Some empty_digest) 5 =
      Some (r, w', l) \<and> r \<noteq> Panic \<and> length l \<le> 739"
proof -
  have client: "microvm_client demo_client (\<lambda>_. True) fm_clock (\<lambda>w. v_acs (s3_view farm_objs example_cfg w))"
    unfolding demo_client_def by (rule farm_platform.microvm_client_axioms)
  have "sint (mc_startup full_config) = 120000000000" by (simp add: full_config_def)
  with executor_returns [OF client TrueI executor_sel(3), of agent_codec demo_json idle_farm agent_command "Some empty_digest" 5]
  show ?thesis by fastforce
qed

lemma demo_farm_executor: "demo_executor = farm_executor calm (demo_agent demo_json) 1 agent_host farm_config"
  by (simp add: demo_executor_def farm_executor_def demo_client_def)

lemma table_json_sound:
  "jt_first (table_json js) (jt_render (table_json js) j) = Inr x \<Longrightarrow> x = j \<and> j \<in> set js"
  "jt_parse (table_json js) (take n (jt_render (table_json js) j @ [10])) = Inr x \<Longrightarrow> x = j \<and> j \<in> set js"
proof -
  show "jt_first (table_json js) (jt_render (table_json js) j) = Inr x \<Longrightarrow> x = j \<and> j \<in> set js"
    by (cases "position j js") (auto simp: table_json_def Let_def dest: position_nth split: if_splits)
  assume p: "jt_parse (table_json js) (take n (jt_render (table_json js) j @ [10])) = Inr x"
  show "x = j \<and> j \<in> set js"
  proof (cases "position j js")
    case (Some k)
    have all0: "takeWhile (\<lambda>x. x = 0) (replicate i (0 :: byte)) = replicate i 0" for i by (induction i) simp_all
    show ?thesis
    proof (cases "n \<le> k")
      case True
      then have eq: "take n (jt_render (table_json js) j @ [10]) = replicate n 0"
        using Some by (simp add: table_json_def Let_def min_def)
      have "jt_parse (table_json js) (replicate n 0) \<noteq> Inr x" by (simp add: table_json_def Let_def all0)
      with p eq show ?thesis by simp
    next
      case False
      then obtain i where "n = Suc (k + i)" using less_iff_Suc_add [of k n] by auto
      then have eq: "take n (jt_render (table_json js) j @ [10]) = replicate k 0 @ 1 # take i [10]"
        using Some by (simp add: table_json_def Let_def)
      have "jt_parse (table_json js) (replicate k 0 @ 1 # take i [10]) = Inr j" "j \<in> set js"
        using position_nth [OF Some] by (auto simp: table_json_def Let_def)
      with p eq show ?thesis by simp
    qed
  next
    case None
    with p show ?thesis by (cases n) (auto simp: table_json_def Let_def split: if_splits)
  qed
qed

lemma task_no_result: "json_of_task t \<noteq> json_of_result r"
  by (simp add: json_of_task_def json_of_result_def)

lemma demo_json_sound: "json_sound demo_json"
proof -
  let ?js = "[json_of_task agent_task, json_of_result \<lparr>tr_action_result = [0], tr_error = []\<rparr>]"
  have "utf8 (t_region agent_task)" "utf8 (t_bucket agent_task)" "utf8 (t_prefix agent_task)" "utf8 (t_root_hash agent_task)"
    by (rule ascii_utf8; simp add: agent_task_def empty_hash_def)+
  then have task: "coerce_task agent_task = agent_task" by (simp add: utf8_def coerce_task_def)
  have result: "coerce_result \<lparr>tr_action_result = [0], tr_error = []\<rparr> = \<lparr>tr_action_result = [0], tr_error = []\<rparr>"
    by (simp add: coerce_result_def)
  have t: "json_of_task t \<in> set ?js \<Longrightarrow> coerce_task t = t" for t
    using task task_no_result by (auto simp: json_of_task_inject)
  have r: "json_of_result r \<in> set ?js \<Longrightarrow> coerce_result r = r" for r
    using result task_no_result [of agent_task r] by (auto simp: json_of_result_inject)
  show ?thesis
    unfolding json_sound_def demo_json_def
    using table_json_sound(1) [of ?js] table_json_sound(2) [of ?js] t r by metis
qed

lemma demo_codec_sound: "codec_sound agent_codec"
  unfolding codec_sound_def agent_codec_def table_codec_sel
  by (auto dest: table_roundtrip simp: table_decode_def empty_result_def ar_digests_def)

subsection \<open>From the request to the action cache\<close>

definition farm_ops_of :: "digest_ptr \<Rightarrow> operation list" where
  "farm_ops_of d =
    [operation_msg ''op-1'' d CacheCheck None,
     operation_msg ''op-1'' d Executing None,
     completed ''op-1'' d
       \<lparr>er_result = Some agent_result, er_cached = False, er_status = status_proto OK empty_message\<rparr>]"

abbreviation farm_ops :: "operation list" where
  "farm_ops \<equiv> farm_ops_of (Some zero_digest)"

lemma farm_run_of:
  assumes "\<not> xr_skip_cache req"
  shows
  "\<exists>w'. run_action agent_codec (s3_ops farm_s3 (server_cfg farm_config) agent_codec)
      (runner_of agent_codec demo_json demo_executor)
      idle_farm ''op-1'' req farm_action_msg = ((Ok (), farm_ops_of (xr_action_digest req)), w')"
proof -
  have miss: "s3_get_ar farm_s3 (server_cfg farm_config) agent_codec idle_farm d = (Err ErrNotFound, idle_farm)" for d
    by (simp add: s3_get_ar_def farm_s3_def in_bucket_def bk_get_def bk_next_def idle_farm_def empty_bucket_def
        is_not_found_def)
  have cmd: "s3_get farm_s3 (server_cfg farm_config) idle_farm (Some empty_digest) = (Ok [], idle_farm)"
    by (simp add: s3_get_def is_empty_eq)
  have parse: "unmarshal_cmd agent_codec [] = Inr agent_command" "marshal_ar agent_codec agent_result = Inr [0]"
    by (simp_all add: agent_codec_def table_decode_def table_encode_def)
  have run: "runner_of agent_codec demo_json demo_executor idle_farm
      agent_command (Some empty_digest) 1000000000 = (Ok agent_result, done_farm)"
    using demo_executor_run by (simp add: runner_of_def)
  have faults: "bk_faults (fm_bucket done_farm) = []"
    by (simp add: done_farm_def demo_put empty_bucket_faults)
  have put: "fst (s3_put_ar farm_s3 (server_cfg farm_config) agent_codec done_farm d agent_result) = Ok ()" for d
    by (simp add: s3_put_ar_def parse farm_s3_def in_bucket_def bk_put_def bk_next_def faults)
  then obtain w' where w': "s3_put_ar farm_s3 (server_cfg farm_config) agent_codec done_farm (xr_action_digest req) agent_result =
      (Ok (), w')"
    by (metis prod.collapse)
  have flags: "\<not> xr_skip_cache req"
    "a_command_digest farm_action_msg = Some empty_digest" "a_input_root farm_action_msg = Some empty_digest"
    "action_timeout farm_action_msg = 1000000000" "\<not> a_do_not_cache farm_action_msg" "ar_exit_code agent_result = 0"
    using assms by (simp_all add: farm_action_msg_def action_timeout_def agent_result_def)
  show ?thesis
    by (simp add: run_action_def run_uncached_def run_command_def finish_action_def Let_def
        miss cmd parse run w' flags farm_ops_of_def)
qed

lemma farm_run:
  "\<exists>w'. run_action agent_codec (s3_ops farm_s3 (server_cfg farm_config) agent_codec)
      (runner_of agent_codec demo_json demo_executor)
      idle_farm ''op-1'' demo_request farm_action_msg = ((Ok (), farm_ops), w')"
  using farm_run_of [of demo_request] by (simp add: demo_request_def)

theorem farm_action_witness:
  "\<exists>w'. run_action agent_codec (s3_ops farm_s3 (server_cfg farm_config) agent_codec)
      (runner_of agent_codec demo_json (farm_executor calm (demo_agent demo_json) 1 agent_host farm_config))
      idle_farm ''op-1'' demo_request farm_action_msg = ((Ok (), farm_ops), w') \<and>
    well_formed_ops ''op-1'' (Some zero_digest) farm_ops \<and>
    cache_effect agent_codec (s3_view farm_objs (server_cfg farm_config) idle_farm)
      (s3_view farm_objs (server_cfg farm_config) w') (Some zero_digest) farm_action_msg farm_ops"
proof -
  obtain w' where run: "run_action agent_codec (s3_ops farm_s3 (server_cfg farm_config) agent_codec)
      (runner_of agent_codec demo_json (farm_executor calm (demo_agent demo_json) 1 agent_host farm_config))
      idle_farm ''op-1'' demo_request farm_action_msg = ((Ok (), farm_ops), w')"
    using farm_run [unfolded demo_farm_executor] by blast
  have digests: "xr_action_digest demo_request = Some zero_digest" "a_command_digest farm_action_msg = Some empty_digest"
    by (simp_all add: demo_request_def farm_action_msg_def)
  have plain: "good_digest (Some (from_bytes b))" for b
    by (simp add: good_digest_def valid_hash_plain valid_hash_sha256)
  have "good_digest (xr_action_digest demo_request)" "good_digest (a_command_digest farm_action_msg)"
    using plain [of "[0]"] plain [of "[]"] by (simp_all add: digests from_bytes_zero from_bytes_Nil)
  from farm_action [OF this run] run show ?thesis by (auto simp: digests)
qed

end
