(* ===== verification/ServerMain.thy ===== *)
theory ServerMain
  imports FarmRun
begin

text \<open>
  \<^verbatim>\<open>cmd/buildfarm-server\<close>: from the flags to the server.  Loading the AWS configuration is a parameter;
  the command line is in theory \<open>ServerFlags\<close>, and what \<^verbatim>\<open>run\<close> does with the server in theory \<open>ServerRun\<close>.
\<close>

subsection \<open>Flags\<close>

record flags =
  fl_listen :: string
  fl_bucket :: string
  fl_prefix :: string
  fl_region :: string
  fl_instance :: string
  fl_image :: string
  fl_image_version :: string
  fl_role :: string
  fl_ingress :: string
  fl_egress :: string
  fl_max_duration :: int64
  fl_agent_port :: int64

definition default_flags :: flags where
  "default_flags =
     \<lparr>fl_listen = '':8980'', fl_bucket = '''', fl_prefix = '''', fl_region = '''', fl_instance = '''',
      fl_image = '''', fl_image_version = '''', fl_role = '''', fl_ingress = '''', fl_egress = '''',
      fl_max_duration = 3600, fl_agent_port = 8080\<rparr>"

subsection \<open>Connectors\<close>

text \<open>\<^verbatim>\<open>strings.TrimSpace\<close> on ASCII text.\<close>

definition is_space :: "char \<Rightarrow> bool" where
  "is_space c \<longleftrightarrow> c \<in> {CHR 0x09, CHR 0x0A, CHR 0x0B, CHR 0x0C, CHR 0x0D, CHR 0x20}"

definition trim_space :: "string \<Rightarrow> string" where
  "trim_space s = rev (dropWhile is_space (rev (dropWhile is_space s)))"

definition connectors :: "string \<Rightarrow> string \<Rightarrow> string list" where
  "connectors flag_value fallback =
     (let v = (if flag_value = '''' then fallback else flag_value)
      in filter (\<lambda>p. p \<noteq> '''') (map trim_space (split_on CHR '','' v)))"

definition default_ingress :: "string \<Rightarrow> string" where
  "default_ingress region =
     ''arn:aws:lambda:'' @ region @ '':aws:network-connector:aws-network-connector:ALL_INGRESS''"

definition default_egress :: "string \<Rightarrow> string" where
  "default_egress region =
     ''arn:aws:lambda:'' @ region @ '':aws:network-connector:aws-network-connector:INTERNET_EGRESS''"

lemma trim_id: "\<forall>c \<in> set s. \<not> is_space c \<Longrightarrow> trim_space s = s"
proof -
  assume s: "\<forall>c \<in> set s. \<not> is_space c"
  have id: "dropWhile is_space u = u" if "\<forall>c \<in> set u. \<not> is_space c" for u
    using that by (cases u) auto
  have "dropWhile is_space (rev s) = rev s" by (rule id) (use s in simp)
  with id [OF s] show ?thesis by (simp add: trim_space_def)
qed

lemma set_dropWhile: "c \<in> set (dropWhile P s) \<Longrightarrow> c \<in> set s"
  by (induction s) (auto split: if_splits)

lemma set_trim: "set (trim_space s) \<subseteq> set s"
proof
  fix c
  assume "c \<in> set (trim_space s)"
  then have "c \<in> set (dropWhile is_space (rev (dropWhile is_space s)))" by (simp add: trim_space_def)
  then have "c \<in> set (rev (dropWhile is_space s))" by (rule set_dropWhile)
  then have "c \<in> set (dropWhile is_space s)" by simp
  then show "c \<in> set s" by (rule set_dropWhile)
qed

lemma trim_ends:
  assumes "trim_space s \<noteq> ''''"
  shows "\<not> is_space (hd (trim_space s)) \<and> \<not> is_space (last (trim_space s))"
proof -
  define u where "u = dropWhile is_space s"
  have t: "trim_space s = rev (dropWhile is_space (rev u))" by (simp add: trim_space_def u_def)
  have ne: "dropWhile is_space (rev u) \<noteq> []" using assms t by simp
  then have last: "\<not> is_space (last (trim_space s))" using hd_dropWhile [OF ne] by (simp add: t last_rev)
  have "u \<noteq> []" using ne by auto
  then have "\<not> is_space (hd u)" unfolding u_def by (rule hd_dropWhile)
  moreover have "rev u = takeWhile is_space (rev u) @ dropWhile is_space (rev u)" by simp
  then have "u = rev (dropWhile is_space (rev u)) @ rev (takeWhile is_space (rev u))" by (metis rev_append rev_rev_ident)
  then have "hd u = hd (trim_space s)" using ne t by (metis hd_append2 rev_is_Nil_conv)
  ultimately show ?thesis using last by simp
qed

text \<open>Every connector is a name that is not empty, has no comma and no white space around it.\<close>

lemma connectors_plain:
  assumes "p \<in> set (connectors v fallback)"
  shows "p \<noteq> '''' \<and> CHR '','' \<notin> set p \<and> \<not> is_space (hd p) \<and> \<not> is_space (last p)"
proof -
  obtain w x where x: "x \<in> set (split_on CHR '','' w)" "p = trim_space x" "p \<noteq> ''''"
    using assms by (auto simp: connectors_def Let_def)
  then have "CHR '','' \<notin> set x" using split_on_parts by blast
  with x trim_ends [of x] set_trim [of x] show ?thesis by blast
qed

text \<open>A list of names joined by commas is read back.\<close>

definition plain_item :: "string \<Rightarrow> bool" where
  "plain_item n \<longleftrightarrow> n \<noteq> '''' \<and> list_all (\<lambda>c. \<not> is_space c \<and> c \<noteq> CHR '','') n"

lemma plain_itemD:
  "plain_item n \<Longrightarrow> n \<noteq> ''''"
  "plain_item n \<Longrightarrow> CHR '','' \<notin> set n"
  "plain_item n \<Longrightarrow> trim_space n = n"
  by (auto simp: plain_item_def list_all_iff intro: trim_id)

lemma connectors_read_back:
  assumes "ns \<noteq> []" "list_all plain_item ns"
  shows "connectors (join_with CHR '','' ns) fallback = ns"
proof -
  have item: "plain_item n" if "n \<in> set ns" for n
    using assms(2) that by (simp add: list_all_iff)
  have split: "split_on CHR '','' (join_with CHR '','' ns) = ns"
    by (rule split_join) (use assms(1) item plain_itemD(2) in blast)+
  have trim: "map trim_space ns = ns" by (rule map_idI) (rule plain_itemD(3) [OF item])
  have keep: "filter (\<lambda>p. p \<noteq> '''') ns = ns" by (rule filter_True) (use item plain_itemD(1) in blast)
  have "join_with CHR '','' ns \<noteq> ''''"
  proof
    assume "join_with CHR '','' ns = ''''"
    with split have "ns = ['''']" by simp
    then have "plain_item ''''" using item by simp
    then show False by (simp add: plain_item_def)
  qed
  then show ?thesis by (simp add: connectors_def split trim keep)
qed

subsection \<open>From the flags to the server\<close>

text \<open>
  \<open>load\<close> is \<^verbatim>\<open>config.LoadDefaultConfig\<close>: from the region asked for, if any, to an error or the region
  it resolved.  \<^verbatim>\<open>int32(*maxDuration)\<close> keeps the low 32 bits.
\<close>

definition microvm_config :: "flags \<Rightarrow> string \<Rightarrow> mv_config" where
  "microvm_config fl region =
     \<lparr>mc_image = fl_image fl, mc_version = fl_image_version fl, mc_role = fl_role fl,
      mc_ingress = connectors (fl_ingress fl) (default_ingress region),
      mc_egress = connectors (fl_egress fl) (default_egress region),
      mc_region = region, mc_bucket = fl_bucket fl, mc_prefix = fl_prefix fl,
      mc_max_duration = ucast (fl_max_duration fl), mc_agent_port = fl_agent_port fl, mc_startup = 0\<rparr>"

definition server_store :: "'w s3_client \<Rightarrow> codec \<Rightarrow> flags \<Rightarrow> 'w store" where
  "server_store cl pb fl = s3_ops cl \<lparr>s3_bucket_name = fl_bucket fl, s3_prefix = fl_prefix fl\<rparr> pb"

definition start_server ::
    "(string option \<Rightarrow> err + string) \<Rightarrow> 'w s3_client \<Rightarrow> 'w mv_client \<Rightarrow> codec \<Rightarrow> json_text \<Rightarrow> flags \<Rightarrow>
      err + string \<times> 'w server" where
  "start_server load cl mvc pb jt fl =
     (if fl_bucket fl = '''' then Inl (Errorf ''-bucket is required'' [])
      else case load (if fl_region fl \<noteq> '''' then Some (fl_region fl) else None) of
             Inl e \<Rightarrow> Inl (Wrapf ''load AWS config: %w'' [] e)
           | Inr region \<Rightarrow>
               if region = '''' then
                 Inl (Errorf ''no AWS region resolved; set -region or AWS_REGION'' [])
               else
                 (let store = server_store cl pb fl;
                      exec = (if fl_image fl \<noteq> ''''
                              then Some (runner_of pb jt (new_executor mvc (microvm_config fl region)))
                              else None)
                  in Inr (region, new_server store exec (fl_instance fl))))"

text \<open>The server alone.\<close>

definition run_server ::
    "(string option \<Rightarrow> err + string) \<Rightarrow> 'w s3_client \<Rightarrow> 'w mv_client \<Rightarrow> codec \<Rightarrow> json_text \<Rightarrow> flags \<Rightarrow>
      err + 'w server" where
  "run_server load cl mvc pb jt fl =
     (case start_server load cl mvc pb jt fl of Inl e \<Rightarrow> Inl e | Inr (region, sv) \<Rightarrow> Inr sv)"

subsection \<open>What a started server is\<close>

definition asked_region :: "flags \<Rightarrow> string option" where
  "asked_region fl = (if fl_region fl \<noteq> '''' then Some (fl_region fl) else None)"

lemma run_server_cases:
  "run_server load cl mvc pb jt fl = Inr sv \<longleftrightarrow>
    fl_bucket fl \<noteq> '''' \<and>
    (\<exists>region. load (asked_region fl) = Inr region \<and> region \<noteq> '''' \<and>
      sv = new_server (server_store cl pb fl)
        (if fl_image fl \<noteq> '''' then Some (runner_of pb jt (new_executor mvc (microvm_config fl region))) else None)
        (fl_instance fl))"
  by (auto simp: run_server_def start_server_def asked_region_def Let_def split: sum.splits if_splits)

text \<open>The default connectors of a region whose name is plain are one connector each.\<close>

lemma join_single: "join_with c [w] = w"
  by simp

lemma connectors_default:
  assumes "plain_item region"
  shows "connectors '''' (default_ingress region) = [default_ingress region]"
    and "connectors '''' (default_egress region) = [default_egress region]"
proof -
  have one: "connectors '''' v = [v]" if "plain_item v" for v
  proof -
    have "connectors v v = [v]" using connectors_read_back [of "[v]" v] that by simp
    then show ?thesis using plain_itemD(1) [OF that] by (simp add: connectors_def)
  qed
  have "plain_item (default_ingress region)" "plain_item (default_egress region)"
    using assms by (simp_all add: plain_item_def default_ingress_def default_egress_def is_space_def)
  then show "connectors '''' (default_ingress region) = [default_ingress region]"
    "connectors '''' (default_egress region) = [default_egress region]"
    by (simp_all add: one)
qed

text \<open>
  Start-up: the server starts exactly when a bucket is given and the AWS configuration resolves
  a region.  Remote execution is offered exactly when a MicroVM image is given: without one
  the capabilities do not list it, and \<^verbatim>\<open>Execute\<close> answers \<^verbatim>\<open>Unimplemented\<close> and changes nothing.  Connector
  flags are read as written, and unset ones give the region's defaults.
\<close>

theorem server_start:
  assumes "plain_item region" and "ns \<noteq> []" and "list_all plain_item ns"
  shows "((\<exists>sv. run_server load cl mvc pb jt fl = Inr sv) \<longleftrightarrow>
      fl_bucket fl \<noteq> '''' \<and> (\<exists>g. load (asked_region fl) = Inr g \<and> g \<noteq> '''')) \<and>
    (\<forall>sv s uuid req. run_server load cl mvc pb jt fl = Inr sv \<longrightarrow>
      om_entries (sv_ops sv) = [] \<and> execution_enabled sv = (fl_image fl \<noteq> '''') \<and>
      (sc_execution (get_capabilities sv) = None) = (fl_image fl = '''') \<and>
      (fl_image fl = '''' \<longrightarrow>
        (\<exists>e. execute pb sv s uuid req = ((Err e, sv), s) \<and> err_code e = Some Unimplemented))) \<and>
    mc_ingress (microvm_config (fl\<lparr>fl_ingress := join_with CHR '','' ns\<rparr>) region) = ns \<and>
    mc_egress (microvm_config (fl\<lparr>fl_egress := join_with CHR '','' ns\<rparr>) region) = ns \<and>
    mc_ingress (microvm_config (fl\<lparr>fl_ingress := ''''\<rparr>) region) = [default_ingress region] \<and>
    mc_egress (microvm_config (fl\<lparr>fl_egress := ''''\<rparr>) region) = [default_egress region]"
proof (intro conjI allI impI)
  show "(\<exists>sv. run_server load cl mvc pb jt fl = Inr sv) \<longleftrightarrow>
      fl_bucket fl \<noteq> '''' \<and> (\<exists>g. load (asked_region fl) = Inr g \<and> g \<noteq> '''')"
    by (auto simp: run_server_cases)
next
  fix sv s uuid req
  assume "run_server load cl mvc pb jt fl = Inr sv"
  then obtain g where sv: "sv = new_server (server_store cl pb fl)
        (if fl_image fl \<noteq> '''' then Some (runner_of pb jt (new_executor mvc (microvm_config fl g))) else None)
        (fl_instance fl)"
    by (auto simp: run_server_cases)
  show "om_entries (sv_ops sv) = []" by (simp add: sv new_server_def new_operation_manager_def)
  show "execution_enabled sv = (fl_image fl \<noteq> '''')" by (simp add: sv new_server_def execution_enabled_def)
  show "(sc_execution (get_capabilities sv) = None) = (fl_image fl = '''')"
    by (simp add: sv new_server_def get_capabilities_def)
  assume "fl_image fl = ''''"
  then show "\<exists>e. execute pb sv s uuid req = ((Err e, sv), s) \<and> err_code e = Some Unimplemented"
    by (simp add: sv new_server_def execute_def admit_def)
qed (simp_all add: microvm_config_def connectors_read_back [OF assms(2,3)] connectors_default [OF assms(1)])

text \<open>
  C10.  End to end: a server started from its flags over a farm never answers "not found" for a blob
  its own results refer to.  Whatever the platform, the MicroVMs, the processes and the faults did,
  and however much of whichever agent's answer arrived, every digest in a result of its runner is in its
  store, under the bucket and prefix the flags give, and what \<^verbatim>\<open>Get\<close> returns for it is what is
  stored.  Bucket and prefix reach the agent as JSON and so have to be UTF-8.
\<close>

theorem server_results_served:
  assumes "json_sound (ag_json env)" and "codec_sound (ag_codec env)" and "utf8 (fl_bucket fl)" and "utf8 (fl_prefix fl)"
    and "run_server load farm_s3 (farm_client pf (with_bucket env) n img) (ag_codec env) (ag_json env) fl = Inr sv"
    and "sv_exec sv = Some run" and "run w command root timeout = (Ok ar, w')"
    and "d \<in> set (ar_digests ar)" and "good_digest d" and "st_get (sv_store sv) w' d = (rg, w'')"
  shows "\<not> not_found rg \<and> rg \<noteq> Panic \<and>
    (\<exists>b. lookup_blob (s3_view farm_objs \<lparr>s3_bucket_name = fl_bucket fl, s3_prefix = fl_prefix fl\<rparr> w') d = Some b \<and>
      (\<forall>x. rg = Ok x \<longrightarrow> x = b))"
proof -
  let ?cfg = "\<lparr>s3_bucket_name = fl_bucket fl, s3_prefix = fl_prefix fl\<rparr>"
  obtain region where sv: "sv_store sv = s3_ops farm_s3 ?cfg (ag_codec env)"
    and run: "run = runner_of (ag_codec env) (ag_json env) (farm_executor pf env n img (microvm_config fl region))"
    using assms(5,6) by (auto simp: run_server_cases new_server_def server_store_def farm_executor_def split: if_splits)
  have ran: "executor_run (ag_codec env) (ag_json env) (farm_executor pf env n img (microvm_config fl region)) w command root timeout =
      Some (Ok ar, w')"
    using farm_executor_returns assms(7) by (auto simp: run runner_of_def) (metis option.sel)
  have "utf8 (mc_bucket (microvm_config fl region))" "utf8 (mc_prefix (microvm_config fl region))"
    using assms(3,4) by (simp_all add: microvm_config_def)
  from farm_digests_stored [OF assms(1,2) this ran assms(8)]
  have "lookup_blob (s3_view farm_objs ?cfg w') d \<noteq> None" by (simp add: server_cfg_def microvm_config_def)
  moreover from farm_bucket.s3_blobs.get_law [OF TrueI assms(9) assms(10) [unfolded sv]]
  have "rg \<noteq> Panic" "\<forall>x. rg = Ok x \<longrightarrow> lookup_blob (s3_view farm_objs ?cfg w') d = Some x"
    "not_found rg \<longrightarrow> lookup_blob (s3_view farm_objs ?cfg w') d = None"
    by simp_all
  ultimately show ?thesis by auto
qed

subsection \<open>The farm of the demonstration, started from its flags\<close>

definition demo_flags :: flags where
  "demo_flags = default_flags\<lparr>fl_bucket := ''farm'', fl_prefix := ''p'', fl_image := ''img'',
     fl_ingress := '','', fl_egress := '','', fl_max_duration := 0, fl_agent_port := 0\<rparr>"

definition demo_load :: "string option \<Rightarrow> err + string" where
  "demo_load asked = Inr (case asked of None \<Rightarrow> ''us-east-1'' | Some r \<Rightarrow> r)"

lemma demo_microvm_config: "microvm_config demo_flags ''us-east-1'' = farm_config"
  by (simp add: microvm_config_def demo_flags_def default_flags_def farm_config_def connectors_def trim_space_def)

definition farm_server :: "farm server" where
  "farm_server = new_server (s3_ops farm_s3 \<lparr>s3_bucket_name = ''farm'', s3_prefix = ''p''\<rparr> agent_codec)
     (Some (runner_of agent_codec demo_json demo_executor)) ''''"

lemma demo_start: "run_server demo_load farm_s3 demo_client agent_codec demo_json demo_flags = Inr farm_server"
proof -
  have "fl_bucket demo_flags = ''farm''" "fl_prefix demo_flags = ''p''" "fl_image demo_flags = ''img''"
    "fl_instance demo_flags = ''''" "demo_load (asked_region demo_flags) = Inr ''us-east-1''"
    by (simp_all add: demo_flags_def default_flags_def demo_load_def asked_region_def)
  then show ?thesis
    unfolding run_server_cases
    by (auto simp: demo_microvm_config farm_server_def server_store_def demo_executor_def)
qed

theorem server_start_witness:
  "execution_enabled farm_server \<and>
    mc_ingress (microvm_config (demo_flags\<lparr>fl_ingress := ''c-1,c-2''\<rparr>) ''us-east-1'') = [''c-1'', ''c-2'']"
proof -
  have items: "plain_item ''us-east-1''" "[''c-1'', ''c-2''] \<noteq> []" "list_all plain_item [''c-1'', ''c-2'']"
    by (simp_all add: plain_item_def is_space_def)
  have image: "fl_image demo_flags \<noteq> ''''" by (simp add: demo_flags_def)
  have join: "join_with CHR '','' [''c-1'', ''c-2''] = ''c-1,c-2''" by simp
  from server_start [OF items, of demo_load farm_s3 demo_client agent_codec demo_json demo_flags, unfolded join]
  show ?thesis using demo_start image by metis
qed

theorem server_results_served_witness:
  "lookup_blob (s3_view farm_objs \<lparr>s3_bucket_name = ''farm'', s3_prefix = ''p''\<rparr> done_farm) (Some zero_digest) \<noteq> None"
proof -
  have start: "run_server demo_load farm_s3 (farm_client calm (with_bucket (demo_agent demo_json)) 1 agent_host)
      (ag_codec (demo_agent demo_json)) (ag_json (demo_agent demo_json)) demo_flags = Inr farm_server"
    using demo_start by (simp add: demo_client_def)
  have sound: "json_sound (ag_json (demo_agent demo_json))" "codec_sound (ag_codec (demo_agent demo_json))"
    by (simp_all add: demo_json_sound demo_codec_sound)
  have exec: "sv_exec farm_server = Some (runner_of agent_codec demo_json demo_executor)"
    by (simp add: farm_server_def new_server_def)
  have run: "runner_of agent_codec demo_json demo_executor idle_farm agent_command (Some empty_digest) 1000000000 =
      (Ok agent_result, done_farm)"
    using demo_executor_run by (simp add: runner_of_def)
  have digest: "Some zero_digest \<in> set (ar_digests agent_result)"
    by (simp add: ar_digests_def agent_result_def)
  have good: "good_digest (Some zero_digest)"
    unfolding from_bytes_zero [symmetric] by (simp add: good_digest_def valid_hash_plain valid_hash_sha256)
  obtain rg w where get: "st_get (sv_store farm_server) done_farm (Some zero_digest) = (rg, w)" by fastforce
  have flags: "fl_bucket demo_flags = ''farm''" "fl_prefix demo_flags = ''p''"
    by (simp_all add: demo_flags_def)
  have utf8: "utf8 (fl_bucket demo_flags)" "utf8 (fl_prefix demo_flags)"
    by (rule ascii_utf8; simp add: flags)+
  from server_results_served [OF sound utf8 start exec run digest good get] show ?thesis by (auto simp: flags)
qed

end
