(* ===== verification/Goroutine.thy ===== *)
theory Goroutine
  imports Execution
begin

text \<open>
  The goroutine of an action (\<^verbatim>\<open>runAction\<close>), one access to shared state at a time: a call of the store, a
  call of the runner, or the publication of an update.  Run alone, the steps are the function
  \<open>run_action\<close>; theory \<open>Concurrent\<close> interleaves them with everything else the server does.
\<close>

subsection \<open>The steps\<close>

datatype go_pc =
    Publish operation go_pc
  | Check
  | Fetch
  | Run command
  | Put action_result
  | Ended

definition result_op :: "string \<Rightarrow> digest_ptr \<Rightarrow> action_result \<Rightarrow> bool \<Rightarrow> operation" where
  "result_op name d ar cached =
     completed name d \<lparr>er_result = Some ar, er_cached = cached, er_status = status_proto OK empty_message\<rparr>"

definition go_start :: "string \<Rightarrow> execute_request \<Rightarrow> action \<Rightarrow> go_pc" where
  "go_start name req a =
     Publish (operation_msg name (xr_action_digest req) CacheCheck None)
       (if \<not> xr_skip_cache req \<and> \<not> a_do_not_cache a then Check else Fetch)"

text \<open>A call of the store; \<open>None\<close> is a panic in it.  The other steps are no calls of the store.\<close>

fun go_call ::
    "codec \<Rightarrow> 's store \<Rightarrow> string \<Rightarrow> digest_ptr \<Rightarrow> action \<Rightarrow> go_pc \<Rightarrow> 's \<Rightarrow> go_pc option \<times> 's" where
  "go_call pb st name d a Check s =
     (case st_get_ar st s d of
        (Ok ar, s') \<Rightarrow> (Some (Publish (result_op name d ar True) Ended), s')
      | (Err e, s') \<Rightarrow> (Some Fetch, s')
      | (Panic, s') \<Rightarrow> (None, s'))"
| "go_call pb st name d a Fetch s =
     (case st_get st s (a_command_digest a) of
        (Err e, s') \<Rightarrow>
          (Some (Publish (failed name d FailedPrecondition
             (Wrapf ''command %s not found: %v'' [key (a_command_digest a)] e)) Ended), s')
      | (Panic, s') \<Rightarrow> (None, s')
      | (Ok data, s') \<Rightarrow>
          (case unmarshal_cmd pb data of
             Inl e \<Rightarrow>
               (Some (Publish (failed name d Internal (Wrapf ''unmarshal command: %v'' [] (Ext e))) Ended), s')
           | Inr cmd \<Rightarrow> (Some (Publish (operation_msg name d Executing None) (Run cmd)), s')))"
| "go_call pb st name d a (Put ar) s =
     (case st_put_ar st s d ar of
        (Panic, s') \<Rightarrow> (None, s')
      | (_, s') \<Rightarrow> (Some (Publish (result_op name d ar False) Ended), s'))"
| "go_call pb st name d a pc s = (Some pc, s)"

text \<open>The answer of the runner.\<close>

definition go_ran :: "string \<Rightarrow> digest_ptr \<Rightarrow> action \<Rightarrow> action_result res \<Rightarrow> go_pc option" where
  "go_ran name d a r =
     (case r of
        Err e \<Rightarrow> Some (Publish (failed name d (if error_is e CtxCanceled then Canceled else Internal) e) Ended)
      | Panic \<Rightarrow> None
      | Ok ar \<Rightarrow>
          Some (if \<not> a_do_not_cache a \<and> ar_exit_code ar = 0 then Put ar
                else Publish (result_op name d ar False) Ended))"

text \<open>At most so many steps are left.\<close>

primrec go_rank :: "go_pc \<Rightarrow> nat" where
  "go_rank (Publish op k) = Suc (go_rank k)"
| "go_rank Check = 6"
| "go_rank Fetch = 5"
| "go_rank (Run cmd) = 3"
| "go_rank (Put ar) = 2"
| "go_rank Ended = 0"

lemma go_start_rank: "go_rank (go_start name req a) \<le> 7"
  by (simp add: go_start_def)

subsection \<open>A goroutine on its own\<close>

fun go_solo ::
    "nat \<Rightarrow> codec \<Rightarrow> 's store \<Rightarrow> 's runner \<Rightarrow> string \<Rightarrow> digest_ptr \<Rightarrow> action \<Rightarrow> go_pc \<Rightarrow> 's \<Rightarrow> 's activity" where
  "go_solo 0 pb st run name d a pc s = ((Ok (), []), s)"
| "go_solo (Suc n) pb st run name d a pc s =
     (case pc of
        Ended \<Rightarrow> ((Ok (), []), s)
      | Publish op k \<Rightarrow> (case go_solo n pb st run name d a k s of ((r, ops), s') \<Rightarrow> ((r, op # ops), s'))
      | Run cmd \<Rightarrow>
          (case run s cmd (a_input_root a) (action_timeout a) of
             (r, s') \<Rightarrow>
               (case go_ran name d a r of
                  None \<Rightarrow> ((Panic, []), s')
                | Some k \<Rightarrow> go_solo n pb st run name d a k s'))
      | _ \<Rightarrow>
          (case go_call pb st name d a pc s of
             (None, s') \<Rightarrow> ((Panic, []), s')
           | (Some k, s') \<Rightarrow> go_solo n pb st run name d a k s'))"

lemma solo_end:
  "go_solo (Suc n) pb st run name d a (Publish op Ended) s = ((Ok (), [op]), s)"
  by (cases n) simp_all

lemma solo_put:
  "go_solo (Suc (Suc n)) pb st run name d a (Put ar) s =
    (case st_put_ar st s d ar of (Panic, s') \<Rightarrow> ((Panic, []), s') | (_, s') \<Rightarrow> ((Ok (), [result_op name d ar False]), s'))"
  unfolding go_solo.simps(2) [where pc = "Put ar"] go_pc.case
  by (simp add: solo_end del: go_solo.simps split: prod.split res.split)

lemma solo_run:
  "go_solo (Suc (Suc (Suc n))) pb st run name d a (Run cmd) s = run_command st run s name d a cmd"
proof -
  obtain r s1 where r: "run s cmd (a_input_root a) (action_timeout a) = (r, s1)" by fastforce
  show ?thesis
  proof (cases r)
    case (Ok ar)
    show ?thesis
    proof (cases "\<not> a_do_not_cache a \<and> ar_exit_code ar = 0")
      case True
      with Ok r show ?thesis
        unfolding go_solo.simps(2) [where pc = "Run cmd"] go_pc.case
        by (simp add: go_ran_def solo_put run_command_def finish_action_def result_op_def Let_def del: go_solo.simps
            split: prod.split res.split)
    next
      case False
      with Ok r show ?thesis
        by (auto simp: go_ran_def run_command_def finish_action_def result_op_def Let_def)
    qed
  qed (simp_all add: r go_ran_def run_command_def)
qed

lemma solo_fetch:
  "go_solo (Suc (Suc (Suc (Suc (Suc n))))) pb st run name d a Fetch s = run_uncached pb st run s name d a"
proof -
  have exec: "go_solo (Suc (Suc (Suc (Suc n)))) pb st run name d a (Publish op (Run cmd)) s1 =
      (case run_command st run s1 name d a cmd of ((r, ops), s') \<Rightarrow> ((r, op # ops), s'))" for op cmd s1
    unfolding go_solo.simps(2) [where pc = "Publish op (Run cmd)"] go_pc.case solo_run ..
  show ?thesis
    unfolding go_solo.simps(2) [where pc = Fetch] go_pc.case
    by (simp add: run_uncached_def exec solo_end del: go_solo.simps split: prod.split res.split sum.split)
qed

text \<open>
  Run without interruption, the steps of a goroutine are \<open>run_action\<close>; seven steps are always enough.
\<close>

lemma solo_run_action:
  "go_solo 7 pb st run name (xr_action_digest req) a (go_start name req a) s = run_action pb st run s name req a"
proof -
  let ?d = "xr_action_digest req"
  have seven: "7 = Suc (Suc (Suc (Suc (Suc (Suc (Suc 0))))))" by simp
  have check: "go_solo (Suc (Suc (Suc (Suc (Suc (Suc 0)))))) pb st run name ?d a Check s =
      (case st_get_ar st s ?d of
         (Ok ar, s') \<Rightarrow> ((Ok (), [result_op name ?d ar True]), s')
       | (Panic, s') \<Rightarrow> ((Panic, []), s')
       | (Err e, s') \<Rightarrow> run_uncached pb st run s' name ?d a)"
    unfolding go_solo.simps(2) [where pc = Check] go_pc.case
    by (simp add: solo_fetch solo_end del: go_solo.simps split: prod.split res.split)
  show ?thesis
    unfolding seven go_start_def go_solo.simps(2) [where pc = "Publish op k" for op k] go_pc.case
    by (simp add: check solo_fetch run_action_def result_op_def Let_def del: go_solo.simps split: prod.split res.split)
qed

end
