(* ===== verification/FindMissing.thy ===== *)
theory FindMissing
  imports CasService "HOL-Library.Sublist"
begin

text \<open>
  \<^verbatim>\<open>FindMissingBlobs\<close> of \<^verbatim>\<open>internal/server/cas_service.go\<close>.  The handler starts a goroutine per
  digest, 32 at most at a time, so it is a step relation on the loop counter, the running
  goroutines, the shared slice and the first error, in which other requests may change the store.
\<close>

subsection \<open>The machine\<close>

text \<open>
  One goroutine per digest: it has been started and holds a slot of the semaphore, or its
  \<^verbatim>\<open>Contains\<close> call has been answered and it is about to use the answer, after which it
  releases its slot.
\<close>

datatype fm_phase = Started | Answered "bool res"

record 's fm_state =
  fm_next :: nat
  fm_running :: "nat \<rightharpoonup> fm_phase"
  fm_missing :: "digest_ptr list"
  fm_first_err :: "err option"
  fm_store :: 's

definition fm_concurrency :: nat where
  "fm_concurrency = 32"

definition fm_init :: "digest_ptr list \<Rightarrow> 's \<Rightarrow> 's fm_state" where
  "fm_init ds s =
     \<lparr>fm_next = 0, fm_running = Map.empty, fm_missing = replicate (length ds) None,
      fm_first_err = None, fm_store = s\<rparr>"

text \<open>
  The steps: the loop starts the next goroutine when the semaphore has a free slot; a goroutine
  makes its call; a goroutine records an error (the first one is kept) or a missing digest and
  ends; other requests change the store, as the relation \<open>env\<close> allows.  An answer that panics
  ends the process, so it has no step.
\<close>

inductive fm_step ::
    "'s store \<Rightarrow> ('s \<Rightarrow> 's \<Rightarrow> bool) \<Rightarrow> digest_ptr list \<Rightarrow> 's fm_state \<Rightarrow> 's fm_state \<Rightarrow> bool"
  for st :: "'s store" and env :: "'s \<Rightarrow> 's \<Rightarrow> bool" and ds :: "digest_ptr list" where
  fm_spawn: "fm_next c < length ds \<Longrightarrow> card (dom (fm_running c)) < fm_concurrency \<Longrightarrow>
    fm_step st env ds c
      (c\<lparr>fm_next := Suc (fm_next c), fm_running := (fm_running c)(fm_next c \<mapsto> Started)\<rparr>)"
| fm_call: "fm_running c i = Some Started \<Longrightarrow> st_contains st (fm_store c) (ds ! i) = (r, s') \<Longrightarrow>
    fm_step st env ds c
      (c\<lparr>fm_running := (fm_running c)(i \<mapsto> Answered r), fm_store := s'\<rparr>)"
| fm_error: "fm_running c i = Some (Answered (Err e)) \<Longrightarrow>
    fm_step st env ds c
      (c\<lparr>fm_running := (fm_running c)(i := None),
         fm_first_err := (case fm_first_err c of None \<Rightarrow> Some e | Some e' \<Rightarrow> Some e')\<rparr>)"
| fm_record: "fm_running c i = Some (Answered (Ok b)) \<Longrightarrow>
    fm_step st env ds c
      (c\<lparr>fm_running := (fm_running c)(i := None),
         fm_missing := (if b then fm_missing c else (fm_missing c)[i := ds ! i])\<rparr>)"
| fm_env: "env (fm_store c) s' \<Longrightarrow> fm_step st env ds c (c\<lparr>fm_store := s'\<rparr>)"

text \<open>\<^verbatim>\<open>wg.Wait\<close> returns when every goroutine was started and has ended.\<close>

definition fm_final :: "digest_ptr list \<Rightarrow> 's fm_state \<Rightarrow> bool" where
  "fm_final ds c \<longleftrightarrow> fm_next c = length ds \<and> fm_running c = Map.empty"

definition fm_response :: "'s fm_state \<Rightarrow> digest_ptr list res" where
  "fm_response c =
     (case fm_first_err c of
        Some e \<Rightarrow> Err (StatusErr Internal ''find missing blobs: %v'' [] (Some e))
      | None \<Rightarrow> Ok (filter (\<lambda>d. d \<noteq> None) (fm_missing c)))"

inductive fm_reach ::
    "'s store \<Rightarrow> ('s \<Rightarrow> 's \<Rightarrow> bool) \<Rightarrow> digest_ptr list \<Rightarrow> 's \<Rightarrow> 's fm_state \<Rightarrow> bool"
  for st :: "'s store" and env :: "'s \<Rightarrow> 's \<Rightarrow> bool" and ds :: "digest_ptr list" and s :: 's where
  fm_start: "fm_reach st env ds s (fm_init ds s)"
| fm_next: "fm_reach st env ds s c \<Longrightarrow> fm_step st env ds c c' \<Longrightarrow> fm_reach st env ds s c'"

subsection \<open>Bounded concurrency\<close>

lemma fm_shape:
  "fm_reach st env ds s c \<Longrightarrow>
    length (fm_missing c) = length ds \<and> fm_next c \<le> length ds \<and>
    dom (fm_running c) \<subseteq> {..<fm_next c} \<and> card (dom (fm_running c)) \<le> fm_concurrency"
proof (induction rule: fm_reach.induct)
  case fm_start
  then show ?case by (simp add: fm_init_def)
next
  case (fm_next c c')
  have fin: "finite (dom (fm_running c))"
    using fm_next.IH finite_subset by blast
  have less: "card (dom (fm_running c) - {i}) \<le> card (dom (fm_running c))" for i
    using fin by (simp add: card_mono)
  from fm_next.hyps(2) show ?case
  proof (cases rule: fm_step.cases)
    case fm_spawn
    have "fm_next c \<notin> dom (fm_running c)" using fm_next.IH by auto
    then have "card (insert (fm_next c) (dom (fm_running c))) = Suc (card (dom (fm_running c)))"
      using fin by simp
    moreover have "insert (fm_next c) (dom (fm_running c)) \<subseteq> {..<Suc (fm_next c)}"
      using fm_next.IH by auto
    ultimately show ?thesis using fm_spawn fm_next.IH by (simp del: fun_upd_apply)
  next
    case (fm_call i r s')
    then have "insert i (dom (fm_running c)) = dom (fm_running c)" by auto
    with fm_call fm_next.IH show ?thesis by (simp del: fun_upd_apply)
  next
    case (fm_error i e)
    then show ?thesis using fm_next.IH less [of i] by (auto simp del: fun_upd_apply)
  next
    case (fm_record i b)
    then show ?thesis using fm_next.IH less [of i] by (auto simp del: fun_upd_apply)
  next
    case (fm_env s')
    then show ?thesis using fm_next.IH by simp
  qed
qed

subsection \<open>Progress\<close>

text \<open>A state that is not final lets the loop or a goroutine move, so the handler is never stuck.\<close>

lemma fm_not_stuck:
  assumes "fm_reach st env ds s c" "\<not> fm_final ds c"
    and "\<forall>i. fm_running c i \<noteq> Some (Answered Panic)"
  shows "\<exists>c'. fm_step st env' ds c c'"
proof (cases "fm_running c = Map.empty")
  case True
  then have "fm_next c < length ds" "card (dom (fm_running c)) < fm_concurrency"
    using assms fm_shape [OF assms(1)] by (auto simp: fm_final_def fm_concurrency_def)
  then show ?thesis using fm_spawn by blast
next
  case False
  then obtain i p where i: "fm_running c i = Some p" by (auto simp: fun_eq_iff)
  show ?thesis
  proof (cases p)
    case Started
    then show ?thesis using fm_call i by (metis surj_pair)
  next
    case (Answered r)
    then show ?thesis using fm_record fm_error i assms(3) by (cases r) blast+
  qed
qed

text \<open>What is left to do: three steps for a digest not started, two and one for a goroutine.\<close>

definition fm_left :: "nat set \<Rightarrow> (nat \<rightharpoonup> fm_phase) \<Rightarrow> nat" where
  "fm_left I m = (\<Sum>i \<in> I. case m i of None \<Rightarrow> 0 | Some Started \<Rightarrow> 2 | Some (Answered r) \<Rightarrow> 1)"

definition fm_measure :: "digest_ptr list \<Rightarrow> 's fm_state \<Rightarrow> nat" where
  "fm_measure ds c = 3 * (length ds - fm_next c) + fm_left {..<length ds} (fm_running c)"

lemma fm_left_upd:
  "finite I \<Longrightarrow> i \<in> I \<Longrightarrow> fm_left I (m(i := p)) + (case m i of None \<Rightarrow> 0 | Some Started \<Rightarrow> 2 | Some (Answered r) \<Rightarrow> 1)
    = fm_left I m + (case p of None \<Rightarrow> 0 | Some Started \<Rightarrow> 2 | Some (Answered r) \<Rightarrow> 1)"
  by (simp add: fm_left_def sum.remove [of I i])

lemma fm_measure_step:
  assumes "fm_reach st env ds s c" "fm_step st env' ds c c'"
  shows "Suc (fm_measure ds c') = fm_measure ds c \<or>
    (\<exists>s'. env' (fm_store c) s' \<and> c' = c\<lparr>fm_store := s'\<rparr>)"
proof -
  note shape = fm_shape [OF assms(1)]
  have run: "i < length ds" if "fm_running c i \<noteq> None" for i
    using that shape by (meson domIff lessThan_iff less_le_trans subsetD)
  from assms(2) show ?thesis
  proof (cases rule: fm_step.cases)
    case fm_spawn
    then have "fm_running c (fm_next c) = None" using shape by (auto simp: domIff)
    then show ?thesis
      using fm_spawn Suc_diff_Suc [of "fm_next c" "length ds"]
        fm_left_upd [of "{..<length ds}" "fm_next c" "fm_running c" "Some Started"]
      by (simp add: fm_measure_def del: fun_upd_apply)
  next
    case (fm_call i r s')
    then show ?thesis
      using fm_left_upd [of "{..<length ds}" i "fm_running c" "Some (Answered r)"] run [of i]
      by (simp add: fm_measure_def)
  next
    case (fm_error i e)
    then show ?thesis
      using fm_left_upd [of "{..<length ds}" i "fm_running c" None] run [of i]
      by (simp add: fm_measure_def)
  next
    case (fm_record i b)
    then show ?thesis
      using fm_left_upd [of "{..<length ds}" i "fm_running c" None] run [of i]
      by (simp add: fm_measure_def)
  next
    case (fm_env s')
    then show ?thesis by blast
  qed
qed

subsection \<open>The answer is correct under every schedule\<close>

text \<open>\<open>blobs_le v v'\<close>: no blob of \<open>v\<close> has been removed in \<open>v'\<close>.\<close>

definition blobs_le :: "view \<Rightarrow> view \<Rightarrow> bool" where
  "blobs_le v v' \<longleftrightarrow> (\<forall>h. v_blobs v h \<noteq> None \<longrightarrow> v_blobs v' h \<noteq> None)"

lemma blobs_le_refl [simp]: "blobs_le v v"
  by (simp add: blobs_le_def)

lemma blobs_le_trans: "blobs_le u v \<Longrightarrow> blobs_le v w \<Longrightarrow> blobs_le u w"
  by (auto simp: blobs_le_def)

lemma lookup_le: "blobs_le v v' \<Longrightarrow> lookup_blob v d \<noteq> None \<Longrightarrow> lookup_blob v' d \<noteq> None"
  by (auto simp: blobs_le_def lookup_blob_def split: if_splits)

definition fm_ok :: "digest_ptr list \<Rightarrow> view \<Rightarrow> view \<Rightarrow> 's fm_state \<Rightarrow> bool" where
  "fm_ok ds v0 v c \<longleftrightarrow>
     blobs_le v0 v \<and>
     (\<forall>i < length ds. fm_missing c ! i \<noteq> None \<longrightarrow>
        fm_missing c ! i = ds ! i \<and> lookup_blob v0 (ds ! i) = None) \<and>
     (\<forall>i. fm_running c i = Some (Answered (Ok True)) \<longrightarrow> lookup_blob v (ds ! i) \<noteq> None) \<and>
     (\<forall>i. fm_running c i = Some (Answered (Ok False)) \<longrightarrow> lookup_blob v0 (ds ! i) = None) \<and>
     (\<forall>i. fm_running c i \<noteq> Some (Answered Panic)) \<and>
     (\<forall>i < fm_next c. fm_running c i = None \<longrightarrow> fm_first_err c = None \<longrightarrow> fm_missing c ! i = None \<longrightarrow>
        ds ! i = None \<or> lookup_blob v (ds ! i) \<noteq> None)"

lemma fm_ok_view:
  assumes "fm_ok ds v0 v c" "blobs_le v v'"
  shows "fm_ok ds v0 v' (c\<lparr>fm_store := s'\<rparr>)"
proof -
  have same: "fm_missing (c\<lparr>fm_store := s'\<rparr>) = fm_missing c" "fm_next (c\<lparr>fm_store := s'\<rparr>) = fm_next c"
    "fm_running (c\<lparr>fm_store := s'\<rparr>) = fm_running c"
    "fm_first_err (c\<lparr>fm_store := s'\<rparr>) = fm_first_err c"
    by simp_all
  show ?thesis
    using assms(1) lookup_le [OF assms(2)] blobs_le_trans [OF _ assms(2)]
    unfolding fm_ok_def same by blast
qed

lemma fm_ok_spawn:
  "fm_ok ds v0 v c \<Longrightarrow>
    fm_ok ds v0 v (c\<lparr>fm_next := Suc (fm_next c), fm_running := (fm_running c)(fm_next c \<mapsto> Started)\<rparr>)"
  by (auto simp: fm_ok_def less_Suc_eq)

lemma fm_ok_answer:
  assumes "fm_ok ds v0 v c" "r \<noteq> Panic"
    and "\<And>b. r = Ok b \<Longrightarrow> b = (lookup_blob v (ds ! i) \<noteq> None)"
  shows "fm_ok ds v0 v (c\<lparr>fm_running := (fm_running c)(i \<mapsto> Answered r)\<rparr>)"
proof -
  have "lookup_blob v0 (ds ! i) = None" if "lookup_blob v (ds ! i) = None"
    using that assms(1) lookup_le unfolding fm_ok_def by blast
  then show ?thesis using assms by (auto simp: fm_ok_def)
qed

lemma fm_ok_error:
  assumes "fm_ok ds v0 v c"
  shows "fm_ok ds v0 v (c\<lparr>fm_running := (fm_running c)(i := None),
    fm_first_err := (case fm_first_err c of None \<Rightarrow> Some e | Some e' \<Rightarrow> Some e')\<rparr>)"
  using assms by (auto simp: fm_ok_def split: option.splits)

lemma fm_ok_record:
  assumes "fm_ok ds v0 v c" "fm_running c i = Some (Answered (Ok b))"
    and "length (fm_missing c) = length ds" "i < length ds"
  shows "fm_ok ds v0 v (c\<lparr>fm_running := (fm_running c)(i := None),
    fm_missing := (if b then fm_missing c else (fm_missing c)[i := ds ! i])\<rparr>)"
  using assms by (cases b) (auto simp: fm_ok_def nth_list_update)

context blob_store
begin

lemma fm_reach_ok:
  assumes "fm_reach st env ds s c" and "inv s" and "\<forall>d \<in> set ds. okd d"
    and env: "\<And>s s'. inv s \<Longrightarrow> env s s' \<Longrightarrow> inv s' \<and> blobs_le (vw s) (vw s')"
  shows "inv (fm_store c) \<and> fm_ok ds (vw s) (vw (fm_store c)) c"
  using assms(1)
proof (induction rule: fm_reach.induct)
  case fm_start
  then show ?case using assms(2) by (auto simp: fm_init_def fm_ok_def)
next
  case (fm_next c c')
  note shape = fm_shape [OF fm_next.hyps(1)]
  have run: "i < length ds" if "fm_running c i = Some p" for i p
    using that shape by (meson domI lessThan_iff less_le_trans subsetD)
  from fm_next.hyps(2) show ?case
  proof (cases rule: fm_step.cases)
    case fm_spawn
    then show ?thesis using fm_next.IH fm_ok_spawn by auto
  next
    case (fm_call i r s')
    then have "okd (ds ! i)" using run assms(3) by simp
    then have law: "inv s'" "vw s' = vw (fm_store c)" "r \<noteq> Panic"
      "\<And>b. r = Ok b \<Longrightarrow> b = (lookup_blob (vw (fm_store c)) (ds ! i) \<noteq> None)"
      using contains_law [OF _ _ fm_call(3)] fm_next.IH by blast+
    have "fm_ok ds (vw s) (vw (fm_store c)) (c\<lparr>fm_running := (fm_running c)(i \<mapsto> Answered r)\<rparr>)"
      using fm_ok_answer [OF _ law(3,4)] fm_next.IH by blast
    from fm_ok_view [OF this blobs_le_refl] show ?thesis
      using fm_call law by simp
  next
    case (fm_error i e)
    then show ?thesis using fm_next.IH fm_ok_error by auto
  next
    case (fm_record i b)
    then show ?thesis
      using fm_next.IH shape run [OF fm_record(2)] fm_ok_record [OF _ fm_record(2)] by auto
  next
    case (fm_env s')
    then show ?thesis
      using fm_next.IH env [of "fm_store c" s'] fm_ok_view [of ds "vw s" "vw (fm_store c)" c "vw s'" s']
      by auto
  qed
qed

lemma fm_reach_quiet:
  assumes "fm_reach st (\<lambda>_ _. False) ds s c" and "inv s" and "\<forall>d \<in> set ds. okd d"
  shows "inv (fm_store c) \<and> vw (fm_store c) = vw s"
  using assms(1)
proof (induction rule: fm_reach.induct)
  case fm_start
  then show ?case using assms(2) by (simp add: fm_init_def)
next
  case (fm_next c c')
  note shape = fm_shape [OF fm_next.hyps(1)]
  from fm_next.hyps(2) show ?case
  proof (cases rule: fm_step.cases)
    case (fm_call i r s')
    then have "i < length ds" using shape by (meson domI lessThan_iff less_le_trans subsetD)
    then have "okd (ds ! i)" using assms(3) by simp
    then show ?thesis using contains_law [OF _ _ fm_call(3)] fm_next.IH fm_call(1) by auto
  qed (use fm_next.IH in auto)
qed

end

context reliable_store
begin

lemma fm_no_error:
  assumes "fm_reach st env ds s c" and "inv s" and "\<forall>d \<in> set ds. okd d"
    and env: "\<And>s s'. inv s \<Longrightarrow> env s s' \<Longrightarrow> inv s' \<and> blobs_le (vw s) (vw s')"
  shows "fm_first_err c = None \<and> (\<forall>i e. fm_running c i \<noteq> Some (Answered (Err e)))"
  using assms(1)
proof (induction rule: fm_reach.induct)
  case fm_start
  then show ?case by (simp add: fm_init_def)
next
  case (fm_next c c')
  note shape = fm_shape [OF fm_next.hyps(1)]
  from fm_next.hyps(2) show ?case
  proof (cases rule: fm_step.cases)
    case (fm_call i r s')
    then have "i < length ds" using shape by (meson domI lessThan_iff less_le_trans subsetD)
    then have "okd (ds ! i)" using assms(3) by simp
    then have "is_ok r"
      using contains_total [of "fm_store c" "ds ! i"] fm_call(3)
        fm_reach_ok [OF fm_next.hyps(1) assms(2,3) env] by simp
    then show ?thesis using fm_next.IH fm_call(1) by auto
  qed (use fm_next.IH in auto)
qed

end

lemma filter_masked:
  "(\<And>d. P d \<Longrightarrow> d \<noteq> None) \<Longrightarrow>
    filter (\<lambda>d. d \<noteq> None) (map (\<lambda>d. if P d then d else None) ds) = filter P ds"
  by (induction ds) auto

lemma subseq_masked:
  "length ms = length ds \<Longrightarrow> (\<And>i. i < length ds \<Longrightarrow> ms ! i \<noteq> None \<Longrightarrow> ms ! i = ds ! i) \<Longrightarrow>
    subseq (filter (\<lambda>d. d \<noteq> None) ms) ds"
proof (induction ms ds rule: list_induct2)
  case (Cons m ms d ds)
  have "subseq (filter (\<lambda>d. d \<noteq> None) ms) ds"
  proof (rule Cons.IH)
    show "ms ! i = ds ! i" if "i < length ds" "ms ! i \<noteq> None" for i
      using Cons.prems [of "Suc i"] that by simp
  qed
  moreover have "m \<noteq> None \<Longrightarrow> m = d" using Cons.prems [of 0] by simp
  ultimately show ?case by auto
qed simp

subsection \<open>Properties\<close>

lemma fm_final_ok:
  assumes "fm_ok ds v0 v c" "fm_final ds c" "fm_first_err c = None" "i < length ds"
  shows "fm_missing c ! i = None \<longrightarrow> ds ! i = None \<or> lookup_blob v (ds ! i) \<noteq> None"
    and "fm_missing c ! i \<noteq> None \<longrightarrow> fm_missing c ! i = ds ! i \<and> lookup_blob v0 (ds ! i) = None"
  using assms unfolding fm_ok_def fm_final_def by auto

lemma fm_response_ok:
  "fm_response c = Ok ms \<longleftrightarrow> fm_first_err c = None \<and> ms = filter (\<lambda>d. d \<noteq> None) (fm_missing c)"
  by (auto simp: fm_response_def split: option.splits)

context blob_store
begin

lemma fm_quiet_answer:
  assumes "inv s" "\<forall>d \<in> set ds. okd d"
    and "fm_reach st (\<lambda>_ _. False) ds s c" "fm_final ds c" "fm_response c = Ok ms"
  shows "ms = filter (\<lambda>d. d \<noteq> None \<and> lookup_blob (vw s) d = None) ds"
proof -
  have ok: "fm_ok ds (vw s) (vw s) c"
    using fm_reach_ok [OF assms(3,1,2)] fm_reach_quiet [OF assms(3,1,2)]
    by auto
  have err: "fm_first_err c = None" and ms: "ms = filter (\<lambda>d. d \<noteq> None) (fm_missing c)"
    using assms(5) by (simp_all add: fm_response_ok)
  note at = fm_final_ok [OF ok assms(4) err]
  have "fm_missing c = map (\<lambda>d. if d \<noteq> None \<and> lookup_blob (vw s) d = None then d else None) ds"
  proof (rule nth_equalityI)
    show "length (fm_missing c) =
      length (map (\<lambda>d. if d \<noteq> None \<and> lookup_blob (vw s) d = None then d else None) ds)"
      using fm_shape [OF assms(3)] by simp
    show "fm_missing c ! i =
      map (\<lambda>d. if d \<noteq> None \<and> lookup_blob (vw s) d = None then d else None) ds ! i"
      if "i < length (fm_missing c)" for i
      using that at [of i] fm_shape [OF assms(3)] by (cases "fm_missing c ! i") auto
  qed
  then show ?thesis unfolding ms by (simp only:) (rule filter_masked, blast)
qed

end

text \<open>
  C1.  \<^verbatim>\<open>FindMissingBlobs\<close> under every interleaving of its goroutines and of requests that only
  add blobs, over any store that meets the contract: the answer lists requested digests in
  request order, every one of them absent when the call began, and every requested digest it
  leaves out is present when the call ends.
\<close>

theorem find_missing_sound:
  assumes "blob_store st pb si okd vw" and "si s" and "\<forall>d \<in> set ds. okd d"
    and "\<forall>a b. si a \<longrightarrow> env a b \<longrightarrow> si b \<and> blobs_le (vw a) (vw b)"
    and "fm_reach st env ds s c" and "fm_final ds c" and "fm_response c = Ok ms"
  shows "subseq ms ds \<and> (\<forall>d \<in> set ms. d \<noteq> None \<and> lookup_blob (vw s) d = None) \<and>
    (\<forall>d \<in> set ds. d \<noteq> None \<and> d \<notin> set ms \<longrightarrow> lookup_blob (vw (fm_store c)) d \<noteq> None)"
proof -
  have ok: "fm_ok ds (vw s) (vw (fm_store c)) c"
    using blob_store.fm_reach_ok [OF assms(1,5,2,3)] assms(4) by blast
  have len: "length (fm_missing c) = length ds"
    using fm_shape [OF assms(5)] by simp
  have err: "fm_first_err c = None" and ms: "ms = filter (\<lambda>d. d \<noteq> None) (fm_missing c)"
    using assms(7) by (simp_all add: fm_response_ok)
  note at = fm_final_ok [OF ok assms(6) err]
  have "subseq ms ds"
    unfolding ms by (rule subseq_masked [OF len]) (use at(2) in blast)
  moreover have "d \<noteq> None \<and> lookup_blob (vw s) d = None" if d: "d \<in> set ms" for d
  proof -
    obtain i where "i < length ds" "fm_missing c ! i = d" "d \<noteq> None"
      using d len by (auto simp: ms in_set_conv_nth)
    then show ?thesis using at(2) [of i] by auto
  qed
  moreover have "lookup_blob (vw (fm_store c)) d \<noteq> None"
    if d: "d \<in> set ds" "d \<noteq> None" "d \<notin> set ms" for d
  proof -
    obtain i where i: "i < length ds" "ds ! i = d"
      using d(1) by (auto simp: in_set_conv_nth)
    have "fm_missing c ! i \<noteq> d" using d i len by (auto simp: ms in_set_conv_nth)
    then show ?thesis using at [OF i(1)] i(2) d(2) by auto
  qed
  ultimately show ?thesis by blast
qed

text \<open>
  A concrete run: one digest, absent; while its goroutine has the answer another request stores a
  blob.
\<close>

definition run_digest :: digest_ptr where
  "run_digest = Some \<lparr>d_hash = ''aa'', d_size = 1\<rparr>"

definition run_other :: digest_ptr where
  "run_other = Some \<lparr>d_hash = ''bb'', d_size = 1\<rparr>"

definition run_env :: "mem_store \<Rightarrow> mem_store \<Rightarrow> bool" where
  "run_env a b \<longleftrightarrow> b = snd (mem_put a run_other [7])"

definition run_end :: "mem_store \<Rightarrow> mem_store fm_state" where
  "run_end m = \<lparr>fm_next = 1, fm_running = Map.empty, fm_missing = [run_digest],
     fm_first_err = None, fm_store = m\<rparr>"

lemma run_absent: "mem_contains new_mem_store run_digest = (Ok False, new_mem_store)"
  by (simp add: mem_contains_def new_mem_store_def run_digest_def is_empty_def)

lemma run_answered:
  "fm_reach (mem_ops example_codec) env [run_digest] new_mem_store
    \<lparr>fm_next = 1, fm_running = [0 \<mapsto> Answered (Ok False)], fm_missing = [None],
     fm_first_err = None, fm_store = new_mem_store\<rparr>"
proof -
  let ?R = "fm_reach (mem_ops example_codec) env [run_digest] new_mem_store"
  have "?R \<lparr>fm_next = 1, fm_running = [0 \<mapsto> Started], fm_missing = [None],
      fm_first_err = None, fm_store = new_mem_store\<rparr>"
    using fm_next [OF fm_start fm_spawn, of "[run_digest]" new_mem_store "mem_ops example_codec" env]
    by (simp add: fm_init_def fm_concurrency_def)
  from fm_next [OF this fm_call [of _ 0 _ _ "Ok False" new_mem_store]] show ?thesis
    by (simp add: run_absent)
qed

lemma run_quiet: "fm_reach (mem_ops example_codec) env [run_digest] new_mem_store (run_end new_mem_store)"
  using fm_next [OF run_answered fm_record [of _ 0 False]] by (simp add: run_end_def)

lemma run_busy:
  "fm_reach (mem_ops example_codec) run_env [run_digest] new_mem_store
    (run_end (snd (mem_put new_mem_store run_other [7])))"
  using fm_next [OF run_quiet fm_env [of run_env]] by (simp add: run_end_def run_env_def)

lemma run_end_simps [simp]:
  "fm_final [run_digest] (run_end m)" "fm_response (run_end m) = Ok [run_digest]"
  "fm_store (run_end m) = m"
  by (simp_all add: run_end_def fm_final_def fm_response_def run_digest_def)

lemma run_env_grows: "run_env a b \<Longrightarrow> blobs_le (mem_view a) (mem_view b)"
  by (auto simp: run_env_def blobs_le_def mem_put_spec put_blob_def)

theorem find_missing_sound_witness:
  "subseq [run_digest] [run_digest] \<and> run_digest \<noteq> None \<and>
    lookup_blob (mem_view new_mem_store) run_digest = None"
proof -
  have "subseq [run_digest] [run_digest] \<and>
    (\<forall>d \<in> set [run_digest]. d \<noteq> None \<and> lookup_blob (mem_view new_mem_store) d = None) \<and>
    (\<forall>d \<in> set [run_digest]. d \<noteq> None \<and> d \<notin> set [run_digest] \<longrightarrow>
      lookup_blob (mem_view (fm_store (run_end (snd (mem_put new_mem_store run_other [7]))))) d \<noteq> None)"
    by (rule find_missing_sound [OF mem.blob_store_axioms _ _ _ run_busy])
       (simp_all add: run_env_grows)
  then show ?thesis by simp
qed

text \<open>
  When nobody else changes the store, the answer does not depend on the schedule: it is the
  list of the requested digests that are absent.
\<close>

theorem find_missing_exact:
  assumes "blob_store st pb si okd vw" and "si s" and "\<forall>d \<in> set ds. okd d"
    and "fm_reach st (\<lambda>_ _. False) ds s c" and "fm_final ds c" and "fm_response c = Ok ms"
  shows "ms = filter (\<lambda>d. d \<noteq> None \<and> lookup_blob (vw s) d = None) ds"
  by (rule blob_store.fm_quiet_answer [OF assms])

text \<open>
  C37.  Under every interleaving with other requests, at most 32 goroutines run at a time, the
  call is never stuck before it ends, and each of its own steps brings the end closer, so at
  most three steps per digest end it.
\<close>

theorem find_missing_terminates:
  assumes "blob_store st pb si okd vw" and "si s" and "\<forall>d \<in> set ds. okd d"
    and "\<forall>a b. si a \<longrightarrow> env a b \<longrightarrow> si b \<and> blobs_le (vw a) (vw b)"
    and "fm_reach st env ds s c"
  shows "card (dom (fm_running c)) \<le> 32 \<and> fm_measure ds (fm_init ds s) = 3 * length ds \<and>
    (fm_final ds c \<or> (\<exists>c'. fm_step st (\<lambda>_ _. False) ds c c')) \<and>
    (\<forall>c'. fm_step st (\<lambda>_ _. False) ds c c' \<longrightarrow> Suc (fm_measure ds c') = fm_measure ds c) \<and>
    (\<forall>s'. fm_measure ds (c\<lparr>fm_store := s'\<rparr>) = fm_measure ds c)"
proof -
  have "\<forall>i. fm_running c i \<noteq> Some (Answered Panic)"
    using blob_store.fm_reach_ok [OF assms(1,5,2,3)] assms(4) unfolding fm_ok_def by blast
  then have "fm_final ds c \<or> (\<exists>c'. fm_step st (\<lambda>_ _. False) ds c c')"
    using fm_not_stuck [OF assms(5)] by blast
  moreover have "fm_measure ds (fm_init ds s) = 3 * length ds"
    by (simp add: fm_measure_def fm_init_def fm_left_def)
  ultimately show ?thesis
    using fm_shape [OF assms(5)] fm_measure_step [OF assms(5)]
    by (auto simp: fm_concurrency_def fm_measure_def)
qed

text \<open>
  Over the in-memory store the call never fails: whatever the schedule, it answers with the
  absent digests of the request in order.
\<close>

theorem find_missing_mem:
  assumes "fm_reach (mem_ops pb) (\<lambda>_ _. False) ds m c" and "fm_final ds c"
  shows "fm_response c = Ok (filter (\<lambda>d. d \<noteq> None \<and> fst (mem_contains m d) = Ok False) ds)"
proof -
  have "fm_first_err c = None"
    using mem.fm_no_error [OF assms(1)] by simp
  then obtain ms where ms: "fm_response c = Ok ms"
    by (simp add: fm_response_ok)
  have "ms = filter (\<lambda>d. d \<noteq> None \<and> lookup_blob (mem_view m) d = None) ds"
    by (rule mem.fm_quiet_answer [OF _ _ assms ms]) simp_all
  then show ?thesis using ms by (simp add: mem_contains_spec)
qed

theorem find_missing_terminates_witness:
  "fm_measure [run_digest] (fm_init [run_digest] new_mem_store) = 3 \<and>
    card (dom (fm_running (run_end new_mem_store))) \<le> 32"
proof -
  have "card (dom (fm_running (run_end new_mem_store))) \<le> 32 \<and>
    fm_measure [run_digest] (fm_init [run_digest] new_mem_store) = 3 * length [run_digest] \<and>
    (fm_final [run_digest] (run_end new_mem_store) \<or>
      (\<exists>c'. fm_step (mem_ops example_codec) (\<lambda>_ _. False) [run_digest] (run_end new_mem_store) c')) \<and>
    (\<forall>c'. fm_step (mem_ops example_codec) (\<lambda>_ _. False) [run_digest] (run_end new_mem_store) c' \<longrightarrow>
      Suc (fm_measure [run_digest] c') = fm_measure [run_digest] (run_end new_mem_store)) \<and>
    (\<forall>s'. fm_measure [run_digest] ((run_end new_mem_store)\<lparr>fm_store := s'\<rparr>) =
      fm_measure [run_digest] (run_end new_mem_store))"
    by (rule find_missing_terminates
          [OF mem.blob_store_axioms _ _ _ run_quiet [of run_env]]) (simp_all add: run_env_grows)
  then show ?thesis by simp
qed

theorem find_missing_exact_witness:
  "[run_digest] = filter (\<lambda>d. d \<noteq> None \<and> lookup_blob (mem_view new_mem_store) d = None) [run_digest]"
  by (rule find_missing_exact [OF mem.blob_store_axioms _ _ run_quiet]) simp_all

theorem find_missing_mem_witness:
  "fm_response (run_end new_mem_store) =
    Ok (filter (\<lambda>d. d \<noteq> None \<and> fst (mem_contains new_mem_store d) = Ok False) [run_digest])"
  by (rule find_missing_mem [OF run_quiet]) simp

end
