(* ===== verification/ByteStream.thy ===== *)
theory ByteStream
  imports FindMissing "HOL-Library.Sublist"
begin

text \<open>
  The ByteStream service: \<^verbatim>\<open>Read\<close> and \<^verbatim>\<open>Write\<close> of \<^verbatim>\<open>internal/server/cas_service.go\<close>.  The gRPC
  stream and the temporary file are outside the repository: \<open>send\<close> answers a \<^verbatim>\<open>stream.Send\<close> given
  the messages sent before, the requests a client sends are the list of what \<^verbatim>\<open>stream.Recv\<close>
  returns (an exhausted list answers \<^verbatim>\<open>io.EOF\<close>), and the calls on the temporary file are the
  fields of \<open>tmp_env\<close>.
\<close>

subsection \<open>Read\<close>

definition read_chunk_size :: nat where
  "read_chunk_size = 1024 * 1024"

lemma read_chunk_size_pos [simp]: "0 < read_chunk_size"
  by (simp add: read_chunk_size_def)

lemma read_n_more: "read_n r read_chunk_size = (c, None, r') \<Longrightarrow> reader_size r' < reader_size r"
  using read_n_shrinks [OF read_chunk_size_pos, of r c None r'] by (cases "r = []") auto

text \<open>The loop stops when \<^verbatim>\<open>rc.Read\<close> gives an error, which an exhausted reader always does.\<close>

function read_loop ::
    "(bytes list \<Rightarrow> bytes \<Rightarrow> err option) \<Rightarrow> digest \<Rightarrow> reader \<Rightarrow> bytes list \<Rightarrow> unit res \<times> bytes list" where
  "read_loop send d r sent =
     (case read_n r read_chunk_size of
        (c, e, r') \<Rightarrow>
          (case (if 0 < length c then send sent c else None) of
             Some serr \<Rightarrow> (Err serr, sent)
           | None \<Rightarrow>
               (let sent' = (if 0 < length c then sent @ [c] else sent)
                in case e of
                     Some x \<Rightarrow>
                       if x = EOF then (Ok (), sent')
                       else (Err (StatusErr Internal ''read blob %s: %v'' [key (Some d)] (Some x)), sent')
                   | None \<Rightarrow> read_loop send d r' sent')))"
  by pat_completeness auto
termination
  by (relation "measure (\<lambda>(send, d, r, sent). reader_size r)") (auto dest: read_n_more [OF sym])

declare read_loop.simps [simp del]

definition read_handler ::
    "'s store \<Rightarrow> (bytes list \<Rightarrow> bytes \<Rightarrow> err option) \<Rightarrow> 's \<Rightarrow> string \<Rightarrow> int64 \<Rightarrow> int64 \<Rightarrow>
     (unit res \<times> bytes list) \<times> 's" where
  "read_handler st send s name offset limit =
     (case parse_read_resource name of
        Err e \<Rightarrow> ((Err (StatusErr InvalidArgument ''%v'' [] (Some e)), []), s)
      | Panic \<Rightarrow> ((Panic, []), s)
      | Ok d \<Rightarrow>
          (case st_reader st s (Some d) offset limit of
             (Err e, s') \<Rightarrow>
               ((if error_is e ErrNotFound
                 then Err (StatusErr NotFound ''blob %s not found'' [key (Some d)] None)
                 else Err (StatusErr Internal ''read blob %s: %v'' [key (Some d)] (Some e)), []), s')
           | (Panic, s') \<Rightarrow> ((Panic, []), s')
           | (Ok rc, s') \<Rightarrow> (read_loop send d rc [], s')))"

subsection \<open>Write\<close>

record write_request =
  wr_name :: string
  wr_offset :: int64
  wr_data :: bytes
  wr_finish :: bool

record tmp_env =
  te_create :: "err option"
  te_write :: "bytes \<Rightarrow> bytes \<Rightarrow> err option"
  te_seek :: "err option"
  te_reader :: "bytes \<Rightarrow> reader"
  te_close :: "err option"

text \<open>One request of the loop: what the file holds and the count of bytes written after it.\<close>

definition write_one :: "tmp_env \<Rightarrow> write_request \<Rightarrow> bytes \<Rightarrow> int64 \<Rightarrow> (bytes \<times> int64) res" where
  "write_one te req content written =
     (if sint (of_nat (length (wr_data req)) :: int64) > 0 then
        if wr_offset req \<noteq> written then
          Err (StatusErr InvalidArgument ''non-contiguous write: offset %d, expected %d''
                 [show_int64 (wr_offset req), show_int64 written] None)
        else (case te_write te content (wr_data req) of
                Some e \<Rightarrow> Err (StatusErr Internal ''buffer upload: %v'' [] (Some e))
              | None \<Rightarrow> Ok (content @ wr_data req, written + of_nat (length (wr_data req))))
      else Ok (content, written))"

fun write_loop ::
    "tmp_env \<Rightarrow> (err + write_request) list \<Rightarrow> write_request \<Rightarrow> bytes \<Rightarrow> int64 \<Rightarrow> (bytes \<times> int64) res"
where
  "write_loop te recvs req content written =
     (case write_one te req content written of
        Err e \<Rightarrow> Err e
      | Panic \<Rightarrow> Panic
      | Ok (content', written') \<Rightarrow>
          if wr_finish req then Ok (content', written')
          else (case recvs of
                  [] \<Rightarrow> Ok (content', written')
                | Inl e # _ \<Rightarrow> if e = EOF then Ok (content', written') else Err e
                | Inr req' # rest \<Rightarrow> write_loop te rest req' content' written'))"

declare write_loop.simps [simp del]

definition write_commit :: "tmp_env \<Rightarrow> 's store \<Rightarrow> 's \<Rightarrow> digest \<Rightarrow> bytes \<Rightarrow> int64 \<Rightarrow> int64 res \<times> 's" where
  "write_commit te st s d content written =
     (if written \<noteq> d_size d then
        (Err (StatusErr InvalidArgument ''wrote %d bytes, digest declares %d''
                [show_int64 written, show_int64 (d_size d)] None), s)
      else (case te_seek te of
              Some e \<Rightarrow> (Err (StatusErr Internal ''rewind upload: %v'' [] (Some e)), s)
            | None \<Rightarrow>
                (case st_put_stream st s (Some d) written (te_reader te content) of
                   (Err e, s') \<Rightarrow>
                     (Err (StatusErr Internal ''store blob %s: %v'' [key (Some d)] (Some e)), s')
                 | (Panic, s') \<Rightarrow> (Panic, s')
                 | (Ok _, s') \<Rightarrow>
                     (case te_close te of
                        Some e \<Rightarrow> (Err e, s')
                      | None \<Rightarrow> (Ok written, s')))))"

definition write_handler ::
    "tmp_env \<Rightarrow> 's store \<Rightarrow> 's \<Rightarrow> (err + write_request) list \<Rightarrow> int64 res \<times> 's" where
  "write_handler te st s recvs =
     (case recvs of
        [] \<Rightarrow> (Err EOF, s)
      | Inl e # _ \<Rightarrow> (Err e, s)
      | Inr req # rest \<Rightarrow>
          (case parse_write_resource (wr_name req) of
             Err e \<Rightarrow> (Err (StatusErr InvalidArgument ''%v'' [] (Some e)), s)
           | Panic \<Rightarrow> (Panic, s)
           | Ok d \<Rightarrow>
               (case te_create te of
                  Some e \<Rightarrow> (Err (StatusErr Internal ''create temp: %v'' [] (Some e)), s)
                | None \<Rightarrow>
                    (case write_loop te rest req [] 0 of
                       Err e \<Rightarrow> (Err e, s)
                     | Panic \<Rightarrow> (Panic, s)
                     | Ok (content, written) \<Rightarrow> write_commit te st s d content written))))"

declare read_handler_def [handler_defs] write_handler_def [handler_defs]

subsection \<open>What Read sends\<close>

text \<open>
  The messages sent are pieces of at most a chunk, none empty, which make up a prefix of what
  the reader holds; when the loop ends well they make up all of it.
\<close>

definition piece :: "bytes \<Rightarrow> bytes list" where
  "piece c = (if 0 < length c then [c] else [])"

lemma piece_simps [simp]:
  "concat (piece c) = c" "x \<in> set (piece c) \<longleftrightarrow> x = c \<and> 0 < length c"
  "(if 0 < length c then sent @ [c] else sent) = sent @ piece c"
  by (auto simp: piece_def)

lemma read_loop_steps:
  assumes "read_n r read_chunk_size = (c, e, r')"
  shows "0 < length c \<Longrightarrow> send sent c = Some serr \<Longrightarrow> read_loop send d r sent = (Err serr, sent)"
    and "0 < length c \<longrightarrow> send sent c = None \<Longrightarrow> e = Some x \<Longrightarrow> read_loop send d r sent =
      (if x = EOF then Ok () else Err (StatusErr Internal ''read blob %s: %v'' [key (Some d)] (Some x)),
       sent @ piece c)"
    and "0 < length c \<longrightarrow> send sent c = None \<Longrightarrow> e = None \<Longrightarrow>
      read_loop send d r sent = read_loop send d r' (sent @ piece c)"
  using assms by (simp_all add: read_loop.simps [of send d r sent] piece_def)

lemma read_loop_sent:
  "read_loop send d r sent = (res, out) \<Longrightarrow>
    \<exists>cs. out = sent @ cs \<and> (\<forall>c \<in> set cs. 0 < length c \<and> length c \<le> read_chunk_size) \<and>
      (res = Ok () \<longrightarrow> read_all r = Ok (concat cs)) \<and>
      (\<forall>b. read_all r = Ok b \<longrightarrow> prefix (concat cs) b) \<and> res \<noteq> Panic"
proof (induction "reader_size r" arbitrary: r sent rule: less_induct)
  case less
  obtain c e r' where rd: "read_n r read_chunk_size = (c, e, r')"
    by (metis surj_pair)
  have len: "length c \<le> read_chunk_size" by (rule read_n_length [OF rd])
  show ?case
  proof (cases "0 < length c \<longrightarrow> send sent c = None")
    case False
    then obtain serr where "0 < length c" "send sent c = Some serr" by auto
    then show ?thesis using less.prems read_loop_steps(1) [OF rd] by auto
  next
    case True
    show ?thesis
    proof (cases e)
      case (Some x)
      then have "out = sent @ piece c" "res = Ok () \<longrightarrow> x = EOF" "res \<noteq> Panic"
        using less.prems read_loop_steps(2) [OF rd, of send sent x d] True by (auto split: if_splits)
      then show ?thesis
        using read_n_stop [of r read_chunk_size c x r'] rd Some len by auto
    next
      case None
      have "read_loop send d r' (sent @ piece c) = (res, out)"
        using less.prems read_loop_steps(3) [OF rd, of send sent d] True None by simp
      then obtain ds where ds: "out = (sent @ piece c) @ ds"
        "\<forall>x \<in> set ds. 0 < length x \<and> length x \<le> read_chunk_size"
        "res = Ok () \<longrightarrow> read_all r' = Ok (concat ds)"
        "\<forall>b. read_all r' = Ok b \<longrightarrow> prefix (concat ds) b" "res \<noteq> Panic"
        using less.hyps [of r' "sent @ piece c"] read_n_more rd None by blast
      have all: "read_all r =
          (case read_all r' of Ok b \<Rightarrow> Ok (c @ b) | Err x \<Rightarrow> Err x | Panic \<Rightarrow> Panic)"
        using read_n_content rd None by simp
      show ?thesis
        using ds len by (intro exI [of _ "piece c @ ds"]) (auto simp: all split: res.splits)
    qed
  qed
qed

lemma read_loop_total:
  "(\<And>h m. send h m = None) \<Longrightarrow> read_all r = Ok b \<Longrightarrow> fst (read_loop send d r sent) = Ok ()"
proof (induction "reader_size r" arbitrary: r sent b rule: less_induct)
  case less
  obtain c e r' where rd: "read_n r read_chunk_size = (c, e, r')"
    by (metis surj_pair)
  have none: "0 < length c \<longrightarrow> send sent c = None" using less.prems by simp
  show ?case
  proof (cases e)
    case (Some x)
    then have "x = EOF"
      using read_n_stop [of r read_chunk_size c x r'] rd less.prems(2) by (auto split: if_splits)
    then show ?thesis using read_loop_steps(2) [OF rd, of send sent x d] none Some by simp
  next
    case None
    then obtain b' where "read_all r' = Ok b'"
      using read_n_content rd less.prems(2) by (auto split: res.splits)
    then show ?thesis
      using less.hyps [of r' b' "sent @ piece c"] read_n_more rd None less.prems(1)
        read_loop_steps(3) [OF rd, of send sent d] none by simp
  qed
qed

text \<open>Over a reader of bytes in memory the messages are the chunks of the bytes.\<close>

lemma read_loop_bytes:
  assumes "\<And>h m. send h m = None"
  shows "read_loop send d (bytes_reader b) sent = (Ok (), sent @ chunks read_chunk_size b)"
proof (induction "length b" arbitrary: b sent rule: less_induct)
  case less
  consider "b = []" | "b \<noteq> []" "length b \<le> read_chunk_size" | "read_chunk_size < length b"
    by linarith
  then show ?case
  proof cases
    case 1
    then show ?thesis
      using read_loop_steps(2) [of "[]" "[]" "Some EOF" "[]" send sent EOF d]
      by (simp add: bytes_reader_def piece_def)
  next
    case 2
    then have "read_n (bytes_reader b) read_chunk_size = (b, None, [])"
      by (simp add: bytes_reader_def)
    then have "read_loop send d (bytes_reader b) sent = read_loop send d [] (sent @ [b])"
      using read_loop_steps(3) [of "bytes_reader b" b None "[]" send sent d] assms 2
      by (simp add: piece_def)
    also have "\<dots> = (Ok (), sent @ [b])"
      using read_loop_steps(2) [of "[]" "[]" "Some EOF" "[]" send "sent @ [b]" EOF d]
      by (simp add: piece_def)
    finally show ?thesis using 2 by (simp add: chunks_short)
  next
    case 3
    let ?c = "take read_chunk_size b" and ?r = "drop read_chunk_size b"
    have "read_n (bytes_reader b) read_chunk_size = (?c, None, bytes_reader ?r)"
      using 3 by (auto simp: bytes_reader_def)
    then have "read_loop send d (bytes_reader b) sent = read_loop send d (bytes_reader ?r) (sent @ piece ?c)"
      using read_loop_steps(3) [of "bytes_reader b" ?c None "bytes_reader ?r" send sent d] assms by simp
    also have "\<dots> = (Ok (), (sent @ piece ?c) @ chunks read_chunk_size ?r)"
      by (rule less) (use 3 read_chunk_size_pos in \<open>unfold length_drop, linarith\<close>)
    also have "piece ?c = [?c]" using 3 by (auto simp: piece_def)
    finally show ?thesis using 3 by (auto simp: chunks.simps [of _ b])
  qed
qed

lemma read_mem_present:
  assumes "\<And>h m. send h m = None" and "parse_read_resource name = Ok d" and "0 \<le> sint off"
    and "lookup_blob (mem_view m) (Some d) = Some b"
  shows "read_handler (mem_ops pb) send m name off lim =
    ((Ok (), chunks read_chunk_size (window off lim b)), m)"
  using assms
  by (simp add: read_handler_def mem_reader_present read_loop_bytes)

lemma read_mem_absent:
  assumes "parse_read_resource name = Ok d" and "lookup_blob (mem_view m) (Some d) = None"
  shows "read_handler (mem_ops pb) send m name off lim =
    ((Err (StatusErr NotFound ''blob %s not found'' [key (Some d)] None), []), m)"
  using assms by (simp add: read_handler_def mem_reader_absent)


context blob_store
begin

lemma read_handler_law:
  assumes "inv s" "good_range off lim" "read_handler st send s name off lim = ((res, out), s')"
  shows "inv s' \<and> vw s' = vw s \<and> res \<noteq> Panic \<and>
    (\<forall>c \<in> set out. 0 < length c \<and> length c \<le> read_chunk_size) \<and>
    (res = Ok () \<longrightarrow> (\<exists>d b. parse_read_resource name = Ok d \<and>
      lookup_blob (vw s) (Some d) = Some b \<and> concat out = window off lim b))"
proof (cases "parse_read_resource name")
  case (Ok d)
  have d: "okd (Some d)" by (rule valid_okd [OF parse_read_valid [OF Ok]])
  obtain rr s1 where rd: "st_reader st s (Some d) off lim = (rr, s1)" by fastforce
  note law = reader_law [OF assms(1) d assms(2) rd]
  show ?thesis
  proof (cases rr)
    case R: (Ok rc)
    then obtain b where b: "lookup_blob (vw s) (Some d) = Some b"
      "\<forall>x. read_all rc = Ok x \<longrightarrow> x = window off lim b"
      using law by blast
    have "read_loop send d rc [] = (res, out)" "s' = s1"
      using assms(3) by (simp_all add: read_handler_def Ok rd R)
    then show ?thesis
      using read_loop_sent [of send d rc "[]" res out] law b Ok by auto
  qed (use assms(3) law in \<open>auto simp: read_handler_def Ok rd split: if_splits\<close>)
qed (use assms in \<open>auto simp: read_handler_def\<close>)

end

subsection \<open>What Write accepts\<close>

text \<open>The requests the loop takes: up to the one that finishes, or to the end of the stream.\<close>

fun accepted :: "write_request \<Rightarrow> (err + write_request) list \<Rightarrow> write_request list" where
  "accepted req [] = [req]"
| "accepted req (Inl e # rest) = [req]"
| "accepted req (Inr req' # rest) = (if wr_finish req then [req] else req # accepted req' rest)"

fun ends_well :: "write_request \<Rightarrow> (err + write_request) list \<Rightarrow> bool" where
  "ends_well req [] = True"
| "ends_well req (Inl e # rest) = (wr_finish req \<or> e = EOF)"
| "ends_well req (Inr req' # rest) = (wr_finish req \<or> ends_well req' rest)"

fun contiguous :: "nat \<Rightarrow> write_request list \<Rightarrow> bool" where
  "contiguous n [] = True"
| "contiguous n (r # rs) =
     ((wr_data r \<noteq> [] \<longrightarrow> wr_offset r = of_nat n) \<and> contiguous (n + length (wr_data r)) rs)"

definition upload_data :: "write_request list \<Rightarrow> bytes" where
  "upload_data rs = concat (map wr_data rs)"

text \<open>A Go slice has fewer than \<open>2 ^ 63\<close> elements.\<close>

definition sized :: "write_request list \<Rightarrow> bool" where
  "sized rs \<longleftrightarrow> (\<forall>r \<in> set rs. length (wr_data r) < 2 ^ 63)"

text \<open>A temporary file that never fails and gives back what was written.\<close>

definition good_tmp :: "tmp_env \<Rightarrow> bool" where
  "good_tmp te \<longleftrightarrow> te_create te = None \<and> (\<forall>c x. te_write te c x = None) \<and> te_seek te = None \<and>
     te_close te = None \<and> (\<forall>b. read_all (te_reader te b) = Ok b)"

lemma accepted_mem: "req \<in> set (accepted req recvs)"
  by (induction req recvs rule: accepted.induct) auto

lemma write_one_ok:
  assumes "length (wr_data req) < 2 ^ 63"
  shows "write_one te req content (of_nat (length content)) = Ok (content', written') \<longrightarrow>
    content' = content @ wr_data req \<and> written' = of_nat (length content') \<and>
    (wr_data req \<noteq> [] \<longrightarrow> wr_offset req = of_nat (length content))"
  using assms sint_of_nat64 [OF assms]
  by (auto simp: write_one_def split: option.splits)

lemma write_one_good:
  assumes "good_tmp te" "wr_data req \<noteq> [] \<longrightarrow> wr_offset req = of_nat (length content)"
    and "length (wr_data req) < 2 ^ 63"
  shows "write_one te req content (of_nat (length content)) =
    Ok (content @ wr_data req, of_nat (length (content @ wr_data req)))"
  using assms sint_of_nat64 [OF assms(3)]
  by (auto simp: write_one_def good_tmp_def)

lemma write_one_no_panic [simp]: "write_one te req content written \<noteq> Panic"
  by (auto simp: write_one_def split: option.splits)

lemma write_loop_ok:
  "sized (accepted req recvs) \<Longrightarrow>
    write_loop te recvs req content (of_nat (length content)) = Ok (content', written') \<Longrightarrow>
    content' = content @ upload_data (accepted req recvs) \<and> written' = of_nat (length content') \<and>
    contiguous (length content) (accepted req recvs) \<and> ends_well req recvs"
proof (induction req recvs arbitrary: content rule: accepted.induct)
  case (1 req)
  then show ?case
    using write_one_ok [of req te content]
    by (auto simp: write_loop.simps [of te "[]"] sized_def upload_data_def split: res.splits if_splits)
next
  case (2 req e rest)
  then show ?case
    using write_one_ok [of req te content]
    by (auto simp: write_loop.simps [of te "Inl e # rest"] sized_def upload_data_def
        split: res.splits if_splits)
next
  case (3 req req' rest)
  have sz: "length (wr_data req) < 2 ^ 63" using "3.prems"(1) by (auto simp: sized_def split: if_splits)
  obtain c1 w1 where one: "write_one te req content (of_nat (length content)) = Ok (c1, w1)"
    using "3.prems"(2) by (auto simp: write_loop.simps [of te "Inr req' # rest"] split: res.splits)
  have c1: "c1 = content @ wr_data req" "w1 = of_nat (length c1)"
    "wr_data req \<noteq> [] \<longrightarrow> wr_offset req = of_nat (length content)"
    using write_one_ok [OF sz, of te content c1 w1] one by blast+
  show ?case
  proof (cases "wr_finish req")
    case True
    then show ?thesis
      using "3.prems"(2) c1 one
      by (auto simp: write_loop.simps [of te "Inr req' # rest"] upload_data_def)
  next
    case False
    have rest: "write_loop te rest req' c1 (of_nat (length c1)) = Ok (content', written')"
      using "3.prems"(2) one c1(2) False by (simp add: write_loop.simps [of te "Inr req' # rest"])
    have "sized (accepted req' rest)" using "3.prems"(1) False by (simp add: sized_def)
    from "3.IH" [OF False this rest] show ?thesis
      using c1 False by (auto simp: upload_data_def)
  qed
qed

lemma write_loop_no_panic: "write_loop te recvs req content written \<noteq> Panic"
proof (induction req recvs arbitrary: content written rule: accepted.induct)
  case (1 req)
  then show ?case by (auto simp: write_loop.simps [of te "[]"] split: res.splits)
next
  case (2 req e rest)
  then show ?case by (auto simp: write_loop.simps [of te "Inl e # rest"] split: res.splits)
next
  case (3 req req' rest)
  then show ?case by (auto simp: write_loop.simps [of te "Inr req' # rest"] split: res.splits)
qed

lemma write_loop_good:
  "good_tmp te \<Longrightarrow> sized (accepted req recvs) \<Longrightarrow> ends_well req recvs \<Longrightarrow>
    contiguous (length content) (accepted req recvs) \<Longrightarrow>
    is_ok (write_loop te recvs req content (of_nat (length content)))"
proof (induction req recvs arbitrary: content rule: accepted.induct)
  case (1 req)
  then show ?case
    using write_one_good [of te req content]
    by (simp add: write_loop.simps [of te "[]"] sized_def)
next
  case (2 req e rest)
  then show ?case
    using write_one_good [of te req content]
    by (auto simp: write_loop.simps [of te "Inl e # rest"] sized_def)
next
  case (3 req req' rest)
  have "length (wr_data req) < 2 ^ 63" "wr_data req \<noteq> [] \<longrightarrow> wr_offset req = of_nat (length content)"
    using "3.prems"(2,4) by (auto simp: sized_def split: if_splits)
  note one = write_one_good [OF "3.prems"(1) this(2,1)]
  show ?case
  proof (cases "wr_finish req")
    case True
    then show ?thesis using one by (simp add: write_loop.simps [of te "Inr req' # rest"])
  next
    case False
    then show ?thesis
      using "3.IH" [OF False, of "content @ wr_data req"] "3.prems" one
      by (simp add: write_loop.simps [of te "Inr req' # rest"] sized_def)
  qed
qed

context blob_store
begin

lemma write_commit_stored:
  assumes "w = d_size d" "te_seek te = None"
    and "st_put_stream st s (Some d) w (te_reader te c) = (ru, s1)"
  shows "write_commit te st s d c w =
    (case ru of
       Err e \<Rightarrow> (Err (StatusErr Internal ''store blob %s: %v'' [key (Some d)] (Some e)), s1)
     | Panic \<Rightarrow> (Panic, s1)
     | Ok _ \<Rightarrow> (case te_close te of Some e \<Rightarrow> (Err e, s1) | None \<Rightarrow> (Ok w, s1)))"
  using assms by (auto simp: write_commit_def split: res.split option.split)

text \<open>
  An upload that is reported committed was contiguous and of the declared size, and the store
  now holds the uploaded bytes under the digest of the resource name.
\<close>

lemma write_handler_law:
  assumes "inv s" "sized (accepted req recvs)" "\<And>b. read_all (te_reader te b) = Ok b"
    and "write_handler te st s (Inr req # recvs) = (res, s')"
  shows "inv s' \<and> res \<noteq> Panic \<and>
    (\<forall>n. res = Ok n \<longrightarrow> (\<exists>d. parse_write_resource (wr_name req) = Ok d \<and> n = d_size d \<and>
       n = of_nat (length (upload_data (accepted req recvs))) \<and>
       contiguous 0 (accepted req recvs) \<and> ends_well req recvs \<and>
       vw s' = put_blob (vw s) (Some d) (upload_data (accepted req recvs)))) \<and>
    (vw s' = vw s \<or> (\<exists>d. parse_write_resource (wr_name req) = Ok d \<and>
       vw s' = put_blob (vw s) (Some d) (upload_data (accepted req recvs))))"
proof (cases "parse_write_resource (wr_name req)")
  case (Ok d)
  have d: "okd (Some d)" by (rule valid_okd [OF parse_write_valid [OF Ok]])
  show ?thesis
  proof (cases "te_create te = None \<and> is_ok (write_loop te recvs req [] 0)")
    case True
    then obtain c w where loop: "write_loop te recvs req [] 0 = Ok (c, w)" by (auto simp: is_ok_iff)
    have up: "c = upload_data (accepted req recvs)" "w = of_nat (length c)"
      "contiguous 0 (accepted req recvs)" "ends_well req recvs"
      using write_loop_ok [OF assms(2), of te "[]" c w] loop by simp_all
    have commit: "write_commit te st s d c w = (res, s')"
      using assms(4) True loop by (simp add: write_handler_def Ok)
    obtain ru s1 where p: "st_put_stream st s (Some d) w (te_reader te c) = (ru, s1)" by fastforce
    note law = put_stream_law [OF assms(1) d p assms(3)]
    show ?thesis
    proof (cases "w = d_size d \<and> te_seek te = None")
      case True
      then have out: "s' = s1" "res = Panic \<longleftrightarrow> ru = Panic"
        "\<And>n. res = Ok n \<Longrightarrow> ru = Ok () \<and> n = w"
        using commit write_commit_stored [OF _ _ p] by (auto split: res.splits option.splits)
      show ?thesis
        using law Ok out True up by (metis (no_types, lifting))
    qed (use commit assms(1) in \<open>auto simp: write_commit_def split: if_splits option.splits\<close>)
  next
    case False
    then show ?thesis
      using assms(1,4) write_loop_no_panic [of te recvs req "[]" 0]
      by (auto simp: write_handler_def Ok is_ok_iff split: option.splits res.splits)
  qed
qed (use assms in \<open>auto simp: write_handler_def\<close>)

end

context reliable_store
begin

text \<open>An upload a client sends as the API asks is committed.\<close>

lemma write_handler_good:
  assumes "inv s" "good_tmp te" "sized (accepted req recvs)" "ends_well req recvs"
    and "contiguous 0 (accepted req recvs)" "parse_write_resource (wr_name req) = Ok d"
    and "d_size d = of_nat (length (upload_data (accepted req recvs)))"
  shows "fst (write_handler te st s (Inr req # recvs)) = Ok (d_size d)"
proof -
  have d: "okd (Some d)" by (rule valid_okd [OF parse_write_valid [OF assms(6)]])
  obtain c w where loop: "write_loop te recvs req [] 0 = Ok (c, w)"
    using write_loop_good [OF assms(2,3,4), of "[]"] assms(5) by (auto simp: is_ok_iff)
  have up: "c = upload_data (accepted req recvs)" "w = of_nat (length c)"
    using write_loop_ok [OF assms(3), of te "[]" c w] loop by simp_all
  obtain ru s1 where p: "st_put_stream st s (Some d) w (te_reader te c) = (ru, s1)" by fastforce
  have "is_ok (read_all (te_reader te c))" using assms(2) by (simp add: good_tmp_def)
  then have "ru = Ok ()" using put_stream_total [OF assms(1) d, of "te_reader te c" w] p by simp
  then show ?thesis
    using loop up p assms(2,6,7) by (simp add: write_handler_def write_commit_def good_tmp_def)
qed

end

subsection \<open>Examples\<close>

definition ideal_tmp :: tmp_env where
  "ideal_tmp = \<lparr>te_create = None, te_write = (\<lambda>_ _. None), te_seek = None,
     te_reader = bytes_reader, te_close = None\<rparr>"

lemma good_ideal_tmp [simp]:
  "good_tmp ideal_tmp" "te_reader ideal_tmp = bytes_reader" "te_create ideal_tmp = None"
  "te_seek ideal_tmp = None" "te_close ideal_tmp = None" "te_write ideal_tmp c x = None"
  by (simp_all add: good_tmp_def ideal_tmp_def)

definition always_sent :: "bytes list \<Rightarrow> bytes \<Rightarrow> err option" where
  "always_sent history m = None"

text \<open>An upload of the two bytes 1 and 2 in two requests, under a digest of size 2.\<close>

definition two_digest :: digest where
  "two_digest = \<lparr>d_hash = empty_hash, d_size = 2\<rparr>"

definition two_first :: write_request where
  "two_first = \<lparr>wr_name = write_name [''main''] ''u'' two_digest [], wr_offset = 0, wr_data = [1],
     wr_finish = False\<rparr>"

definition two_rest :: "(err + write_request) list" where
  "two_rest = [Inr \<lparr>wr_name = '''', wr_offset = 1, wr_data = [2], wr_finish = True\<rparr>]"

definition two_name :: string where
  "two_name = read_name [''main''] two_digest []"

lemma valid_hash_empty: "valid_hash empty_hash"
  using valid_hash_sha256 [of "[]"] by (simp add: sha256_empty)

lemma valid_two: "validate (Some two_digest) = Ok ()"
  by (simp add: validate_ok two_digest_def valid_hash_empty)

lemma two_facts [simp]:
  "parse_write_resource (wr_name two_first) = Ok two_digest"
  "parse_read_resource two_name = Ok two_digest"
  "sized (accepted two_first two_rest)" "ends_well two_first two_rest"
  "contiguous 0 (accepted two_first two_rest)"
  "upload_data (accepted two_first two_rest) = [1, 2]"
  "\<not> is_empty (Some two_digest)" "d_size two_digest = 2"
  using parse_write_name [OF valid_two, of "[''main'']" "''u''" "[]"]
    parse_read_name [OF valid_two, of "[''main'']" "[]"]
  by (simp_all add: two_name_def segments_def two_first_def two_rest_def sized_def upload_data_def
      is_empty_def) (simp_all add: two_digest_def)

lemma two_loop: "write_loop ideal_tmp two_rest two_first [] 0 = Ok ([1, 2], 2)"
  by (simp add: write_loop.simps two_first_def two_rest_def write_one_def)

definition two_store :: mem_store where
  "two_store = new_mem_store\<lparr>ms_blobs := [empty_hash \<mapsto> [1, 2]]\<rparr>"

lemma two_stored:
  "write_handler ideal_tmp (mem_ops pb) new_mem_store (Inr two_first # two_rest) = (Ok 2, two_store)"
  by (simp add: write_handler_def two_loop write_commit_def mem_put_stream_def mem_put_def)
     (simp add: two_store_def new_mem_store_def two_digest_def)

lemma two_lookup [simp]: "lookup_blob (mem_view two_store) (Some two_digest) = Some [1, 2]"
  by (simp add: lookup_blob_def two_store_def) (simp add: two_digest_def)

subsection \<open>Properties\<close>

text \<open>
  C28.  \<^verbatim>\<open>Read\<close> over any store that meets the contract: when it ends without error the blob is
  present and the messages, each of at most 1 MiB and none empty, make up exactly the requested
  window of it; and it changes no blob.
\<close>

theorem read_sends_window:
  assumes "blob_store st pb si okd vw" and "si s" and "good_range off lim"
    and "read_handler st send s name off lim = ((Ok (), out), s')"
  shows "vw s' = vw s \<and> (\<forall>c \<in> set out. 0 < length c \<and> length c \<le> 1024 * 1024) \<and>
    (\<exists>d b. parse_read_resource name = Ok d \<and> lookup_blob (vw s) (Some d) = Some b \<and>
      concat out = window off lim b)"
  using blob_store.read_handler_law [OF assms] by (simp add: read_chunk_size_def)

theorem read_sends_window_witness:
  "\<exists>d b. parse_read_resource two_name = Ok d \<and> lookup_blob (mem_view two_store) (Some d) = Some b \<and>
    concat (chunks read_chunk_size ([2] :: bytes)) = window 1 5 b"
proof -
  have "mem_view two_store = mem_view two_store \<and>
    (\<forall>c \<in> set (chunks read_chunk_size ([2] :: bytes)). 0 < length c \<and> length c \<le> 1024 * 1024) \<and>
    (\<exists>d b. parse_read_resource two_name = Ok d \<and> lookup_blob (mem_view two_store) (Some d) = Some b \<and>
      concat (chunks read_chunk_size ([2] :: bytes)) = window 1 5 b)"
  proof (rule read_sends_window [OF mem.blob_store_axioms])
    show "read_handler (mem_ops example_codec) always_sent two_store two_name 1 5 =
        ((Ok (), chunks read_chunk_size [2]), two_store)"
      using read_mem_present [of always_sent two_name two_digest 1 two_store "[1, 2]" example_codec 5]
      by (simp add: always_sent_def window_def)
  qed (simp_all add: good_range_def)
  then show ?thesis by blast
qed

text \<open>
  \<^verbatim>\<open>Read\<close> over the in-memory store, with a client that stays connected: a present blob is sent
  as the chunks of the requested window, and an absent one is answered \<^verbatim>\<open>NotFound\<close> with nothing
  sent.
\<close>

theorem read_mem_exact:
  assumes "\<forall>h m. send h m = None" and "parse_read_resource name = Ok d" and "0 \<le> sint off"
  shows "read_handler (mem_ops pb) send m name off lim =
    (case lookup_blob (mem_view m) (Some d) of
       Some b \<Rightarrow> ((Ok (), chunks (1024 * 1024) (window off lim b)), m)
     | None \<Rightarrow> ((Err (StatusErr NotFound ''blob %s not found'' [key (Some d)] None), []), m))"
  using assms read_mem_present [of send name d off m _ pb lim] read_mem_absent [of name d m pb send off lim]
  by (simp add: read_chunk_size_def split: option.split)

theorem read_mem_exact_witness:
  "read_handler (mem_ops example_codec) always_sent two_store two_name 1 0 =
    (case lookup_blob (mem_view two_store) (Some two_digest) of
       Some b \<Rightarrow> ((Ok (), chunks (1024 * 1024) (window 1 0 b)), two_store)
     | None \<Rightarrow> ((Err (StatusErr NotFound ''blob %s not found'' [key (Some two_digest)] None), []),
               two_store))"
  by (rule read_mem_exact) (simp_all add: always_sent_def)

text \<open>
  \<^verbatim>\<open>Read\<close> passes the client's offset to the store unchecked: a negative offset on a blob
  present in the in-memory store is a slice out of range, so the handler panics.
\<close>

theorem read_negative_offset_panics:
  assumes "parse_read_resource name = Ok d" and "lookup_blob (mem_view m) (Some d) \<noteq> None"
    and "sint off < 0"
  shows "fst (fst (read_handler (mem_ops pb) send m name off lim)) = Panic"
proof -
  obtain b where "lookup_blob (mem_view m) (Some d) = Some b" using assms(2) by auto
  from mem_reader_negative [OF this assms(3), of lim] show ?thesis
    using assms(1) by (cases "mem_reader m (Some d) off lim") (simp add: read_handler_def)
qed

theorem read_negative_offset_panics_witness:
  "fst (fst (read_handler (mem_ops example_codec) always_sent two_store two_name (- 1) 0)) = Panic"
  by (rule read_negative_offset_panics [of _ two_digest]) simp_all

text \<open>
  C27.  \<^verbatim>\<open>Write\<close> over any store that meets the contract: a committed upload was a contiguous
  sequence of requests whose data has the declared size, ended by \<^verbatim>\<open>finish_write\<close> or by the end of
  the stream, and the store then holds exactly the concatenated data under the digest of the
  resource name.
\<close>

theorem write_commits_upload:
  assumes "blob_store st pb si okd vw" and "si s" and "sized (accepted req recvs)"
    and "\<forall>b. read_all (te_reader te b) = Ok b"
    and "write_handler te st s (Inr req # recvs) = (Ok n, s')"
  shows "\<exists>d. parse_write_resource (wr_name req) = Ok d \<and> validate (Some d) = Ok () \<and> n = d_size d \<and>
    n = of_nat (length (upload_data (accepted req recvs))) \<and>
    contiguous 0 (accepted req recvs) \<and> ends_well req recvs \<and>
    vw s' = put_blob (vw s) (Some d) (upload_data (accepted req recvs))"
  using blob_store.write_handler_law [OF assms(1,2,3) _ assms(5)] assms(4) parse_write_valid
  by blast

theorem write_commits_upload_witness:
  "\<exists>d. parse_write_resource (wr_name two_first) = Ok d \<and> validate (Some d) = Ok () \<and> 2 = d_size d \<and>
    2 = (of_nat (length (upload_data (accepted two_first two_rest))) :: int64) \<and>
    contiguous 0 (accepted two_first two_rest) \<and> ends_well two_first two_rest \<and>
    mem_view two_store =
      put_blob (mem_view new_mem_store) (Some d) (upload_data (accepted two_first two_rest))"
  by (rule write_commits_upload [OF mem.blob_store_axioms _ _ _ two_stored [of example_codec]]) simp_all

text \<open>
  C2.  Over the in-memory store an upload sent as the API asks is committed, and a \<^verbatim>\<open>Read\<close> of the
  whole blob then sends the uploaded bytes back (nothing, for the empty digest), in chunks of at most 1 MiB.
\<close>

theorem upload_download:
  assumes "good_tmp te" and "sized (accepted req recvs)" and "ends_well req recvs"
    and "contiguous 0 (accepted req recvs)" and "parse_write_resource (wr_name req) = Ok d"
    and "d_size d = of_nat (length (upload_data (accepted req recvs)))"
    and "parse_read_resource name = Ok d" and "\<forall>h m. send h m = None"
  shows "\<exists>m'. write_handler te (mem_ops pb) m (Inr req # recvs) = (Ok (d_size d), m') \<and>
    read_handler (mem_ops pb) send m' name 0 0 =
      ((Ok (), chunks read_chunk_size
                 (if is_empty (Some d) then [] else upload_data (accepted req recvs))), m')"
proof -
  obtain res m' where w: "write_handler te (mem_ops pb) m (Inr req # recvs) = (res, m')" by fastforce
  then have res: "res = Ok (d_size d)"
    using mem.write_handler_good [OF _ assms(1-6), where s = m and pb = pb] by simp
  have "read_all (te_reader te b) = Ok b" for b using assms(1) by (simp add: good_tmp_def)
  then have "mem_view m' = put_blob (mem_view m) (Some d) (upload_data (accepted req recvs))"
    using mem.write_handler_law [OF _ assms(2) _ w] assms(5) res by auto
  then have "lookup_blob (mem_view m') (Some d) =
      Some (if is_empty (Some d) then [] else upload_data (accepted req recvs))"
    by (simp add: lookup_put_same)
  from read_mem_present [OF _ assms(7) _ this, of send 0 pb 0] show ?thesis
    using assms(8) w res by (simp add: window_def)
qed

theorem upload_download_witness:
  "\<exists>m'. write_handler ideal_tmp (mem_ops example_codec) new_mem_store (Inr two_first # two_rest) =
      (Ok (d_size two_digest), m') \<and>
    read_handler (mem_ops example_codec) always_sent m' two_name 0 0 =
      ((Ok (), chunks read_chunk_size
         (if is_empty (Some two_digest) then [] else upload_data (accepted two_first two_rest))), m')"
  by (rule upload_download) (simp_all add: always_sent_def)

text \<open>
  C35.  \<^verbatim>\<open>Write\<close> never compares the hash of the data with the digest, as \<^verbatim>\<open>BatchUpdateBlobs\<close> does:
  an upload of two bytes under the hash of the empty blob is committed, and the store is no
  longer content-addressed.
\<close>

theorem write_skips_hash_check:
  "content_addressed (mem_view new_mem_store) \<and>
    (\<exists>m. write_handler ideal_tmp (mem_ops example_codec) new_mem_store (Inr two_first # two_rest) = (Ok 2, m) \<and>
      lookup_blob (mem_view m) (Some two_digest) = Some [1, 2] \<and>
      from_bytes [1, 2] \<noteq> two_digest \<and> \<not> content_addressed (mem_view m))"
proof -
  have "sha256 [1, 2] =
    [161, 40, 113, 254, 226, 16, 251, 134,
     25, 41, 30, 174, 161, 148, 88, 28,
     189, 37, 49, 228, 178, 55, 89, 210,
     37, 246, 128, 105, 35, 246, 50, 34]"
    by code_simp
  then have "hex_encode (sha256 [1, 2]) \<noteq> empty_hash"
    by (simp add: hex_encode_def hex_byte_def hex_chars_def empty_hash_def)
  moreover have "v_blobs (mem_view two_store) empty_hash = Some [1, 2]"
    by (simp add: two_store_def)
  ultimately have "\<not> content_addressed (mem_view two_store)" "from_bytes [1, 2] \<noteq> two_digest"
    by (auto simp: content_addressed_def from_bytes_def two_digest_def)
  then show ?thesis
    using two_stored [of example_codec] by (simp add: content_addressed_def new_mem_store_def)
qed

end
