(* ===== verification/Concurrent.thy ===== *)
theory Concurrent
  imports Goroutine ByteStream
begin

text \<open>
  The server at work: the goroutines of all actions, the streams of all clients, uploads of action
  results, cancellations, deletions and every other request, interleaved one access to shared state
  at a time.
\<close>

subsection \<open>The state\<close>

text \<open>
  \<open>sys_admitted\<close> are the calls of \<^verbatim>\<open>Execute\<close> that have fetched their action and not registered it yet.
  A goroutine comes with what it has published; its entry is in the heap of the manager at \<open>go_addr\<close>; a
  stream of \<^verbatim>\<open>Execute\<close> or \<^verbatim>\<open>WaitExecution\<close> is the address of the entry it watches and its own state, and so is
  a call of \<^verbatim>\<open>WaitOperation\<close>.  \<open>sys_past\<close> (the worlds so far),
  \<open>sys_uploads\<close> and \<open>go_log\<close> are history, for the statements.
\<close>

record goroutine =
  go_name :: string
  go_req :: execute_request
  go_action :: action
  go_addr :: nat
  go_pc :: go_pc
  go_log :: "operation list"

record 's sys =
  sys_server :: "'s server"
  sys_world :: 's
  sys_admitted :: "(execute_request \<times> action) list"
  sys_gos :: "goroutine list"
  sys_streams :: "(nat \<times> stream_state) list"
  sys_waits :: "(nat \<times> wait_pc) list"
  sys_past :: "'s list"
  sys_uploads :: "(digest_ptr \<times> action_result) list"

abbreviation go_digest :: "goroutine \<Rightarrow> digest_ptr" where
  "go_digest g \<equiv> xr_action_digest (go_req g)"

definition sys_start :: "'s server \<Rightarrow> 's \<Rightarrow> 's sys" where
  "sys_start sv w =
     \<lparr>sys_server = sv, sys_world = w, sys_admitted = [], sys_gos = [],
      sys_streams = [], sys_waits = [], sys_past = [], sys_uploads = []\<rparr>"

definition moved :: "'s sys \<Rightarrow> 's \<Rightarrow> 's sys" where
  "moved y w = y\<lparr>sys_world := w, sys_past := sys_past y @ [sys_world y]\<rparr>"

definition worlds_of :: "'s sys \<Rightarrow> 's set" where
  "worlds_of y = insert (sys_world y) (set (sys_past y))"

definition on_ops :: "(op_manager \<Rightarrow> op_manager) \<Rightarrow> 's sys \<Rightarrow> 's sys" where
  "on_ops f y = y\<lparr>sys_server := (sys_server y)\<lparr>sv_ops := f (sv_ops (sys_server y))\<rparr>\<rparr>"

definition on_go :: "nat \<Rightarrow> (goroutine \<Rightarrow> goroutine) \<Rightarrow> 's sys \<Rightarrow> 's sys" where
  "on_go i f y = y\<lparr>sys_gos := (sys_gos y)[i := f (sys_gos y ! i)]\<rparr>"

definition entry_at :: "'s sys \<Rightarrow> nat \<Rightarrow> op_entry" where
  "entry_at y a = om_entries (sv_ops (sys_server y)) ! a"

definition new_go :: "string \<Rightarrow> execute_request \<Rightarrow> action \<Rightarrow> nat \<Rightarrow> goroutine" where
  "new_go name req a addr =
     \<lparr>go_name = name, go_req = req, go_action = a, go_addr = addr, go_pc = go_start name req a, go_log = []\<rparr>"

subsection \<open>The steps\<close>

text \<open>
  The runner is called on a world of its own (\<open>w1\<close>, one that \<open>winv\<close> admits) and takes its time: what it does
  to the shared world, like what other requests do, are steps of \<open>env\<close>.  A canceled context shows in
  the errors of the runner and of the store.
\<close>

inductive sys_step :: "codec \<Rightarrow> ('s \<Rightarrow> bool) \<Rightarrow> ('s \<Rightarrow> 's \<Rightarrow> bool) \<Rightarrow> 's sys \<Rightarrow> 's sys \<Rightarrow> bool"
  for pb winv env where
  sy_admit:
    "admit pb (sys_server y) (sys_world y) req = (Ok (run, a), w) \<Longrightarrow>
     sys_step pb winv env y ((moved y w)\<lparr>sys_admitted := sys_admitted y @ [(req, a)]\<rparr>)"
| sy_refuse: "admit pb (sys_server y) (sys_world y) req = (Err e, w) \<Longrightarrow> sys_step pb winv env y (moved y w)"
| sy_register:
    "i < length (sys_admitted y) \<Longrightarrow> sys_admitted y ! i = (req, a) \<Longrightarrow>
     om_new (sv_ops (sys_server y)) uuid True = (addr, om) \<Longrightarrow>
     sys_step pb winv env y
       (y\<lparr>sys_server := (sys_server y)\<lparr>sv_ops := om\<rparr>, sys_admitted := take i (sys_admitted y) @ drop (Suc i) (sys_admitted y),
          sys_gos := sys_gos y @ [new_go uuid req a addr], sys_streams := sys_streams y @ [(addr, stream_init)]\<rparr>)"
| sy_publish:
    "i < length (sys_gos y) \<Longrightarrow> go_pc (sys_gos y ! i) = Publish op k \<Longrightarrow>
     sys_step pb winv env y
       (on_go i (\<lambda>g. g\<lparr>go_pc := k, go_log := go_log g @ [op]\<rparr>)
         (on_ops (\<lambda>m. om_update m (go_addr (sys_gos y ! i)) (\<lambda>e. publish_new e op)) y))"
| sy_call:
    "i < length (sys_gos y) \<Longrightarrow> g = sys_gos y ! i \<Longrightarrow> go_pc g \<in> {Check, Fetch} \<union> range Put \<Longrightarrow>
     go_call pb (sv_store (sys_server y)) (go_name g) (go_digest g) (go_action g) (go_pc g) (sys_world y) = (Some k, w) \<Longrightarrow>
     sys_step pb winv env y (on_go i (\<lambda>g. g\<lparr>go_pc := k\<rparr>) (moved y w))"
| sy_run:
    "i < length (sys_gos y) \<Longrightarrow> g = sys_gos y ! i \<Longrightarrow> go_pc g = Run cmd \<Longrightarrow>
     sv_exec (sys_server y) = Some run \<Longrightarrow> winv w1 \<Longrightarrow>
     run w1 cmd (a_input_root (go_action g)) (action_timeout (go_action g)) = (r, w2) \<Longrightarrow>
     go_ran (go_name g) (go_digest g) (go_action g) r = Some k \<Longrightarrow>
     sys_step pb winv env y (on_go i (\<lambda>g. g\<lparr>go_pc := k\<rparr>) y)"
| sy_other: "env (sys_world y) w \<Longrightarrow> sys_step pb winv env y (moved y w)"
| sy_upload:
    "update_action_result (sv_store (sys_server y)) (sys_world y) d (Some ar) = (r, w) \<Longrightarrow>
     sys_step pb winv env y ((moved y w)\<lparr>sys_uploads := sys_uploads y @ [(d, ar)]\<rparr>)"
| sy_cancel: "sys_step pb winv env y (on_ops (\<lambda>m. snd (cancel_operation m name)) y)"
| sy_delete: "sys_step pb winv env y (on_ops (\<lambda>m. snd (delete_operation m name)) y)"
| sy_join:
    "wait_execution (sys_server y) name = Ok a \<Longrightarrow>
     sys_step pb winv env y (y\<lparr>sys_streams := sys_streams y @ [(a, stream_init)]\<rparr>)"
| sy_stream:
    "i < length (sys_streams y) \<Longrightarrow> sys_streams y ! i = (a, ss) \<Longrightarrow> stream_step (entry_at y a) ss ss' \<Longrightarrow>
     sys_step pb winv env y (y\<lparr>sys_streams := (sys_streams y)[i := (a, ss')]\<rparr>)"
| sy_await:
    "wait_operation (sv_ops (sys_server y)) name = Ok a \<Longrightarrow>
     sys_step pb winv env y (y\<lparr>sys_waits := sys_waits y @ [(a, WLooping)]\<rparr>)"
| sy_wait:
    "i < length (sys_waits y) \<Longrightarrow> sys_waits y ! i = (a, pc) \<Longrightarrow> wait_step (entry_at y a) pc pc' \<Longrightarrow>
     sys_step pb winv env y (y\<lparr>sys_waits := (sys_waits y)[i := (a, pc')]\<rparr>)"

inductive_cases sys_stepE: "sys_step pb winv env y y'"

inductive sys_reach :: "codec \<Rightarrow> ('s \<Rightarrow> bool) \<Rightarrow> ('s \<Rightarrow> 's \<Rightarrow> bool) \<Rightarrow> 's server \<Rightarrow> 's \<Rightarrow> 's sys \<Rightarrow> bool"
  for pb winv env sv w where
  sr_start: "sys_reach pb winv env sv w (sys_start sv w)"
| sr_step: "sys_reach pb winv env sv w y \<Longrightarrow> sys_step pb winv env y y' \<Longrightarrow> sys_reach pb winv env sv w y'"

text \<open>\<^verbatim>\<open>Execute\<close> that nothing interrupts takes two of these steps.\<close>

lemma execute_steps:
  assumes "execute pb (sys_server y) (sys_world y) uuid req = ((Ok (run, a, addr), sv), w)"
  shows "\<exists>y'. sys_step pb winv env y y' \<and>
    sys_step pb winv env y' ((moved y w)\<lparr>sys_server := sv, sys_gos := sys_gos y @ [new_go uuid req a addr],
      sys_streams := sys_streams y @ [(addr, stream_init)]\<rparr>)"
proof -
  obtain om where admit: "admit pb (sys_server y) (sys_world y) req = (Ok (run, a), w)"
    and om: "om_new (sv_ops (sys_server y)) uuid True = (addr, om)" "sv = (sys_server y)\<lparr>sv_ops := om\<rparr>"
    using assms by (auto simp: execute_def split: prod.splits res.splits)
  let ?y = "(moved y w)\<lparr>sys_admitted := sys_admitted y @ [(req, a)]\<rparr>"
  have "sys_step pb winv env ?y (?y\<lparr>sys_server := (sys_server ?y)\<lparr>sv_ops := om\<rparr>,
      sys_admitted := take (length (sys_admitted y)) (sys_admitted ?y) @ drop (Suc (length (sys_admitted y))) (sys_admitted ?y),
      sys_gos := sys_gos ?y @ [new_go uuid req a addr], sys_streams := sys_streams ?y @ [(addr, stream_init)]\<rparr>)"
    by (rule sy_register) (simp_all add: om(1) moved_def)
  with sy_admit [OF admit, of winv env] show ?thesis
    by (intro exI [of _ ?y]) (simp add: om(2) moved_def)
qed

subsection \<open>The other requests\<close>

text \<open>
  One access of any other request, or of a MicroVM: a call of the store that is no upload of an
  action result, with a digest and a range the store is made for, or a whole run.
\<close>

inductive other_step :: "'s store \<Rightarrow> (digest_ptr \<Rightarrow> bool) \<Rightarrow> 's runner \<Rightarrow> 's \<Rightarrow> 's \<Rightarrow> bool" for st okd run where
  os_contains: "okd d \<Longrightarrow> st_contains st s d = (r, s') \<Longrightarrow> other_step st okd run s s'"
| os_get: "okd d \<Longrightarrow> st_get st s d = (r, s') \<Longrightarrow> other_step st okd run s s'"
| os_reader: "okd d \<Longrightarrow> good_range off lim \<Longrightarrow> st_reader st s d off lim = (r, s') \<Longrightarrow> other_step st okd run s s'"
| os_put: "okd d \<Longrightarrow> st_put st s d b = (r, s') \<Longrightarrow> other_step st okd run s s'"
| os_put_stream: "okd d \<Longrightarrow> st_put_stream st s d n rd = (r, s') \<Longrightarrow> read_all rd = Ok b \<Longrightarrow> other_step st okd run s s'"
| os_get_ar: "okd d \<Longrightarrow> st_get_ar st s d = (r, s') \<Longrightarrow> other_step st okd run s s'"
| os_run: "run s cmd root timeout = (r, s') \<Longrightarrow> other_step st okd run s s'"

end
