(* ===== verification/ConcurrentLaws.thy ===== *)
theory ConcurrentLaws
  imports Concurrent
begin

text \<open>
  What holds in every state the server reaches: each entry shows the updates of its goroutine, each
  stream watches them, and each entry of the action cache has a source.  The locale \<open>busy_server\<close>
  asks of everything else that happens that it keeps the store's invariant and the action cache.
\<close>

subsection \<open>What holds at every moment\<close>

text \<open>
  At some moment of the run the store held the action under the digest asked for, and the command
  under the digest in the action; a result is one the runner gives for the command.
\<close>

definition action_seen :: "codec \<Rightarrow> ('s \<Rightarrow> view) \<Rightarrow> 's set \<Rightarrow> digest_ptr \<Rightarrow> action \<Rightarrow> bool" where
  "action_seen pb vw S d a \<longleftrightarrow>
     (\<exists>w \<in> S. \<exists>data. lookup_blob (vw w) d = Some data \<and> unmarshal_action pb data = Inr a)"

definition cmd_seen :: "codec \<Rightarrow> ('s \<Rightarrow> view) \<Rightarrow> 's set \<Rightarrow> action \<Rightarrow> command \<Rightarrow> bool" where
  "cmd_seen pb vw S a cmd \<longleftrightarrow>
     (\<exists>w \<in> S. \<exists>data. lookup_blob (vw w) (a_command_digest a) = Some data \<and> unmarshal_cmd pb data = Inr cmd)"

definition gave :: "('s \<Rightarrow> bool) \<Rightarrow> 's runner \<Rightarrow> action \<Rightarrow> command \<Rightarrow> action_result \<Rightarrow> bool" where
  "gave winv run a cmd ar \<longleftrightarrow>
     (\<exists>w1 w2. winv w1 \<and> run w1 cmd (a_input_root a) (action_timeout a) = (Ok ar, w2))"

text \<open>A result that may be cached for an action.\<close>

definition earned ::
    "codec \<Rightarrow> ('s \<Rightarrow> view) \<Rightarrow> ('s \<Rightarrow> bool) \<Rightarrow> 's runner \<Rightarrow> 's set \<Rightarrow> action \<Rightarrow> action_result \<Rightarrow> bool" where
  "earned pb vw winv run S a ar \<longleftrightarrow>
     \<not> a_do_not_cache a \<and> ar_exit_code ar = 0 \<and> (\<exists>cmd. cmd_seen pb vw S a cmd \<and> gave winv run a cmd ar)"

fun pc_src ::
    "codec \<Rightarrow> ('s \<Rightarrow> view) \<Rightarrow> ('s \<Rightarrow> bool) \<Rightarrow> 's runner \<Rightarrow> 's set \<Rightarrow> action \<Rightarrow> go_pc \<Rightarrow> bool" where
  "pc_src pb vw winv run S a (Publish op k) = pc_src pb vw winv run S a k"
| "pc_src pb vw winv run S a (Run cmd) = cmd_seen pb vw S a cmd"
| "pc_src pb vw winv run S a (Put ar) = earned pb vw winv run S a ar"
| "pc_src pb vw winv run S a pc = True"

text \<open>What was published, given what is still to come.\<close>

fun pc_plan :: "string \<Rightarrow> digest_ptr \<Rightarrow> go_pc \<Rightarrow> operation list \<Rightarrow> bool" where
  "pc_plan name d (Publish op k) log = pc_plan name d k (log @ [op])"
| "pc_plan name d Check log = (log = [operation_msg name d CacheCheck None])"
| "pc_plan name d Fetch log = (log = [operation_msg name d CacheCheck None])"
| "pc_plan name d (Run cmd) log =
     (log = [operation_msg name d CacheCheck None, operation_msg name d Executing None])"
| "pc_plan name d (Put ar) log =
     (log = [operation_msg name d CacheCheck None, operation_msg name d Executing None])"
| "pc_plan name d Ended log = well_formed_ops name d log"

lemma plan_not_done: "pc_plan name d pc log \<Longrightarrow> pc \<noteq> Ended \<Longrightarrow> \<forall>op \<in> set log. \<not> op_done op"
proof (induction pc arbitrary: log)
  case (Publish op k)
  show ?case
  proof (cases "k = Ended")
    case True
    with Publish.prems well_formed_butlast [of name d "log @ [op]"] show ?thesis by simp
  next
    case False
    with Publish.IH [of "log @ [op]"] Publish.prems show ?thesis by simp
  qed
qed simp_all

lemma plan_start: "pc_plan name (xr_action_digest req) (go_start name req a) []"
  by (simp add: go_start_def)

lemma plan_last:
  "well_formed_ops name d [operation_msg name d CacheCheck None, completed name d resp]"
  "well_formed_ops name d
     [operation_msg name d CacheCheck None, operation_msg name d Executing None, completed name d resp]"
  by (simp_all add: well_formed_ops_def)

lemma plan_ran:
  assumes "go_ran name d a r = Some k" "pc_plan name d (Run cmd) log"
  shows "pc_plan name d k log"
  using assms by (auto simp: go_ran_def result_op_def failed_def plan_last split: res.splits if_splits)

lemma plan_call:
  assumes "go_call pb st name d a pc s = (Some k, s')" "pc_plan name d pc log"
  shows "pc_plan name d k log"
  using assms
  by (cases pc) (auto simp: result_op_def failed_def plan_last split: prod.splits res.splits sum.splits)

lemma ran_rank: "go_ran name d a r = Some k \<Longrightarrow> go_rank k < go_rank (Run cmd)"
  by (auto simp: go_ran_def split: res.splits if_splits)

lemma call_rank:
  "go_call pb st name d a pc s = (Some k, s') \<Longrightarrow> pc \<in> {Check, Fetch} \<union> range Put \<Longrightarrow> go_rank k < go_rank pc"
  by (cases pc) (auto split: prod.splits res.splits sum.splits)

text \<open>Whatever was published names the operation and its action, in the order of the stages.\<close>

lemma plan_log:
  "pc_plan name d pc log \<Longrightarrow>
    sorted_wrt (\<lambda>x y. op_stage x < op_stage y) log \<and> list_all (\<lambda>op. op_name op = name \<and> op_action op = d) log"
proof (induction pc arbitrary: log)
  case (Publish op k)
  with Publish.IH [of "log @ [op]"] show ?case by (simp add: sorted_wrt_append)
qed (auto simp: well_formed_ops_def list_all_iff)

lemma plan_visible: "pc_plan name d pc log \<Longrightarrow> visible log = log"
  using plan_not_done [of name d pc log] well_formed_butlast [of name d log] visible_all [of log]
  by (cases "pc = Ended") (auto dest: in_set_butlastD)

lemma plan_done: "pc_plan name d pc log \<Longrightarrow> (\<exists>op \<in> set log. op_done op) \<longleftrightarrow> pc = Ended"
  using plan_not_done [of name d pc log] well_formed_take [of name d log "length log"]
  by (cases "pc = Ended") auto

lemma worlds_moved [simp]: "worlds_of (moved y w) = insert w (worlds_of y)"
  by (auto simp: worlds_of_def moved_def)

lemma moved_sel [simp]:
  "sys_server (moved y w) = sys_server y" "sys_world (moved y w) = w" "sys_gos (moved y w) = sys_gos y"
  "sys_admitted (moved y w) = sys_admitted y" "sys_streams (moved y w) = sys_streams y" "sys_waits (moved y w) = sys_waits y" "sys_uploads (moved y w) = sys_uploads y"
  by (simp_all add: moved_def)

lemma worlds_cong: "sys_world y' = sys_world y \<Longrightarrow> sys_past y' = sys_past y \<Longrightarrow> worlds_of y' = worlds_of y"
  by (simp add: worlds_of_def)

lemma on_ops_sel [simp]:
  "sys_server (on_ops f y) = (sys_server y)\<lparr>sv_ops := f (sv_ops (sys_server y))\<rparr>"
  "sys_world (on_ops f y) = sys_world y" "sys_gos (on_ops f y) = sys_gos y"
  "sys_admitted (on_ops f y) = sys_admitted y" "sys_streams (on_ops f y) = sys_streams y" "sys_waits (on_ops f y) = sys_waits y" "sys_past (on_ops f y) = sys_past y"
  "sys_uploads (on_ops f y) = sys_uploads y"
  by (simp_all add: on_ops_def)

lemma on_go_sel [simp]:
  "sys_server (on_go i f y) = sys_server y" "sys_world (on_go i f y) = sys_world y"
  "sys_gos (on_go i f y) = (sys_gos y)[i := f (sys_gos y ! i)]"
  "sys_admitted (on_go i f y) = sys_admitted y" "sys_streams (on_go i f y) = sys_streams y" "sys_waits (on_go i f y) = sys_waits y" "sys_past (on_go i f y) = sys_past y"
  "sys_uploads (on_go i f y) = sys_uploads y"
  by (simp_all add: on_go_def)

text \<open>
  A call of \<^verbatim>\<open>WaitOperation\<close>: it waits for a channel that is closed or belongs to an operation not done,
  and returns the final update or the error of its context.
\<close>

fun wait_ok :: "operation list \<Rightarrow> wait_pc \<Rightarrow> bool" where
  "wait_ok log WLooping = True"
| "wait_ok log (WWaiting ch) =
     (ch < length log \<or> ch = length log \<and> (\<forall>op \<in> set log. \<not> op_done op))"
| "wait_ok log (WReturned r) =
     (case r of
        Ok op \<Rightarrow> log \<noteq> [] \<and> op = Some (last log) \<and> op_done (last log)
      | Err e \<Rightarrow> e \<in> {CtxCanceled, CtxDeadlineExceeded}
      | Panic \<Rightarrow> False)"

lemma wait_ok_publish: "wait_ok log pc \<Longrightarrow> \<forall>op \<in> set log. \<not> op_done op \<Longrightarrow> wait_ok (log @ [op]) pc"
  by (cases pc) (auto split: res.splits)

lemma wait_canceled: "wait_step (e\<lparr>oe_canceled := c\<rparr>) pc pc' = wait_step e pc pc'"
  by (simp add: wait_step.simps snapshot_def closed_def)

lemma wait_ok_step:
  assumes "wait_step (published c log) pc pc'" "wait_ok log pc" "visible log = log"
  shows "wait_ok log pc'"
  using assms(1)
proof cases
  case (wt_done op ch)
  then have "\<exists>x \<in> set log. op_done x" by (simp add: snapshot_def published_done)
  moreover from this have "op_done (last log)" "log \<noteq> []" using visible_done [of log] assms(3) by auto
  ultimately show ?thesis using wt_done by (auto simp: snapshot_def published_eq assms(3))
next
  case (wt_block op ch)
  then show ?thesis by (auto simp: snapshot_def published_eq assms(3))
qed (use assms(2) in auto)

definition gor_ok ::
    "codec \<Rightarrow> ('s \<Rightarrow> view) \<Rightarrow> ('s \<Rightarrow> bool) \<Rightarrow> 's runner \<Rightarrow> 's set \<Rightarrow> op_entry \<Rightarrow> goroutine \<Rightarrow> bool" where
  "gor_ok pb vw winv run S e g \<longleftrightarrow>
     validate (go_digest g) = Ok () \<and> go_rank (go_pc g) \<le> 7 \<and>
     (\<exists>c. e = (published True (go_log g))\<lparr>oe_canceled := c\<rparr>) \<and>
     pc_plan (go_name g) (go_digest g) (go_pc g) (go_log g) \<and>
     action_seen pb vw S (go_digest g) (go_action g) \<and>
     pc_src pb vw winv run S (go_action g) (go_pc g)"

text \<open>A call of \<^verbatim>\<open>Execute\<close> that goes on has a valid digest and read its action from the store.\<close>

definition admitted_ok :: "codec \<Rightarrow> ('s \<Rightarrow> view) \<Rightarrow> 's set \<Rightarrow> (execute_request \<times> action) list \<Rightarrow> bool" where
  "admitted_ok pb vw S xs \<longleftrightarrow>
     (\<forall>req a. (req, a) \<in> set xs \<longrightarrow> validate (xr_action_digest req) = Ok () \<and> action_seen pb vw S (xr_action_digest req) a)"

text \<open>Where an entry of the action cache comes from.\<close>

definition entry_from ::
    "codec \<Rightarrow> ('s \<Rightarrow> view) \<Rightarrow> ('s \<Rightarrow> bool) \<Rightarrow> 's runner \<Rightarrow> 's \<Rightarrow> 's sys \<Rightarrow> string \<Rightarrow> bytes \<Rightarrow> bool" where
  "entry_from pb vw winv run w0 y h b \<longleftrightarrow>
     v_acs (vw w0) h = Some b \<or>
     (\<exists>d ar. (d, ar) \<in> set (sys_uploads y) \<and> validate d = Ok () \<and> get_hash d = h \<and> marshal_ar pb ar = Inr b) \<or>
     (\<exists>g ar. g \<in> set (sys_gos y) \<and> get_hash (go_digest g) = h \<and> marshal_ar pb ar = Inr b \<and>
        action_seen pb vw (worlds_of y) (go_digest g) (go_action g) \<and>
        earned pb vw winv run (worlds_of y) (go_action g) ar)"

definition cache_from ::
    "codec \<Rightarrow> ('s \<Rightarrow> view) \<Rightarrow> ('s \<Rightarrow> bool) \<Rightarrow> 's runner \<Rightarrow> 's \<Rightarrow> 's sys \<Rightarrow> bool" where
  "cache_from pb vw winv run w0 y \<longleftrightarrow>
     (\<forall>h b. v_acs (vw (sys_world y)) h = Some b \<longrightarrow> entry_from pb vw winv run w0 y h b)"

lemma seen_mono:
  assumes "S \<subseteq> S'"
  shows "action_seen pb vw S d a \<Longrightarrow> action_seen pb vw S' d a" "cmd_seen pb vw S a cmd \<Longrightarrow> cmd_seen pb vw S' a cmd"
    "earned pb vw winv run S a ar \<Longrightarrow> earned pb vw winv run S' a ar"
  using assms by (auto simp: action_seen_def cmd_seen_def earned_def)

lemma admitted_mono: "S \<subseteq> S' \<Longrightarrow> admitted_ok pb vw S xs \<Longrightarrow> admitted_ok pb vw S' xs"
  by (auto simp: admitted_ok_def intro: seen_mono)

lemma admitted_insert: "admitted_ok pb vw S xs \<Longrightarrow> admitted_ok pb vw (insert w S) xs"
  by (rule admitted_mono [OF subset_insertI])

lemma pc_src_mono: "S \<subseteq> S' \<Longrightarrow> pc_src pb vw winv run S a pc \<Longrightarrow> pc_src pb vw winv run S' a pc"
  by (induction pc) (auto intro: seen_mono)

lemma gor_ok_mono: "S \<subseteq> S' \<Longrightarrow> gor_ok pb vw winv run S e g \<Longrightarrow> gor_ok pb vw winv run S' e g"
  by (auto simp: gor_ok_def intro: seen_mono pc_src_mono)

lemma publish_canceled: "publish_new (e\<lparr>oe_canceled := c\<rparr>) op = (publish_new e op)\<lparr>oe_canceled := c\<rparr>"
  by (simp add: publish_new_def publish_def)

lemma published_snoc: "published c (ops @ [op]) = publish_new (published c ops) op"
  by (simp add: published_def)

lemma stream_canceled: "stream_step (e\<lparr>oe_canceled := c\<rparr>) ss ss' = stream_step e ss ss'"
proof -
  have "stream_look (e\<lparr>oe_canceled := c\<rparr>) ss = stream_look e ss" "closed (e\<lparr>oe_canceled := c\<rparr>) ch = closed e ch" for ch
    by (simp_all add: stream_look_def snapshot_def closed_def)
  then show ?thesis by (auto elim!: stream_stepE intro: stream_step.intros) (metis st_look)+
qed

lemma entry_from_mono:
  assumes "entry_from pb vw winv run w0 y h b"
    and "worlds_of y \<subseteq> worlds_of y'" "set (sys_uploads y) \<subseteq> set (sys_uploads y')"
    and "\<forall>g \<in> set (sys_gos y). \<exists>g' \<in> set (sys_gos y'). go_req g' = go_req g \<and> go_action g' = go_action g"
  shows "entry_from pb vw winv run w0 y' h b"
  using assms(1) unfolding entry_from_def
proof (elim disjE exE)
  fix g ar assume g: "g \<in> set (sys_gos y) \<and> get_hash (go_digest g) = h \<and> marshal_ar pb ar = Inr b \<and>
    action_seen pb vw (worlds_of y) (go_digest g) (go_action g) \<and>
    earned pb vw winv run (worlds_of y) (go_action g) ar"
  then obtain g' where "g' \<in> set (sys_gos y')" "go_req g' = go_req g" "go_action g' = go_action g"
    using assms(4) by blast
  with g seen_mono(1,3) [OF assms(2)]
  show "v_acs (vw w0) h = Some b \<or>
      (\<exists>d ar. (d, ar) \<in> set (sys_uploads y') \<and> validate d = Ok () \<and> get_hash d = h \<and> marshal_ar pb ar = Inr b) \<or>
      (\<exists>g ar. g \<in> set (sys_gos y') \<and> get_hash (go_digest g) = h \<and> marshal_ar pb ar = Inr b \<and>
         action_seen pb vw (worlds_of y') (go_digest g) (go_action g) \<and>
         earned pb vw winv run (worlds_of y') (go_action g) ar)" by metis
qed (use assms(3) in blast)+

lemma cache_from_mono:
  assumes "cache_from pb vw winv run w0 y" "v_acs (vw (sys_world y')) = v_acs (vw (sys_world y))"
    and "worlds_of y \<subseteq> worlds_of y'" "set (sys_uploads y) \<subseteq> set (sys_uploads y')"
    and "\<forall>g \<in> set (sys_gos y). \<exists>g' \<in> set (sys_gos y'). go_req g' = go_req g \<and> go_action g' = go_action g"
  shows "cache_from pb vw winv run w0 y'"
  using assms(1,2) entry_from_mono [OF _ assms(3-5)] by (simp add: cache_from_def)

text \<open>A change of one goroutine that keeps its request and its action.\<close>

lemma same_gos:
  assumes "go_req x = go_req (gs ! i)" "go_action x = go_action (gs ! i)"
  shows "\<forall>g \<in> set gs. \<exists>g' \<in> set (gs[i := x]). go_req g' = go_req g \<and> go_action g' = go_action g"
proof
  fix g assume "g \<in> set gs"
  then obtain j where j: "j < length gs" "g = gs ! j" by (metis in_set_conv_nth)
  then have "gs[i := x] ! j \<in> set (gs[i := x])" by simp
  moreover have "go_req (gs[i := x] ! j) = go_req g \<and> go_action (gs[i := x] ! j) = go_action g"
    using j assms by (cases "i = j") auto
  ultimately show "\<exists>g' \<in> set (gs[i := x]). go_req g' = go_req g \<and> go_action g' = go_action g" by blast
qed

lemma same_name: "go_name x = go_name (gs ! i) \<Longrightarrow> go_name (gs[i := x] ! a) = go_name (gs ! a)"
  by (cases "i < length gs"; cases "a = i") (simp_all add: list_update_beyond)

subsection \<open>The invariant\<close>

text \<open>Other requests and the MicroVMs keep the invariant of the world and the action cache.\<close>

locale busy_server = action_runner +
  fixes env :: "'a \<Rightarrow> 'a \<Rightarrow> bool"
  assumes env_law: "inv s \<Longrightarrow> env s s' \<Longrightarrow> inv s' \<and> v_acs (vw s') = v_acs (vw s)"
begin

definition streams_ok :: "'a sys \<Rightarrow> bool" where
  "streams_ok y \<longleftrightarrow>
     (\<forall>a ss. (a, ss) \<in> set (sys_streams y) \<longrightarrow> a < length (sys_gos y) \<and>
        watching True (go_log (sys_gos y ! a))
          \<lparr>wt_entry = published True (go_log (sys_gos y ! a)), wt_stream = ss\<rparr>)"

definition waits_ok :: "'a sys \<Rightarrow> bool" where
  "waits_ok y \<longleftrightarrow>
     (\<forall>a pc. (a, pc) \<in> set (sys_waits y) \<longrightarrow> a < length (sys_gos y) \<and> wait_ok (go_log (sys_gos y ! a)) pc)"

definition gos_ok :: "'a sys \<Rightarrow> bool" where
  "gos_ok y \<longleftrightarrow>
     length (om_entries (sv_ops (sys_server y))) = length (sys_gos y) \<and>
     (\<forall>i < length (sys_gos y). go_addr (sys_gos y ! i) = i \<and>
        gor_ok pb vw inv run (worlds_of y) (entry_at y i) (sys_gos y ! i))"

text \<open>A name finds the entry of the goroutine that has it.\<close>

definition names_ok :: "'a sys \<Rightarrow> bool" where
  "names_ok y \<longleftrightarrow> (\<forall>name a. om_ops (sv_ops (sys_server y)) name = Some a \<longrightarrow> go_name (sys_gos y ! a) = name)"

definition sys_ok :: "'a \<Rightarrow> 'a sys \<Rightarrow> bool" where
  "sys_ok w0 y \<longleftrightarrow>
     inv (sys_world y) \<and> sv_store (sys_server y) = st \<and> sv_exec (sys_server y) = Some run \<and>
     om_ok (sv_ops (sys_server y)) \<and> gos_ok y \<and> streams_ok y \<and> cache_from pb vw inv run w0 y \<and> names_ok y \<and> waits_ok y \<and>
     admitted_ok pb vw (worlds_of y) (sys_admitted y)"

lemma sys_okD:
  assumes "sys_ok w0 y"
  shows "inv (sys_world y)" "sv_store (sys_server y) = st" "sv_exec (sys_server y) = Some run"
    "om_ok (sv_ops (sys_server y))" "gos_ok y" "streams_ok y" "cache_from pb vw inv run w0 y" "names_ok y" "waits_ok y"
    "admitted_ok pb vw (worlds_of y) (sys_admitted y)"
  using assms by (simp_all add: sys_ok_def)

lemma gos_okD:
  assumes "gos_ok y" "i < length (sys_gos y)"
  shows "go_addr (sys_gos y ! i) = i" "gor_ok pb vw inv run (worlds_of y) (entry_at y i) (sys_gos y ! i)"
    "length (om_entries (sv_ops (sys_server y))) = length (sys_gos y)"
  using assms by (simp_all add: gos_ok_def)

lemma ok_moved:
  assumes "sys_ok w0 y" "inv w" "v_acs (vw w) = v_acs (vw (sys_world y))"
  shows "sys_ok w0 (moved y w)"
proof -
  have "gos_ok (moved y w)"
    using sys_okD(5) [OF assms(1)] gor_ok_mono [OF subset_insertI [of "worlds_of y" w]]
    by (simp add: gos_ok_def entry_at_def)
  moreover have "streams_ok (moved y w)" using sys_okD(6) [OF assms(1)] by (simp add: streams_ok_def)
  moreover have "cache_from pb vw inv run w0 (moved y w)"
    by (rule cache_from_mono [OF sys_okD(7) [OF assms(1)]]) (use assms(3) in auto)
  ultimately show ?thesis
    using sys_okD(2-4,8-10) [OF assms(1)] assms(2) by (simp add: sys_ok_def names_ok_def waits_ok_def admitted_insert)
qed

end

context busy_server
begin

lemma admit_law:
  assumes "inv s" "sv_store sv = st" "admit pb sv s req = (r, s')"
  shows "inv s' \<and> vw s' = vw s \<and>
    (\<forall>rn a. r = Ok (rn, a) \<longrightarrow> validate (xr_action_digest req) = Ok () \<and>
      (\<exists>data. lookup_blob (vw s) (xr_action_digest req) = Some data \<and> unmarshal_action pb data = Inr a))"
proof (cases "sv_exec sv = None \<or> validate (xr_action_digest req) \<noteq> Ok ()")
  case True
  then show ?thesis
    using assms by (cases "sv_exec sv"; cases "validate (xr_action_digest req)") (auto simp: admit_def)
next
  case False
  then have v: "validate (xr_action_digest req) = Ok ()" by simp
  obtain rg s1 where g: "st_get st s (xr_action_digest req) = (rg, s1)" by fastforce
  from get_law [OF assms(1) valid_okd [OF v] g] assms(3) False v show ?thesis
    by (auto simp: admit_def fetch_action_def assms(2) g split: option.splits res.splits prod.splits sum.splits if_splits)
qed

lemma call_law:
  assumes "inv s" "okd d" "okd (a_command_digest a)" "go_call pb st name d a pc s = (k, s')"
  shows "inv s'" "k \<noteq> None" "v_acs (vw s') = v_acs (vw s) \<or>
      (\<exists>ar b. pc = Put ar \<and> marshal_ar pb ar = Inr b \<and> v_acs (vw s') = (v_acs (vw s))(get_hash d \<mapsto> b))"
proof -
  have "inv s' \<and> k \<noteq> None \<and> (v_acs (vw s') = v_acs (vw s) \<or>
      (\<exists>ar b. pc = Put ar \<and> marshal_ar pb ar = Inr b \<and> v_acs (vw s') = (v_acs (vw s))(get_hash d \<mapsto> b)))"
  proof (cases pc)
    case Check
    obtain ra s1 where g: "st_get_ar st s d = (ra, s1)" by fastforce
    from get_ar_law [OF assms(1,2) g] assms(4) Check g show ?thesis by (cases ra) auto
  next
    case Fetch
    obtain rg s1 where g: "st_get st s (a_command_digest a) = (rg, s1)" by fastforce
    from get_law [OF assms(1,3) g] assms(4) Fetch g show ?thesis by (cases rg) (auto split: sum.splits)
  next
    case (Put ar)
    obtain ru s1 where p: "st_put_ar st s d ar = (ru, s1)" by fastforce
    from put_ar_law [OF assms(1,2) p] assms(4) Put p show ?thesis by (cases ru) (auto simp: put_ac_def)
  qed (use assms in auto)
  then show "inv s'" "k \<noteq> None" "v_acs (vw s') = v_acs (vw s) \<or>
      (\<exists>ar b. pc = Put ar \<and> marshal_ar pb ar = Inr b \<and> v_acs (vw s') = (v_acs (vw s))(get_hash d \<mapsto> b))"
    by blast+
qed

lemma call_src:
  assumes "inv s" "okd (a_command_digest a)" "s \<in> S" "go_call pb st name d a pc s = (Some k, s')" "pc_src pb vw inv run S a pc"
  shows "pc_src pb vw inv run S a k"
proof (cases pc)
  case Fetch
  obtain rg s1 where g: "st_get st s (a_command_digest a) = (rg, s1)" by fastforce
  from get_law [OF assms(1,2) g] assms(3,4) Fetch g show ?thesis
    by (cases rg) (auto simp: cmd_seen_def split: sum.splits intro!: bexI [of _ s])
qed (use assms(4,5) in \<open>auto split: prod.splits res.splits\<close>)

lemma ran_src:
  assumes "inv w1" "run w1 cmd (a_input_root a) (action_timeout a) = (r, w2)" "go_ran name d a r = Some k"
    and "cmd_seen pb vw S a cmd"
  shows "pc_src pb vw inv run S a k"
proof (cases r)
  case (Ok ar)
  with assms(1,2) have "gave inv run a cmd ar" unfolding gave_def by blast
  with Ok assms(3,4) show ?thesis by (auto simp: go_ran_def earned_def)
qed (use assms(3) in \<open>auto simp: go_ran_def\<close>)

end

context busy_server
begin

lemma ok_admit:
  assumes "sys_ok w0 y" "admit pb (sys_server y) (sys_world y) req = (Ok (rn, a), w)"
  shows "sys_ok w0 ((moved y w)\<lparr>sys_admitted := sys_admitted y @ [(req, a)]\<rparr>)" (is "sys_ok w0 ?y'")
proof -
  note law = admit_law [OF sys_okD(1,2) [OF assms(1)] assms(2)]
  have "sys_ok w0 (moved y w)" using ok_moved [OF assms(1)] law by simp
  note m = sys_okD [OF this]
  have wo: "worlds_of ?y' = worlds_of (moved y w)" by (rule worlds_cong) simp_all
  have "action_seen pb vw (worlds_of y) (xr_action_digest req) a"
    using law by (auto simp: action_seen_def worlds_of_def)
  then have "admitted_ok pb vw (worlds_of ?y') (sys_admitted ?y')"
    using m(10) law seen_mono(1) [OF subset_insertI [of "worlds_of y" w]] by (auto simp: admitted_ok_def wo)
  moreover have "cache_from pb vw inv run w0 ?y'" by (rule cache_from_mono [OF m(7)]) (use wo in auto)
  moreover have "gos_ok ?y'" using m(5) by (simp add: gos_ok_def wo entry_at_def)
  ultimately show ?thesis using m by (simp add: sys_ok_def streams_ok_def names_ok_def waits_ok_def)
qed

lemma ok_register:
  assumes "sys_ok w0 y" "i < length (sys_admitted y)" "sys_admitted y ! i = (req, a)"
    and "om_new (sv_ops (sys_server y)) uuid True = (addr, om)"
  shows "sys_ok w0 (y\<lparr>sys_server := (sys_server y)\<lparr>sv_ops := om\<rparr>,
    sys_admitted := take i (sys_admitted y) @ drop (Suc i) (sys_admitted y),
    sys_gos := sys_gos y @ [new_go uuid req a addr], sys_streams := sys_streams y @ [(addr, stream_init)]\<rparr>)"
    (is "sys_ok w0 ?y'")
proof -
  note y = sys_okD [OF assms(1)]
  have "(req, a) \<in> set (sys_admitted y)" using assms(2,3) nth_mem by fastforce
  then have v: "validate (xr_action_digest req) = Ok ()" and act: "action_seen pb vw (worlds_of y) (xr_action_digest req) a"
    using y(10) by (simp_all add: admitted_ok_def)
  have om: "addr = length (sys_gos y)" "om_entries om = om_entries (sv_ops (sys_server y)) @ [fresh_entry True]"
      "om_ops om = (om_ops (sv_ops (sys_server y)))(uuid \<mapsto> addr)" "om_ok om"
    using assms(4) y(4,5) om_ok_new [of "sv_ops (sys_server y)" uuid True] by (auto simp: om_new_def gos_ok_def)
  have len: "length (om_entries (sv_ops (sys_server y))) = length (sys_gos y)" using y(5) by (simp add: gos_ok_def)
  have wo: "worlds_of ?y' = worlds_of y" by (rule worlds_cong) simp_all
  have "fresh_entry True = (published True [])\<lparr>oe_canceled := False\<rparr>" by (simp add: published_def fresh_entry_def)
  then have new: "gor_ok pb vw inv run (worlds_of y) (fresh_entry True) (new_go uuid req a addr)"
    using v act by (auto simp: gor_ok_def new_go_def plan_start go_start_rank) (simp_all add: go_start_def)
  have "gos_ok ?y'"
    unfolding gos_ok_def wo
    using new om(1,2) len gos_okD(1,2) [OF y(5)] by (auto simp: nth_append new_go_def entry_at_def less_Suc_eq)
  moreover have "streams_ok ?y'"
    using y(6) w_join [of True "[]"] om(1) by (auto simp: streams_ok_def nth_append new_go_def published_def intro: less_SucI)
  moreover have "cache_from pb vw inv run w0 ?y'" by (rule cache_from_mono [OF y(7)]) (use wo in auto)
  moreover have "names_ok ?y'"
    using y(4,8) om(1,3) len by (auto simp: names_ok_def om_ok_def nth_append new_go_def split: if_splits)
  moreover have "waits_ok ?y'" using y(9) by (auto simp: waits_ok_def nth_append intro: less_SucI)
  moreover have "admitted_ok pb vw (worlds_of y) (sys_admitted ?y')"
    using y(10) by (auto simp: admitted_ok_def dest: in_set_takeD in_set_dropD)
  ultimately show ?thesis using y(1-3) om(4) by (simp add: sys_ok_def wo)
qed

lemma ok_publish:
  assumes "sys_ok w0 y" "i < length (sys_gos y)" "go_pc (sys_gos y ! i) = Publish op k"
  shows "sys_ok w0 (on_go i (\<lambda>g. g\<lparr>go_pc := k, go_log := go_log g @ [op]\<rparr>)
    (on_ops (\<lambda>m. om_update m (go_addr (sys_gos y ! i)) (\<lambda>e. publish_new e op)) y))"
    (is "sys_ok w0 ?y'")
proof -
  note y = sys_okD [OF assms(1)]
  note g = gos_okD [OF y(5) assms(2)]
  let ?g = "sys_gos y ! i" and ?g' = "(sys_gos y ! i)\<lparr>go_pc := k, go_log := go_log (sys_gos y ! i) @ [op]\<rparr>"
  have wo: "worlds_of ?y' = worlds_of y" by (rule worlds_cong) simp_all
  have ent: "entry_at ?y' j = (if j = i then publish_new (entry_at y i) op else entry_at y j)"
    if "j < length (sys_gos y)" for j
    using that g by (simp add: entry_at_def om_update_def)
  have gs: "sys_gos ?y' = (sys_gos y)[i := ?g']" by simp
  obtain c where c: "entry_at y i = (published True (go_log ?g))\<lparr>oe_canceled := c\<rparr>"
    using g(2) by (auto simp: gor_ok_def)
  have new: "gor_ok pb vw inv run (worlds_of y) (publish_new (entry_at y i) op) ?g'"
    using g(2) assms(3) unfolding c by (auto simp: gor_ok_def publish_canceled published_snoc)
  have "gos_ok ?y'"
    unfolding gos_ok_def wo gs
    using g(3) new gos_okD(1,2) [OF y(5)] ent by (auto simp: nth_list_update om_update_def)
  moreover have "streams_ok ?y'"
    unfolding streams_ok_def gs
  proof (intro allI impI)
    fix a ss assume "(a, ss) \<in> set (sys_streams ?y')"
    then have a: "a < length (sys_gos y)" and w: "watching True (go_log (sys_gos y ! a))
        \<lparr>wt_entry = published True (go_log (sys_gos y ! a)), wt_stream = ss\<rparr>"
      using y(6) by (auto simp: streams_ok_def)
    from w_pub [OF w, of op] have "watching True (go_log (sys_gos y ! a) @ [op])
        \<lparr>wt_entry = published True (go_log (sys_gos y ! a) @ [op]), wt_stream = ss\<rparr>"
      by (simp add: published_snoc)
    with a w assms(2) show "a < length ((sys_gos y)[i := ?g']) \<and>
        watching True (go_log ((sys_gos y)[i := ?g'] ! a))
          \<lparr>wt_entry = published True (go_log ((sys_gos y)[i := ?g'] ! a)), wt_stream = ss\<rparr>"
      by (simp add: nth_list_update)
  qed
  moreover have "cache_from pb vw inv run w0 ?y'"
    by (rule cache_from_mono [OF y(7)]) (use wo gs in \<open>simp_all add: same_gos\<close>)
  moreover have "names_ok ?y'" using y(8) same_name [of ?g' "sys_gos y" i] by (simp add: names_ok_def om_update_def)
  moreover have "\<forall>x \<in> set (go_log ?g). \<not> op_done x"
    by (rule plan_not_done [of "go_name ?g" "go_digest ?g" "go_pc ?g"]) (use g(2) assms(3) in \<open>simp_all add: gor_ok_def\<close>)
  then have "wait_ok (go_log ((sys_gos y)[i := ?g'] ! a)) pc" if "wait_ok (go_log (sys_gos y ! a)) pc" for a pc
    using that assms(2) wait_ok_publish by (cases "i = a") simp_all
  then have "waits_ok ?y'" using y(9) unfolding waits_ok_def gs by (simp del: wait_ok.simps)
  ultimately show ?thesis using y om_ok_update wo by (simp add: sys_ok_def)
qed

end

context busy_server
begin

text \<open>A goroutine goes on without an update.\<close>

lemma ok_goes_on:
  assumes "sys_ok w0 y" "i < length (sys_gos y)"
    and "pc_plan (go_name (sys_gos y ! i)) (go_digest (sys_gos y ! i)) k (go_log (sys_gos y ! i))"
    and "pc_src pb vw inv run (worlds_of y) (go_action (sys_gos y ! i)) k"
    and "go_rank k < go_rank (go_pc (sys_gos y ! i))"
  shows "sys_ok w0 (on_go i (\<lambda>g. g\<lparr>go_pc := k\<rparr>) y)" (is "sys_ok w0 ?y'")
proof -
  note y = sys_okD [OF assms(1)]
  let ?g' = "(sys_gos y ! i)\<lparr>go_pc := k\<rparr>"
  have wo: "worlds_of ?y' = worlds_of y" by (rule worlds_cong) simp_all
  have gs: "sys_gos ?y' = (sys_gos y)[i := ?g']" by simp
  have ent: "entry_at ?y' j = entry_at y j" for j by (simp add: entry_at_def)
  have "gor_ok pb vw inv run (worlds_of y) (entry_at y i) ?g'"
    using gos_okD(2) [OF y(5) assms(2)] assms(3-5) by (simp add: gor_ok_def)
  then have "gos_ok ?y'"
    unfolding gos_ok_def wo gs ent
    using gos_okD [OF y(5)] y(5) assms(2) by (auto simp: nth_list_update gos_ok_def)
  moreover have "go_log ((sys_gos y)[i := ?g'] ! a) = go_log (sys_gos y ! a)" for a
    using assms(2) by (cases "i = a") simp_all
  then have "streams_ok ?y' \<and> waits_ok ?y'" using y(6,9) unfolding streams_ok_def waits_ok_def gs by simp
  moreover have "cache_from pb vw inv run w0 ?y'"
    by (rule cache_from_mono [OF y(7)]) (use wo gs in \<open>simp_all add: same_gos\<close>)
  moreover have "names_ok ?y'" using y(8) same_name [of ?g' "sys_gos y" i] by (simp add: names_ok_def)
  ultimately show ?thesis using y wo by (simp add: sys_ok_def)
qed

text \<open>An entry of the cache that a goroutine or an upload wrote.\<close>

lemma ok_stored:
  assumes "sys_ok w0 y" "inv w" "v_acs (vw w) = (v_acs (vw (sys_world y)))(h \<mapsto> b)" "marshal_ar pb ar = Inr b"
    and "i < length (sys_gos y)" "get_hash (go_digest (sys_gos y ! i)) = h"
    and "earned pb vw inv run (worlds_of y) (go_action (sys_gos y ! i)) ar"
  shows "sys_ok w0 (moved y w)"
proof -
  note y = sys_okD [OF assms(1)]
  have seen: "action_seen pb vw (worlds_of y) (go_digest (sys_gos y ! i)) (go_action (sys_gos y ! i))"
    using gos_okD(2) [OF y(5) assms(5)] by (simp add: gor_ok_def)
  have new: "entry_from pb vw inv run w0 (moved y w) h b"
    using assms(4-7) seen seen_mono(1,3) [OF subset_insertI [of "worlds_of y" w]] nth_mem [OF assms(5)]
    unfolding entry_from_def moved_sel worlds_moved by metis
  have old: "entry_from pb vw inv run w0 (moved y w) h' b'" if "v_acs (vw (sys_world y)) h' = Some b'" for h' b'
    by (rule entry_from_mono [where y = y]) (use y(7) that in \<open>auto simp: cache_from_def\<close>)
  have "cache_from pb vw inv run w0 (moved y w)"
    unfolding cache_from_def
  proof (intro allI impI)
    fix h' b' assume "v_acs (vw (sys_world (moved y w))) h' = Some b'"
    then have "h' = h \<and> b' = b \<or> v_acs (vw (sys_world y)) h' = Some b'"
      using assms(3) by (auto split: if_splits)
    then show "entry_from pb vw inv run w0 (moved y w) h' b'"
      using new old by blast
  qed
  moreover have "gos_ok (moved y w)"
    using y(5) gor_ok_mono [OF subset_insertI [of "worlds_of y" w]] by (simp add: gos_ok_def entry_at_def)
  moreover have "streams_ok (moved y w)" using y(6) by (simp add: streams_ok_def)
  ultimately show ?thesis using y assms(2) by (simp add: sys_ok_def names_ok_def waits_ok_def admitted_insert)
qed

lemma ok_call:
  assumes "sys_ok w0 y" "i < length (sys_gos y)" "g = sys_gos y ! i" "okd (a_command_digest (go_action g))"
    and call: "go_call pb (sv_store (sys_server y)) (go_name g) (go_digest g) (go_action g) (go_pc g) (sys_world y) =
      (Some k, w)"
    and "go_pc g \<in> {Check, Fetch} \<union> range Put"
  shows "sys_ok w0 (on_go i (\<lambda>g. g\<lparr>go_pc := k\<rparr>) (moved y w))"
proof -
  note y = sys_okD [OF assms(1)]
  have g: "gor_ok pb vw inv run (worlds_of y) (entry_at y i) g" using gos_okD(2) [OF y(5) assms(2)] assms(3) by simp
  then have d: "okd (go_digest g)" by (simp add: gor_ok_def valid_okd)
  note law = call_law [OF y(1) d assms(4) call [unfolded y(2)]]
  have plan: "pc_plan (go_name g) (go_digest g) k (go_log g)"
    by (rule plan_call [OF call]) (use g in \<open>simp add: gor_ok_def\<close>)
  have src: "pc_src pb vw inv run (worlds_of y) (go_action g) k"
    by (rule call_src [OF y(1) assms(4) _ call [unfolded y(2)]]) (use g in \<open>simp_all add: gor_ok_def worlds_of_def\<close>)
  have "sys_ok w0 (moved y w)"
  proof (cases "v_acs (vw w) = v_acs (vw (sys_world y))")
    case True
    show ?thesis by (rule ok_moved [OF assms(1) law(1) True])
  next
    case False
    then obtain ar b where ar: "go_pc g = Put ar" "marshal_ar pb ar = Inr b"
        "v_acs (vw w) = (v_acs (vw (sys_world y)))(get_hash (go_digest g) \<mapsto> b)"
      using law(3) by blast
    have "earned pb vw inv run (worlds_of y) (go_action g) ar" using g ar(1) by (simp add: gor_ok_def)
    with ok_stored [OF assms(1) law(1) ar(3,2) assms(2)] assms(3) show ?thesis by simp
  qed
  then show ?thesis
    by (rule ok_goes_on) (use assms(2,3) plan src pc_src_mono [OF subset_insertI] call_rank [OF call assms(6)] in simp_all)
qed

lemma ok_run:
  assumes "sys_ok w0 y" "i < length (sys_gos y)" "g = sys_gos y ! i" "go_pc g = Run cmd"
    and "sv_exec (sys_server y) = Some rn" "inv w1"
    and "rn w1 cmd (a_input_root (go_action g)) (action_timeout (go_action g)) = (r, w2)"
    and "go_ran (go_name g) (go_digest g) (go_action g) r = Some k"
  shows "sys_ok w0 (on_go i (\<lambda>g. g\<lparr>go_pc := k\<rparr>) y)"
proof -
  note y = sys_okD [OF assms(1)]
  have g: "gor_ok pb vw inv run (worlds_of y) (entry_at y i) g" using gos_okD(2) [OF y(5) assms(2)] assms(3) by simp
  have rn: "rn = run" using y(3) assms(5) by simp
  have "pc_plan (go_name g) (go_digest g) k (go_log g)"
    by (rule plan_ran [OF assms(8), where cmd = cmd]) (use g assms(4) in \<open>simp add: gor_ok_def\<close>)
  moreover have "pc_src pb vw inv run (worlds_of y) (go_action g) k"
    by (rule ran_src [OF assms(6) assms(7) [unfolded rn] assms(8)]) (use g assms(4) in \<open>simp add: gor_ok_def\<close>)
  ultimately show ?thesis using ok_goes_on [OF assms(1,2)] ran_rank [OF assms(8), of cmd] assms(3,4) by simp
qed

end

context busy_server
begin

lemma ok_upload:
  assumes "sys_ok w0 y" "update_action_result (sv_store (sys_server y)) (sys_world y) d (Some ar) = (r, w)"
  shows "sys_ok w0 ((moved y w)\<lparr>sys_uploads := sys_uploads y @ [(d, ar)]\<rparr>)" (is "sys_ok w0 ?y'")
proof (cases "validate d = Ok ()")
  case False
  then have "w = sys_world y"
    using assms(2) by (cases "validate d") (auto simp: update_action_result_def)
  then have "sys_ok w0 (moved y w)" using ok_moved [OF assms(1)] sys_okD(1) [OF assms(1)] by simp
  note m = sys_okD [OF this]
  have wo: "worlds_of ?y' = worlds_of (moved y w)" by (rule worlds_cong) simp_all
  have "cache_from pb vw inv run w0 ?y'" by (rule cache_from_mono [OF m(7)]) (use wo in auto)
  moreover have "gos_ok ?y'" using m(5) by (simp add: gos_ok_def wo entry_at_def)
  moreover have "streams_ok ?y'" using m(6) by (simp add: streams_ok_def)
  ultimately show ?thesis using m wo by (simp add: sys_ok_def names_ok_def waits_ok_def)
next
  case True
  note y = sys_okD [OF assms(1)]
  obtain ru where p: "st_put_ar st (sys_world y) d ar = (ru, w)"
    using assms(2) True by (auto simp: update_action_result_def y(2) split: prod.splits res.splits)
  note law = put_ar_law [OF y(1) valid_okd [OF True] p]
  have wo: "worlds_of ?y' = insert w (worlds_of y)" using worlds_cong [of ?y' "moved y w"] by simp
  have new: "entry_from pb vw inv run w0 ?y' (get_hash d) b" if "marshal_ar pb ar = Inr b" for b
    using that True by (auto simp: entry_from_def)
  have "cache_from pb vw inv run w0 ?y'"
    unfolding cache_from_def
  proof (intro allI impI)
    fix h b assume "v_acs (vw (sys_world ?y')) h = Some b"
    then have "h = get_hash d \<and> marshal_ar pb ar = Inr b \<or> v_acs (vw (sys_world y)) h = Some b"
      using law by (auto simp: put_ac_def split: if_splits)
    then show "entry_from pb vw inv run w0 ?y' h b"
    proof
      assume "v_acs (vw (sys_world y)) h = Some b"
      then have "entry_from pb vw inv run w0 y h b" using y(7) by (simp add: cache_from_def)
      then show ?thesis by (rule entry_from_mono) (use wo in auto)
    qed (use new in blast)
  qed
  moreover have "gos_ok ?y'"
    using y(5) gor_ok_mono [OF subset_insertI [of "worlds_of y" w]] by (simp add: gos_ok_def entry_at_def wo)
  moreover have "streams_ok ?y'" using y(6) by (simp add: streams_ok_def)
  ultimately show ?thesis using y law wo by (simp add: sys_ok_def names_ok_def waits_ok_def admitted_insert)
qed

text \<open>Changes of the map of names, or of the cancellation of an entry.\<close>

lemma ok_ops:
  assumes "sys_ok w0 y" "om_ok (f (sv_ops (sys_server y)))"
    and "length (om_entries (f (sv_ops (sys_server y)))) = length (om_entries (sv_ops (sys_server y)))"
    and "\<And>i. i < length (om_entries (sv_ops (sys_server y))) \<Longrightarrow>
      \<exists>c. om_entries (f (sv_ops (sys_server y))) ! i = (om_entries (sv_ops (sys_server y)) ! i)\<lparr>oe_canceled := c\<rparr>"
    and "om_ops (f (sv_ops (sys_server y))) \<subseteq>\<^sub>m om_ops (sv_ops (sys_server y))"
  shows "sys_ok w0 (on_ops f y)"
proof -
  note y = sys_okD [OF assms(1)]
  have wo: "worlds_of (on_ops f y) = worlds_of y" by (rule worlds_cong) simp_all
  have "gor_ok pb vw inv run (worlds_of y) (entry_at (on_ops f y) i) (sys_gos y ! i)" if "i < length (sys_gos y)" for i
    using gos_okD [OF y(5) that] assms(4) [of i] that by (fastforce simp: gor_ok_def entry_at_def)
  then have "gos_ok (on_ops f y)" using y(5) assms(3) by (simp add: gos_ok_def wo)
  moreover have "streams_ok (on_ops f y)" using y(6) by (simp add: streams_ok_def)
  moreover have "cache_from pb vw inv run w0 (on_ops f y)"
    by (rule cache_from_mono [OF y(7)]) (use wo in auto)
  moreover have "om_ops (sv_ops (sys_server y)) name = Some a" if "om_ops (f (sv_ops (sys_server y))) name = Some a"
    for name a using assms(5) that by (auto simp: map_le_def dom_def)
  then have "names_ok (on_ops f y)" using y(8) by (simp add: names_ok_def)
  moreover have "waits_ok (on_ops f y)" using y(9) by (simp add: waits_ok_def)
  ultimately show ?thesis using y assms(2) wo by (simp add: sys_ok_def)
qed

lemma ok_cancel: "sys_ok w0 y \<Longrightarrow> sys_ok w0 (on_ops (\<lambda>m. snd (cancel_operation m name)) y)"
proof (rule ok_ops)
  assume "sys_ok w0 y"
  then show "om_ok (snd (cancel_operation (sv_ops (sys_server y)) name))" by (rule om_ok_cancel [OF sys_okD(4)])
  have same: "\<exists>c. (e :: op_entry) = e\<lparr>oe_canceled := c\<rparr>" for e by (metis op_entry.surjective op_entry.update_convs(4))
  fix i assume i: "i < length (om_entries (sv_ops (sys_server y)))"
  have "\<exists>c. (om_entries (sv_ops (sys_server y)))[a := (om_entries (sv_ops (sys_server y)) ! a)\<lparr>oe_canceled := True\<rparr>] ! i =
      (om_entries (sv_ops (sys_server y)) ! i)\<lparr>oe_canceled := c\<rparr>" for a
    using i same by (cases "a = i") auto
  then show "\<exists>c. om_entries (snd (cancel_operation (sv_ops (sys_server y)) name)) ! i =
      (om_entries (sv_ops (sys_server y)) ! i)\<lparr>oe_canceled := c\<rparr>"
    using same by (auto simp: cancel_operation_def om_update_def split: option.split)
qed (auto simp: cancel_operation_def om_update_def map_le_def split: option.split)

lemma ok_delete: "sys_ok w0 y \<Longrightarrow> sys_ok w0 (on_ops (\<lambda>m. snd (delete_operation m name)) y)"
proof (rule ok_ops)
  assume "sys_ok w0 y"
  then show "om_ok (snd (delete_operation (sv_ops (sys_server y)) name))" by (rule om_ok_delete [OF sys_okD(4)])
  show "\<exists>c. om_entries (snd (delete_operation (sv_ops (sys_server y)) name)) ! i =
      (om_entries (sv_ops (sys_server y)) ! i)\<lparr>oe_canceled := c\<rparr>" for i
    by (auto simp: delete_operation_def split: option.split) (metis op_entry.surjective op_entry.update_convs(4))+
qed (auto simp: delete_operation_def map_le_def split: option.split)

text \<open>A stream that joins, or takes a step.\<close>

lemma ok_streams:
  assumes "sys_ok w0 y"
    and "\<And>a ss. (a, ss) \<in> set xs \<Longrightarrow> (a, ss) \<in> set (sys_streams y) \<or> a < length (sys_gos y) \<and>
      watching True (go_log (sys_gos y ! a)) \<lparr>wt_entry = published True (go_log (sys_gos y ! a)), wt_stream = ss\<rparr>"
  shows "sys_ok w0 (y\<lparr>sys_streams := xs\<rparr>)" (is "sys_ok w0 ?y'")
proof -
  note y = sys_okD [OF assms(1)]
  have wo: "worlds_of ?y' = worlds_of y" by (rule worlds_cong) simp_all
  have "cache_from pb vw inv run w0 ?y'" by (rule cache_from_mono [OF y(7)]) (use wo in auto)
  moreover have "gos_ok ?y'" using y(5) by (simp add: gos_ok_def wo entry_at_def)
  moreover have "streams_ok ?y'" using y(6) assms(2) unfolding streams_ok_def by simp blast
  ultimately show ?thesis using y wo by (simp add: sys_ok_def names_ok_def waits_ok_def)
qed

lemma ok_join:
  assumes "sys_ok w0 y" "wait_execution (sys_server y) name = Ok a"
  shows "sys_ok w0 (y\<lparr>sys_streams := sys_streams y @ [(a, stream_init)]\<rparr>)"
proof (rule ok_streams [OF assms(1)])
  note y = sys_okD [OF assms(1)]
  have "a < length (sys_gos y)"
    using assms(2) y(4,5) by (auto simp: wait_execution_def om_lookup_def om_ok_def gos_ok_def split: option.splits)
  then show "(b, ss) \<in> set (sys_streams y) \<or> b < length (sys_gos y) \<and>
      watching True (go_log (sys_gos y ! b)) \<lparr>wt_entry = published True (go_log (sys_gos y ! b)), wt_stream = ss\<rparr>"
    if "(b, ss) \<in> set (sys_streams y @ [(a, stream_init)])" for b ss
    using that w_join [of True "go_log (sys_gos y ! a)"] by auto
qed

lemma ok_stream:
  assumes "sys_ok w0 y" "i < length (sys_streams y)" "sys_streams y ! i = (a, ss)" "stream_step (entry_at y a) ss ss'"
  shows "sys_ok w0 (y\<lparr>sys_streams := (sys_streams y)[i := (a, ss')]\<rparr>)"
proof (rule ok_streams [OF assms(1)])
  note y = sys_okD [OF assms(1)]
  have "(a, ss) \<in> set (sys_streams y)" using assms(2,3) nth_mem by fastforce
  then have a: "a < length (sys_gos y)" and w: "watching True (go_log (sys_gos y ! a))
      \<lparr>wt_entry = published True (go_log (sys_gos y ! a)), wt_stream = ss\<rparr>"
    using y(6) by (auto simp: streams_ok_def)
  have "stream_step (published True (go_log (sys_gos y ! a))) ss ss'"
    using gos_okD(2) [OF y(5) a] assms(4) by (auto simp: gor_ok_def stream_canceled)
  with w_step [OF w] have "watching True (go_log (sys_gos y ! a))
      \<lparr>wt_entry = published True (go_log (sys_gos y ! a)), wt_stream = ss'\<rparr>" by simp
  with a show "(b, sb) \<in> set (sys_streams y) \<or> b < length (sys_gos y) \<and>
      watching True (go_log (sys_gos y ! b)) \<lparr>wt_entry = published True (go_log (sys_gos y ! b)), wt_stream = sb\<rparr>"
    if "(b, sb) \<in> set ((sys_streams y)[i := (a, ss')])" for b sb
    using that set_update_subset_insert [of "sys_streams y" i "(a, ss')"] by auto
qed

end

context busy_server
begin

text \<open>A call of \<^verbatim>\<open>WaitOperation\<close> that starts, or takes a step.\<close>

lemma ok_waits:
  assumes "sys_ok w0 y"
    and "\<And>a pc. (a, pc) \<in> set xs \<Longrightarrow>
      (a, pc) \<in> set (sys_waits y) \<or> a < length (sys_gos y) \<and> wait_ok (go_log (sys_gos y ! a)) pc"
  shows "sys_ok w0 (y\<lparr>sys_waits := xs\<rparr>)" (is "sys_ok w0 ?y'")
proof -
  note y = sys_okD [OF assms(1)]
  have wo: "worlds_of ?y' = worlds_of y" by (rule worlds_cong) simp_all
  have "cache_from pb vw inv run w0 ?y'" by (rule cache_from_mono [OF y(7)]) (use wo in auto)
  moreover have "gos_ok ?y'" using y(5) by (simp add: gos_ok_def wo entry_at_def)
  moreover have "waits_ok ?y'" using y(9) assms(2) unfolding waits_ok_def by simp blast
  ultimately show ?thesis using y wo by (simp add: sys_ok_def names_ok_def streams_ok_def)
qed

lemma ok_await:
  assumes "sys_ok w0 y" "wait_operation (sv_ops (sys_server y)) name = Ok a"
  shows "sys_ok w0 (y\<lparr>sys_waits := sys_waits y @ [(a, WLooping)]\<rparr>)"
proof (rule ok_waits [OF assms(1)])
  note y = sys_okD [OF assms(1)]
  have "a < length (sys_gos y)"
    using assms(2) y(4,5) by (auto simp: wait_operation_def om_lookup_def om_ok_def gos_ok_def split: option.splits)
  then show "(b, pc) \<in> set (sys_waits y) \<or> b < length (sys_gos y) \<and> wait_ok (go_log (sys_gos y ! b)) pc"
    if "(b, pc) \<in> set (sys_waits y @ [(a, WLooping)])" for b pc
    using that by auto
qed

lemma ok_wait:
  assumes "sys_ok w0 y" "i < length (sys_waits y)" "sys_waits y ! i = (a, pc)" "wait_step (entry_at y a) pc pc'"
  shows "sys_ok w0 (y\<lparr>sys_waits := (sys_waits y)[i := (a, pc')]\<rparr>)"
proof (rule ok_waits [OF assms(1)])
  note y = sys_okD [OF assms(1)]
  have "(a, pc) \<in> set (sys_waits y)" using assms(2,3) nth_mem by fastforce
  then have a: "a < length (sys_gos y)" and w: "wait_ok (go_log (sys_gos y ! a)) pc"
    using y(9) by (auto simp: waits_ok_def)
  have g: "gor_ok pb vw inv run (worlds_of y) (entry_at y a) (sys_gos y ! a)" by (rule gos_okD(2) [OF y(5) a])
  then have "visible (go_log (sys_gos y ! a)) = go_log (sys_gos y ! a)"
    by (auto simp: gor_ok_def intro: plan_visible)
  moreover have "wait_step (published True (go_log (sys_gos y ! a))) pc pc'"
    using g assms(4) by (auto simp: gor_ok_def wait_canceled)
  ultimately have "wait_ok (go_log (sys_gos y ! a)) pc'" using w wait_ok_step by blast
  with a show "(b, p) \<in> set (sys_waits y) \<or> b < length (sys_gos y) \<and> wait_ok (go_log (sys_gos y ! b)) p"
    if "(b, p) \<in> set ((sys_waits y)[i := (a, pc')])" for b p
    using that set_update_subset_insert [of "sys_waits y" i "(a, pc')"] by auto
qed

definition commands_okd :: "'a sys \<Rightarrow> bool" where
  "commands_okd y \<longleftrightarrow> (\<forall>g \<in> set (sys_gos y). okd (a_command_digest (go_action g)))"

lemma sys_ok_step:
  assumes "sys_ok w0 y" "sys_step pb inv env y y'" "commands_okd y"
  shows "sys_ok w0 y'"
  using assms(2)
proof cases
  case (sy_admit req rn a w)
  with ok_admit [OF assms(1)] show ?thesis by simp
next
  case (sy_refuse req e w)
  with ok_moved [OF assms(1)] admit_law [OF sys_okD(1,2) [OF assms(1)]] show ?thesis by simp
next
  case (sy_register i req a uuid addr om)
  with ok_register [OF assms(1)] show ?thesis by simp
next
  case (sy_publish i op k)
  with ok_publish [OF assms(1)] show ?thesis by simp
next
  case (sy_call i g k w)
  then have "g \<in> set (sys_gos y)" by simp
  with assms(3) have "okd (a_command_digest (go_action g))" by (simp add: commands_okd_def)
  from ok_call [OF assms(1) sy_call(2,3) this sy_call(5,4)] sy_call(1) show ?thesis by simp
next
  case (sy_run i g cmd rn w1 r w2 k)
  with ok_run [OF assms(1)] show ?thesis by blast
next
  case (sy_other w)
  with ok_moved [OF assms(1)] env_law [OF sys_okD(1) [OF assms(1)]] show ?thesis by simp
next
  case (sy_upload d ar r w)
  with ok_upload [OF assms(1)] show ?thesis by simp
next
  case (sy_cancel name)
  with ok_cancel [OF assms(1)] show ?thesis by simp
next
  case (sy_delete name)
  with ok_delete [OF assms(1)] show ?thesis by simp
next
  case (sy_join name a)
  with ok_join [OF assms(1)] show ?thesis by simp
next
  case (sy_stream i a ss ss')
  with ok_stream [OF assms(1)] show ?thesis by simp
next
  case (sy_await name a)
  with ok_await [OF assms(1)] show ?thesis by simp
next
  case (sy_wait i a pc pc')
  with ok_wait [OF assms(1)] show ?thesis by simp
qed

text \<open>Goroutines stay, with their requests: what holds of the commands later holds of them before.\<close>

lemma commands_before:
  assumes "sys_step pb inv env y y'" "commands_okd y'"
  shows "commands_okd y"
proof -
  have upd: "P (go_action g)" if "\<forall>g \<in> set (gs[i := x]). P (go_action g)" "go_action x = go_action (gs ! i)" "g \<in> set gs"
    for P and x :: goroutine and gs i g
  proof -
    obtain j where j: "j < length gs" "g = gs ! j" using \<open>g \<in> set gs\<close> by (metis in_set_conv_nth)
    then have "gs[i := x] ! j \<in> set (gs[i := x])" by simp
    with that(1) have "P (go_action (gs[i := x] ! j))" by blast
    with j that(2) show ?thesis by (cases "i = j") simp_all
  qed
  from assms show ?thesis
    by cases (auto simp: commands_okd_def intro: upd [where P = "\<lambda>a. okd (a_command_digest a)"])
qed

lemma sys_ok_start:
  assumes "inv w0" "sv_store sv = st" "sv_exec sv = Some run" "sv_ops sv = new_operation_manager"
  shows "sys_ok w0 (sys_start sv w0)"
  using assms
  by (simp add: sys_ok_def sys_start_def gos_ok_def streams_ok_def waits_ok_def names_ok_def admitted_ok_def cache_from_def entry_from_def om_ok_def
      new_operation_manager_def)

lemma reach_ok:
  assumes "sys_reach pb inv env sv w0 y" "inv w0" "sv_store sv = st" "sv_exec sv = Some run"
    and "sv_ops sv = new_operation_manager" "commands_okd y"
  shows "sys_ok w0 y"
  using assms
proof (induction rule: sys_reach.induct)
  case sr_start
  then show ?case using sys_ok_start by blast
next
  case (sr_step y y')
  then have "commands_okd y" using commands_before by blast
  with sr_step sys_ok_step show ?case by blast
qed

end

subsection \<open>The other requests keep the action cache\<close>

context action_runner
begin

lemma other_step_law:
  assumes "other_step st okd run s s'" "inv s"
  shows "inv s' \<and> v_acs (vw s') = v_acs (vw s)"
  using assms
proof cases
  case (os_contains d r)
  then show ?thesis using contains_law [OF assms(2)] by fastforce
next
  case (os_get d r)
  then show ?thesis using get_law [OF assms(2)] by fastforce
next
  case (os_reader d off lim r)
  then show ?thesis using reader_law [OF assms(2)] by fastforce
next
  case (os_put d b r)
  then show ?thesis using put_law [OF assms(2)] by fastforce
next
  case (os_put_stream d n rd r b)
  then show ?thesis using put_stream_law [OF assms(2)] by fastforce
next
  case (os_get_ar d r)
  then show ?thesis using get_ar_law [OF assms(2)] by fastforce
next
  case (os_run cmd root timeout r)
  then show ?thesis using run_law [OF assms(2)] by blast
qed

end

sublocale action_runner \<subseteq> busy: busy_server st pb inv okd vw run "other_step st okd run"
  by unfold_locales (use other_step_law in blast)

end
