(* ===== verification/ConcurrentServer.thy ===== *)
theory ConcurrentServer
  imports ConcurrentLaws
begin

text \<open>
  What the clients of a busy server can rely on, in every state it reaches: the operations, the
  streams, the action cache and the end of every action.
\<close>

subsection \<open>A server at work\<close>

text \<open>
  A state that a new server with a runner reaches among other requests.  The digests of the commands
  are ones the store is made for: nothing validates them.
\<close>

definition server_runs ::
    "codec \<Rightarrow> 's store \<Rightarrow> ('s \<Rightarrow> bool) \<Rightarrow> (digest_ptr \<Rightarrow> bool) \<Rightarrow> 's runner \<Rightarrow> string \<Rightarrow> 's \<Rightarrow> 's sys \<Rightarrow> bool" where
  "server_runs pb st si okd run inst w0 y \<longleftrightarrow>
     sys_reach pb si (other_step st okd run) (new_server st (Some run) inst) w0 y \<and>
     (\<forall>g \<in> set (sys_gos y). okd (a_command_digest (go_action g)))"

text \<open>How many steps a call of \<^verbatim>\<open>WaitOperation\<close> still takes once the operation is done.\<close>

fun wait_rank :: "wait_pc \<Rightarrow> nat" where
  "wait_rank (WWaiting ch) = 2"
| "wait_rank WLooping = 1"
| "wait_rank (WReturned r) = 0"

lemma wait_ends:
  assumes "oe_done e" "\<And>ch. pc = WWaiting ch \<Longrightarrow> closed e ch" "0 < wait_rank pc"
  shows "(\<exists>pc'. wait_step e pc pc') \<and> (\<forall>pc'. wait_step e pc pc' \<longrightarrow> wait_rank pc' < wait_rank pc)"
proof (cases pc)
  case WLooping
  have "wait_step e WLooping (WReturned (Ok (map_option snd (oe_latest e))))"
    by (rule wt_done) (simp add: snapshot_def assms(1))
  moreover have "wait_rank pc' < wait_rank WLooping" if "wait_step e WLooping pc'" for pc'
    using that assms(1) by cases (simp_all add: snapshot_def)
  ultimately show ?thesis using WLooping by blast
next
  case (WWaiting ch)
  have "wait_rank pc' < wait_rank (WWaiting ch)" if "wait_step e (WWaiting ch) pc'" for pc'
    using that by cases simp_all
  with WWaiting wt_wake [OF assms(2)] show ?thesis by blast
qed (use assms(3) in simp)

context action_runner
begin

lemma runs_ok:
  assumes "server_runs pb st inv okd run inst w0 y" "inv w0"
  shows "busy.sys_ok w0 y"
  using assms busy.reach_ok [of "new_server st (Some run) inst" w0 y]
  by (simp add: server_runs_def new_server_def busy.commands_okd_def)

lemma runs_gor:
  assumes "server_runs pb st inv okd run inst w0 y" "inv w0" "i < length (sys_gos y)"
  shows "go_addr (sys_gos y ! i) = i" "gor_ok pb vw inv run (worlds_of y) (entry_at y i) (sys_gos y ! i)"
  using busy.gos_okD [OF busy.sys_okD(5) [OF runs_ok [OF assms(1,2)]] assms(3)] by blast+

text \<open>The entry of a goroutine, as \<^verbatim>\<open>GetOperation\<close> and the streams see it.\<close>

lemma runs_entry:
  assumes "server_runs pb st inv okd run inst w0 y" "inv w0" "i < length (sys_gos y)"
  shows "\<exists>c. entry_at y i = (published True (go_log (sys_gos y ! i)))\<lparr>oe_canceled := c\<rparr>"
    "pc_plan (go_name (sys_gos y ! i)) (go_digest (sys_gos y ! i)) (go_pc (sys_gos y ! i)) (go_log (sys_gos y ! i))"
    "snapshot (entry_at y i) = snapshot (published True (go_log (sys_gos y ! i)))"
proof -
  have g: "gor_ok pb vw inv run (worlds_of y) (entry_at y i) (sys_gos y ! i)" by (rule runs_gor(2) [OF assms])
  then obtain c where c: "entry_at y i = (published True (go_log (sys_gos y ! i)))\<lparr>oe_canceled := c\<rparr>"
    by (auto simp: gor_ok_def)
  then show "\<exists>c. entry_at y i = (published True (go_log (sys_gos y ! i)))\<lparr>oe_canceled := c\<rparr>" by blast
  show "snapshot (entry_at y i) = snapshot (published True (go_log (sys_gos y ! i)))" by (simp add: c snapshot_def)
  show "pc_plan (go_name (sys_gos y ! i)) (go_digest (sys_gos y ! i)) (go_pc (sys_gos y ! i)) (go_log (sys_gos y ! i))"
    using g by (simp add: gor_ok_def)
qed

lemma runs_lookup:
  assumes "server_runs pb st inv okd run inst w0 y" "inv w0" "om_lookup (sv_ops (sys_server y)) name = Some a"
  shows "a < length (sys_gos y)" "go_name (sys_gos y ! a) = name"
    "get_operation (sv_ops (sys_server y)) name =
      (if go_log (sys_gos y ! a) = [] then Err (StatusErr NotFound ''operation %q has no state'' [name] None)
       else Ok (last (go_log (sys_gos y ! a))))"
proof -
  note ok = busy.sys_okD [OF runs_ok [OF assms(1,2)]]
  show a: "a < length (sys_gos y)"
    using ok(4,5) assms(3) by (auto simp: om_ok_def om_lookup_def busy.gos_ok_def)
  show "go_name (sys_gos y ! a) = name" using ok(8) assms(3) by (simp add: busy.names_ok_def om_lookup_def)
  have "visible (go_log (sys_gos y ! a)) = go_log (sys_gos y ! a)"
    by (rule plan_visible [OF runs_entry(2) [OF assms(1,2) a]])
  then show "get_operation (sv_ops (sys_server y)) name =
      (if go_log (sys_gos y ! a) = [] then Err (StatusErr NotFound ''operation %q has no state'' [name] None)
       else Ok (last (go_log (sys_gos y ! a))))"
    using runs_entry(3) [OF assms(1,2) a] assms(3)
    by (simp add: get_operation_def entry_at_def snapshot_def published_eq)
qed

lemma entries_law:
  assumes "inv w0" "server_runs pb st inv okd run inst w0 y" "i < length (sys_gos y)" "g = sys_gos y ! i"
  shows "go_addr g = i \<and> (\<exists>c. entry_at y i = (published True (go_log g))\<lparr>oe_canceled := c\<rparr>) \<and>
    visible (go_log g) = go_log g \<and>
    sorted_wrt (\<lambda>x y. op_stage x < op_stage y) (go_log g) \<and>
    list_all (\<lambda>op. op_name op = go_name g \<and> op_action op = go_digest g) (go_log g) \<and>
    (oe_done (entry_at y i) \<longleftrightarrow> go_pc g = Ended) \<and>
    (go_pc g = Ended \<longrightarrow> well_formed_ops (go_name g) (go_digest g) (go_log g)) \<and>
    (\<forall>name. om_lookup (sv_ops (sys_server y)) name = Some i \<longrightarrow> name = go_name g \<and>
      get_operation (sv_ops (sys_server y)) name =
        (if go_log g = [] then Err (StatusErr NotFound ''operation %q has no state'' [name] None)
         else Ok (last (go_log g))))"
proof -
  note e = runs_entry [OF assms(2,1,3), folded assms(4)]
  have "oe_done (entry_at y i) \<longleftrightarrow> go_pc g = Ended"
    using e(3) plan_done [OF e(2)] by (simp add: snapshot_def published_done)
  moreover have "name = go_name g \<and> get_operation (sv_ops (sys_server y)) name =
        (if go_log g = [] then Err (StatusErr NotFound ''operation %q has no state'' [name] None)
         else Ok (last (go_log g)))" if "om_lookup (sv_ops (sys_server y)) name = Some i" for name
    using runs_lookup(2,3) [OF assms(2,1) that] assms(4) by simp
  moreover have "go_pc g = Ended \<longrightarrow> well_formed_ops (go_name g) (go_digest g) (go_log g)"
    using e(2) by auto
  ultimately show ?thesis
    using e(1) plan_visible [OF e(2)] plan_log [OF e(2)] runs_gor(1) [OF assms(2,1,3)] assms(4) by blast
qed

text \<open>The streams.\<close>

lemma streams_law:
  assumes "inv w0" "server_runs pb st inv okd run inst w0 y" "(a, ss) \<in> set (sys_streams y)" "g = sys_gos y ! a"
  shows "a < length (sys_gos y) \<and> subseq (map snd (ss_sent ss)) (go_log g) \<and>
    (ss_pc ss = Returned (Ok ()) \<longrightarrow>
      go_pc g = Ended \<and> ss_sent ss \<noteq> [] \<and> snd (last (ss_sent ss)) = last (go_log g)) \<and>
    (go_pc g = Ended \<and> \<not> is_returned (ss_pc ss) \<longrightarrow>
      (\<exists>ss'. stream_step (entry_at y a) ss ss') \<and>
      (\<forall>ss'. stream_step (entry_at y a) ss ss' \<longrightarrow> stream_rank (ss_pc ss') < stream_rank (ss_pc ss)))"
proof -
  have a: "a < length (sys_gos y)" and w: "watching True (go_log g)
      \<lparr>wt_entry = published True (go_log g), wt_stream = ss\<rparr>"
    using busy.sys_okD(6) [OF runs_ok [OF assms(2,1)]] assms(3,4) by (auto simp: busy.streams_ok_def)
  note e = runs_entry [OF assms(2,1) a, folded assms(4)]
  have vis: "visible (go_log g) = go_log g" by (rule plan_visible [OF e(2)])
  have step: "stream_step (entry_at y a) ss ss' \<longleftrightarrow> stream_step (published True (go_log g)) ss ss'" for ss'
    using e(1) stream_canceled by metis
  have sub: "subseq (map snd (ss_sent ss)) (go_log g)"
    using subseq_map [OF sent_order(1) [OF w], of snd] by (simp add: history_def vis)
  have fin: "go_pc g = Ended \<and> ss_sent ss \<noteq> [] \<and> snd (last (ss_sent ss)) = last (go_log g)"
    if "ss_pc ss = Returned (Ok ())"
  proof -
    have ne: "go_log g \<noteq> []" and dn: "op_done (last (go_log g))"
      and l: "last_of (ss_sent ss) = Some (last (history (go_log g)))"
      using sent_order(3) [OF w] that by (simp_all add: vis)
    then have "go_pc g = Ended" using plan_done [OF e(2)] by (meson last_in_set)
    then show ?thesis using l last_history [OF ne] vis by (auto simp: last_of_def split: if_splits)
  qed
  have "(\<exists>ss'. stream_step (entry_at y a) ss ss') \<and>
      (\<forall>ss'. stream_step (entry_at y a) ss ss' \<longrightarrow> stream_rank (ss_pc ss') < stream_rank (ss_pc ss))"
    if "go_pc g = Ended" "\<not> is_returned (ss_pc ss)"
    using stream_ends [OF w] plan_done [OF e(2)] that by (simp add: step)
  with a sub fin show ?thesis by blast
qed

text \<open>Calls of \<^verbatim>\<open>WaitOperation\<close>.\<close>

lemma waits_law:
  assumes "inv w0" "server_runs pb st inv okd run inst w0 y" "(a, pc) \<in> set (sys_waits y)" "g = sys_gos y ! a"
  shows "a < length (sys_gos y) \<and>
    (\<forall>op. pc = WReturned (Ok op) \<longrightarrow> go_pc g = Ended \<and> op = Some (last (go_log g))) \<and>
    (go_pc g = Ended \<and> 0 < wait_rank pc \<longrightarrow>
      (\<exists>pc'. wait_step (entry_at y a) pc pc') \<and>
      (\<forall>pc'. wait_step (entry_at y a) pc pc' \<longrightarrow> wait_rank pc' < wait_rank pc))"
proof -
  have a: "a < length (sys_gos y)" and w: "wait_ok (go_log g) pc"
    using busy.sys_okD(9) [OF runs_ok [OF assms(2,1)]] assms(3,4) by (auto simp: busy.waits_ok_def)
  note e = runs_entry [OF assms(2,1) a, folded assms(4)]
  have vis: "visible (go_log g) = go_log g" by (rule plan_visible [OF e(2)])
  have snap: "oe_done (entry_at y a) \<longleftrightarrow> go_pc g = Ended" "oe_changed (entry_at y a) = length (go_log g)"
    using e(3) plan_done [OF e(2)] by (simp_all add: snapshot_def published_eq vis)
  have ret: "go_pc g = Ended \<and> op = Some (last (go_log g))" if "pc = WReturned (Ok op)" for op
    using w that plan_done [OF e(2)] by auto
  have "closed (entry_at y a) ch" if "pc = WWaiting ch" "go_pc g = Ended" for ch
    using w that plan_done [OF e(2)] snap(2) by (auto simp: closed_def)
  then have "(\<exists>pc'. wait_step (entry_at y a) pc pc') \<and>
      (\<forall>pc'. wait_step (entry_at y a) pc pc' \<longrightarrow> wait_rank pc' < wait_rank pc)"
    if "go_pc g = Ended" "0 < wait_rank pc"
    using wait_ends [of "entry_at y a" pc] that snap(1) by blast
  with a ret show ?thesis by blast
qed

text \<open>The action cache.\<close>

lemma runs_cache:
  assumes "inv w0" "server_runs pb st inv okd run inst w0 y"
  shows "cache_from pb vw inv run w0 y"
  by (rule busy.sys_okD(7) [OF runs_ok [OF assms(2,1)]])

lemma provenance_law:
  assumes "inv w0" "server_runs pb st inv okd run inst w0 y" "v_acs (vw (sys_world y)) h = Some b"
  shows "v_acs (vw w0) h = Some b \<or>
    (\<exists>d ar. (d, ar) \<in> set (sys_uploads y) \<and> validate d = Ok () \<and> get_hash d = h \<and> marshal_ar pb ar = Inr b) \<or>
    (\<exists>g ar cmd. g \<in> set (sys_gos y) \<and> get_hash (go_digest g) = h \<and> marshal_ar pb ar = Inr b \<and>
       \<not> a_do_not_cache (go_action g) \<and> ar_exit_code ar = 0 \<and>
       (\<exists>w \<in> worlds_of y. \<exists>data. lookup_blob (vw w) (go_digest g) = Some data \<and>
          unmarshal_action pb data = Inr (go_action g)) \<and>
       (\<exists>w \<in> worlds_of y. \<exists>data. lookup_blob (vw w) (a_command_digest (go_action g)) = Some data \<and>
          unmarshal_cmd pb data = Inr cmd) \<and>
       (\<exists>w1 w2. inv w1 \<and>
          run w1 cmd (a_input_root (go_action g)) (action_timeout (go_action g)) = (Ok ar, w2)))"
proof -
  have "entry_from pb vw inv run w0 y h b"
    using runs_cache [OF assms(1,2)] assms(3) by (simp add: cache_from_def)
  then show ?thesis
    unfolding entry_from_def action_seen_def earned_def cmd_seen_def gave_def by blast
qed

text \<open>No call of a goroutine panics.\<close>

lemma no_panic_law:
  assumes "inv w0" "server_runs pb st inv okd run inst w0 y" "i < length (sys_gos y)" "g = sys_gos y ! i"
  shows "fst (go_call pb st (go_name g) (go_digest g) (go_action g) (go_pc g) (sys_world y)) \<noteq> None"
    "inv w1 \<Longrightarrow> run w1 cmd (a_input_root (go_action g)) (action_timeout (go_action g)) = (r, w2) \<Longrightarrow>
      go_ran (go_name g) (go_digest g) (go_action g) r \<noteq> None"
proof -
  note ok = busy.sys_okD [OF runs_ok [OF assms(2,1)]]
  have g: "gor_ok pb vw inv run (worlds_of y) (entry_at y i) g" using runs_gor(2) [OF assms(2,1,3)] assms(4) by simp
  then have d: "okd (go_digest g)" by (simp add: gor_ok_def valid_okd)
  have "okd (a_command_digest (go_action g))" using assms(2-4) by (simp add: server_runs_def)
  from busy.call_law(2) [OF ok(1) d this surjective_pairing]
  show "fst (go_call pb st (go_name g) (go_digest g) (go_action g) (go_pc g) (sys_world y)) \<noteq> None" .
  show "go_ran (go_name g) (go_digest g) (go_action g) r \<noteq> None"
    if "inv w1" "run w1 cmd (a_input_root (go_action g)) (action_timeout (go_action g)) = (r, w2)"
    using run_law [OF that] by (auto simp: go_ran_def split: res.splits)
qed

lemma can_step:
  assumes "inv w0" "server_runs pb st inv okd run inst w0 y" "i < length (sys_gos y)" "go_pc (sys_gos y ! i) \<noteq> Ended"
  shows "\<exists>y'. sys_step pb inv (other_step st okd run) y y' \<and>
    go_rank (go_pc (sys_gos y' ! i)) < go_rank (go_pc (sys_gos y ! i))"
proof -
  let ?g = "sys_gos y ! i"
  note ok = busy.sys_okD [OF runs_ok [OF assms(2,1)]]
  note np = no_panic_law [OF assms(1-3) refl]
  have call: ?thesis if pc: "go_pc ?g \<in> {Check, Fetch} \<union> range Put"
  proof -
    obtain k w where k: "go_call pb (sv_store (sys_server y)) (go_name ?g) (go_digest ?g) (go_action ?g) (go_pc ?g)
        (sys_world y) = (Some k, w)"
      using np(1) ok(2) by (metis option.exhaust prod.collapse)
    from sy_call [where winv = inv and env = "other_step st okd run", OF assms(3) refl pc k] show ?thesis
      by - (rule exI, erule conjI, use assms(3) call_rank [OF k pc] in simp)
  qed
  show ?thesis
  proof (cases "go_pc ?g")
    case (Publish op k)
    from sy_publish [where pb = pb and winv = inv and env = "other_step st okd run", OF assms(3) this] show ?thesis
      by - (rule exI, erule conjI, simp add: assms(3) Publish)
  next
    case (Run cmd)
    obtain r w2 where r: "run (sys_world y) cmd (a_input_root (go_action ?g)) (action_timeout (go_action ?g)) = (r, w2)"
      by fastforce
    then obtain k where k: "go_ran (go_name ?g) (go_digest ?g) (go_action ?g) r = Some k" using np(2) [OF ok(1)] by blast
    from sy_run [where pb = pb and winv = inv and env = "other_step st okd run", OF assms(3) refl Run ok(3,1) r k] show ?thesis
      by - (rule exI, erule conjI, use assms(3) Run ran_rank [OF k, of cmd] in simp)
  qed (use assms(4) call in auto)
qed

end

text \<open>A step of the server is a step of the goroutine, which brings its end closer, or leaves it as it is.\<close>

lemma step_rank:
  assumes "sys_step pb winv env y y'" "i < length (sys_gos y)"
  shows "i < length (sys_gos y') \<and>
    (sys_gos y' ! i = sys_gos y ! i \<or> go_rank (go_pc (sys_gos y' ! i)) < go_rank (go_pc (sys_gos y ! i)))"
  using assms(1)
proof cases
  case (sy_publish j op k)
  with assms(2) show ?thesis by (cases "i = j") simp_all
next
  case (sy_call j g k w)
  with assms(2) call_rank [OF sy_call(5,4)] show ?thesis by (cases "i = j") simp_all
next
  case (sy_run j g cmd run w1 r w2 k)
  with assms(2) ran_rank [OF sy_run(8), of cmd] show ?thesis by (cases "i = j") simp_all
qed (use assms(2) in \<open>auto simp: nth_append\<close>)

text \<open>
  C12.  Every action comes to its end: as long as a goroutine has not ended it can take a step, whatever
  else is going on, none of its calls panics, each of its steps brings its end closer and no step of
  anything else changes it, so it ends after at most seven steps of its own.
\<close>

theorem action_progress:
  assumes "action_runner st pb si okd vw run" and "si w0" and "server_runs pb st si okd run inst w0 y"
    and "i < length (sys_gos y)" and "g = sys_gos y ! i" and "go_pc g \<noteq> Ended"
  shows "(\<exists>y'. sys_step pb si (other_step st okd run) y y' \<and> go_rank (go_pc (sys_gos y' ! i)) < go_rank (go_pc g)) \<and>
    (\<forall>y'. sys_step pb si (other_step st okd run) y y' \<longrightarrow>
      i < length (sys_gos y') \<and> (sys_gos y' ! i = g \<or> go_rank (go_pc (sys_gos y' ! i)) < go_rank (go_pc g))) \<and>
    go_rank (go_pc g) \<le> 7 \<and>
    fst (go_call pb st (go_name g) (go_digest g) (go_action g) (go_pc g) (sys_world y)) \<noteq> None \<and>
    (\<forall>cmd w1 r w2. si w1 \<longrightarrow>
      run w1 cmd (a_input_root (go_action g)) (action_timeout (go_action g)) = (r, w2) \<longrightarrow>
      go_ran (go_name g) (go_digest g) (go_action g) r \<noteq> None)"
proof -
  have "go_rank (go_pc g) \<le> 7"
    using action_runner.runs_gor(2) [OF assms(1,3,2,4)] assms(5) by (simp add: gor_ok_def)
  then show ?thesis
    using action_runner.can_step [OF assms(1-4)] action_runner.no_panic_law [OF assms(1-5)]
      step_rank [OF _ assms(4)] assms(5,6) by blast
qed


text \<open>
  C3.  However many actions, streams and other requests run at once, every operation is its own: the
  entry of a goroutine shows exactly what that goroutine published, all of it visible, under its
  name and its action, in the order of the stages; it is done exactly when the goroutine has ended,
  and has then the form of a complete action.  \<^verbatim>\<open>GetOperation\<close> answers for a name, as long
  as it is registered, with the latest update of the goroutine that has the name.
\<close>

theorem concurrent_entries:
  assumes "action_runner st pb si okd vw run" and "si w0" and "server_runs pb st si okd run inst w0 y"
    and "i < length (sys_gos y)" and "g = sys_gos y ! i"
  shows "go_addr g = i \<and> (\<exists>c. entry_at y i = (published True (go_log g))\<lparr>oe_canceled := c\<rparr>) \<and>
    visible (go_log g) = go_log g \<and>
    sorted_wrt (\<lambda>x y. op_stage x < op_stage y) (go_log g) \<and>
    list_all (\<lambda>op. op_name op = go_name g \<and> op_action op = go_digest g) (go_log g) \<and>
    (oe_done (entry_at y i) \<longleftrightarrow> go_pc g = Ended) \<and>
    (go_pc g = Ended \<longrightarrow> well_formed_ops (go_name g) (go_digest g) (go_log g)) \<and>
    (\<forall>name. om_lookup (sv_ops (sys_server y)) name = Some i \<longrightarrow> name = go_name g \<and>
      get_operation (sv_ops (sys_server y)) name =
        (if go_log g = [] then Err (StatusErr NotFound ''operation %q has no state'' [name] None)
         else Ok (last (go_log g))))"
  by (rule action_runner.entries_law [OF assms])


text \<open>
  C4.  From the goroutine to every client: a stream of \<^verbatim>\<open>Execute\<close> or \<^verbatim>\<open>WaitExecution\<close>, joined at any time,
  sends a subsequence of what its goroutine published and ends without error only after the goroutine
  has ended, its last message the final operation; a call of \<^verbatim>\<open>WaitOperation\<close> returns only that
  operation.  Once the goroutine has ended neither can block, and each of their steps brings their
  end closer.
\<close>

theorem concurrent_clients:
  assumes "action_runner st pb si okd vw run" and "si w0" and "server_runs pb st si okd run inst w0 y"
  shows "(\<forall>(a, ss) \<in> set (sys_streams y). \<exists>g. a < length (sys_gos y) \<and> g = sys_gos y ! a \<and>
      subseq (map snd (ss_sent ss)) (go_log g) \<and>
      (ss_pc ss = Returned (Ok ()) \<longrightarrow>
        go_pc g = Ended \<and> ss_sent ss \<noteq> [] \<and> snd (last (ss_sent ss)) = last (go_log g)) \<and>
      (go_pc g = Ended \<and> \<not> is_returned (ss_pc ss) \<longrightarrow>
        (\<exists>ss'. stream_step (entry_at y a) ss ss') \<and>
        (\<forall>ss'. stream_step (entry_at y a) ss ss' \<longrightarrow> stream_rank (ss_pc ss') < stream_rank (ss_pc ss)))) \<and>
    (\<forall>(a, pc) \<in> set (sys_waits y). \<exists>g. a < length (sys_gos y) \<and> g = sys_gos y ! a \<and>
      (\<forall>op. pc = WReturned (Ok op) \<longrightarrow> go_pc g = Ended \<and> op = Some (last (go_log g))) \<and>
      (go_pc g = Ended \<and> 0 < wait_rank pc \<longrightarrow>
        (\<exists>pc'. wait_step (entry_at y a) pc pc') \<and>
        (\<forall>pc'. wait_step (entry_at y a) pc pc' \<longrightarrow> wait_rank pc' < wait_rank pc)))"
  using action_runner.streams_law [OF assms _ refl] action_runner.waits_law [OF assms _ refl] by fast

text \<open>
  C5.  No result out of nowhere: an entry of the action cache was there at the start, or a client
  uploaded it, or it is a result with exit code 0 that the runner gave for the command of an action
  that may be cached, with the action and its command read from the store at some moment of the run.
\<close>

theorem cache_provenance:
  assumes "action_runner st pb si okd vw run" and "si w0" and "server_runs pb st si okd run inst w0 y"
    and "v_acs (vw (sys_world y)) h = Some b"
  shows "v_acs (vw w0) h = Some b \<or>
    (\<exists>d ar. (d, ar) \<in> set (sys_uploads y) \<and> validate d = Ok () \<and> get_hash d = h \<and> marshal_ar pb ar = Inr b) \<or>
    (\<exists>g ar cmd. g \<in> set (sys_gos y) \<and> get_hash (go_digest g) = h \<and> marshal_ar pb ar = Inr b \<and>
       \<not> a_do_not_cache (go_action g) \<and> ar_exit_code ar = 0 \<and>
       (\<exists>w \<in> worlds_of y. \<exists>data. lookup_blob (vw w) (go_digest g) = Some data \<and>
          unmarshal_action pb data = Inr (go_action g)) \<and>
       (\<exists>w \<in> worlds_of y. \<exists>data. lookup_blob (vw w) (a_command_digest (go_action g)) = Some data \<and>
          unmarshal_cmd pb data = Inr cmd) \<and>
       (\<exists>w1 w2. si w1 \<and>
          run w1 cmd (a_input_root (go_action g)) (action_timeout (go_action g)) = (Ok ar, w2)))"
  by (rule action_runner.provenance_law [OF assms])

end
