(* ===== verification/ConcurrentDemo.thy ===== *)
theory ConcurrentDemo
  imports ConcurrentServer
begin

text \<open>
  A goroutine that nothing interrupts, among the steps of the server; with it, a server over the
  in-memory store that has run one action.
\<close>

subsection \<open>A goroutine runs to its end\<close>

lemma other_run: "env = other_step st okd run \<Longrightarrow> run s cmd root timeout = (r, w) \<Longrightarrow>
  sys_world y = s \<Longrightarrow> sys_step pb winv env y (moved y w)"
  using sy_other [of env y w pb winv] os_run [of run s cmd root timeout r w st okd] by simp

lemma ended_same: "gs ! i = g \<Longrightarrow> go_pc g = Ended \<Longrightarrow> gs[i := g\<lparr>go_pc := Ended\<rparr>] = gs"
  by (cases g) (metis goroutine.update_convs(5) list_update_id goroutine.select_convs(5))

lemma solo_reach:
  assumes "sys_reach pb (\<lambda>_. True) (other_step st okd run) sv w0 y" "i < length (sys_gos y)"
    and "sv_store (sys_server y) = st" "sv_exec (sys_server y) = Some run" "sys_gos y ! i = g"
    and "go_solo n pb st run (go_name g) (go_digest g) (go_action g) (go_pc g) (sys_world y) = ((Ok (), ops), s')"
    and "go_rank (go_pc g) \<le> n"
  shows "\<exists>y'. sys_reach pb (\<lambda>_. True) (other_step st okd run) sv w0 y' \<and> sys_world y' = s' \<and>
    sys_gos y' = (sys_gos y)[i := g\<lparr>go_pc := Ended, go_log := go_log g @ ops\<rparr>] \<and>
    sys_streams y' = sys_streams y \<and> sys_uploads y' = sys_uploads y"
  using assms
proof (induction n arbitrary: y g ops)
  case 0
  then have "go_pc g = Ended" by (cases "go_pc g") simp_all
  with 0 ended_same [of "sys_gos y" i g] show ?case by (intro exI [of _ y]) simp
next
  case (Suc n)
  let ?env = "other_step st okd run"
  note IH = Suc.IH and y = Suc.prems
  note step = sr_step [OF y(1)]
  have calls: ?case if pc: "go_pc g \<in> {Check, Fetch} \<union> range Put"
  proof -
    obtain k w where k: "go_call pb st (go_name g) (go_digest g) (go_action g) (go_pc g) (sys_world y) = (Some k, w)"
      and rest: "go_solo n pb st run (go_name g) (go_digest g) (go_action g) k w = ((Ok (), ops), s')"
      using y(6) pc by (auto split: prod.splits option.splits)
    from sy_call [OF y(2) y(5) [symmetric] pc k [folded y(3)]]
    have reach: "sys_reach pb (\<lambda>_. True) ?env sv w0 (on_go i (\<lambda>g. g\<lparr>go_pc := k\<rparr>) (moved y w))" by (rule step)
    have "go_rank k \<le> n" using call_rank [OF k pc] y(7) by simp
    with IH [OF reach, of "g\<lparr>go_pc := k\<rparr>" ops] y rest show ?thesis by simp
  qed
  show ?case
  proof (cases "go_pc g")
    case Ended
    with y ended_same [of "sys_gos y" i g] show ?thesis by (intro exI [of _ y]) simp
  next
    case (Publish op k)
    obtain ops' where ops: "ops = op # ops'"
      and rest: "go_solo n pb st run (go_name g) (go_digest g) (go_action g) k (sys_world y) = ((Ok (), ops'), s')"
      using y(6) Publish by (auto split: prod.splits)
    have "go_pc (sys_gos y ! i) = Publish op k" using y(5) Publish by simp
    from sy_publish [OF y(2) this]
    have reach: "sys_reach pb (\<lambda>_. True) ?env sv w0 (on_go i (\<lambda>g. g\<lparr>go_pc := k, go_log := go_log g @ [op]\<rparr>)
        (on_ops (\<lambda>m. om_update m (go_addr (sys_gos y ! i)) (\<lambda>e. publish_new e op)) y))" by (rule step)
    with IH [OF reach, of "g\<lparr>go_pc := k, go_log := go_log g @ [op]\<rparr>" ops'] y rest ops Publish
    show ?thesis by simp
  next
    case (Run cmd)
    obtain r w where r: "run (sys_world y) cmd (a_input_root (go_action g)) (action_timeout (go_action g)) = (r, w)"
      by fastforce
    obtain k where k: "go_ran (go_name g) (go_digest g) (go_action g) r = Some k"
      and rest: "go_solo n pb st run (go_name g) (go_digest g) (go_action g) k w = ((Ok (), ops), s')"
      using y(6) Run by (auto simp: r split: option.splits)
    from sy_run [OF y(2) y(5) [symmetric] Run y(4) TrueI r k]
    have ran: "sys_reach pb (\<lambda>_. True) ?env sv w0 (on_go i (\<lambda>g. g\<lparr>go_pc := k\<rparr>) y)" by (rule step)
    have "sys_step pb (\<lambda>_. True) ?env (on_go i (\<lambda>g. g\<lparr>go_pc := k\<rparr>) y) (moved (on_go i (\<lambda>g. g\<lparr>go_pc := k\<rparr>) y) w)"
      by (rule other_run [where run = run, OF refl r]) simp
    from sr_step [OF ran this]
    have reach: "sys_reach pb (\<lambda>_. True) ?env sv w0 (moved (on_go i (\<lambda>g. g\<lparr>go_pc := k\<rparr>) y) w)" by simp
    have "go_rank k \<le> n" using ran_rank [OF k, of cmd] y(7) Run by simp
    with IH [OF reach, of "g\<lparr>go_pc := k\<rparr>" ops] y rest show ?thesis by simp
  qed (use calls in auto)
qed

subsection \<open>One action on the in-memory server\<close>

lemma demo_execute:
  "execute demo_codec demo_server demo_store ''op-1'' demo_request =
    ((Ok (ok_runner, demo_action, 0), demo_server\<lparr>sv_ops := snd (om_new new_operation_manager ''op-1'' True)\<rparr>), demo_store)"
proof -
  have get: "mem_get demo_store (Some zero_digest) = (Ok [], demo_store)"
    by (simp add: mem_get_def demo_store_def is_empty_eq zero_digest_def empty_digest_def)
  have parse: "unmarshal_action demo_codec [] = Inr demo_action"
    by (simp add: demo_codec_def table_decode_def)
  show ?thesis
    using zero_valid
    by (simp add: execute_def admit_def demo_server_def new_server_def fetch_action_def get parse om_new_def new_operation_manager_def)
qed

abbreviation demo_env :: "mem_store \<Rightarrow> mem_store \<Rightarrow> bool" where
  "demo_env \<equiv> other_step (mem_ops demo_codec) (\<lambda>_. True) ok_runner"

definition demo_goroutine :: goroutine where
  "demo_goroutine = new_go ''op-1'' demo_request demo_action 0"

text \<open>The state after \<^verbatim>\<open>Execute\<close> has registered the action, and a later one.\<close>

definition demo_began :: "mem_store sys" where
  "demo_began =
     (moved (sys_start demo_server demo_store) demo_store)\<lparr>
       sys_server := demo_server\<lparr>sv_ops := snd (om_new new_operation_manager ''op-1'' True)\<rparr>,
       sys_gos := [demo_goroutine], sys_streams := [(0, stream_init)]\<rparr>"

lemma demo_began_sel [simp]:
  "sys_gos demo_began = [demo_goroutine]" "sys_streams demo_began = [(0, stream_init)]"
  "sys_world demo_began = demo_store" "sys_uploads demo_began = []"
  "sv_store (sys_server demo_began) = mem_ops demo_codec" "sv_exec (sys_server demo_began) = Some ok_runner"
  by (simp_all add: demo_began_def demo_server_def new_server_def sys_start_def)

lemma demo_goroutine_sel [simp]:
  "go_name demo_goroutine = ''op-1''" "go_req demo_goroutine = demo_request" "go_action demo_goroutine = demo_action"
  "go_pc demo_goroutine = go_start ''op-1'' demo_request demo_action" "go_log demo_goroutine = []"
  by (simp_all add: demo_goroutine_def new_go_def)

lemma demo_reach_began: "sys_reach demo_codec (\<lambda>_. True) demo_env demo_server demo_store demo_began"
proof -
  let ?s = "sys_start demo_server demo_store"
  have "execute demo_codec (sys_server ?s) (sys_world ?s) ''op-1'' demo_request =
      ((Ok (ok_runner, demo_action, 0), demo_server\<lparr>sv_ops := snd (om_new new_operation_manager ''op-1'' True)\<rparr>), demo_store)"
    using demo_execute by (simp add: sys_start_def)
  from execute_steps [OF this] obtain y where y: "sys_step demo_codec (\<lambda>_. True) demo_env ?s y"
    "sys_step demo_codec (\<lambda>_. True) demo_env y demo_began"
    by (force simp: demo_began_def demo_goroutine_def sys_start_def moved_def)
  show ?thesis by (rule sr_step [OF sr_step [OF sr_start y(1)] y(2)])
qed

lemma demo_runs_began: "server_runs demo_codec (mem_ops demo_codec) (\<lambda>_. True) (\<lambda>_. True) ok_runner ''main'' demo_store demo_began"
  using demo_reach_began by (simp add: server_runs_def demo_server_def)

lemma demo_runs_done:
  "\<exists>y. server_runs demo_codec (mem_ops demo_codec) (\<lambda>_. True) (\<lambda>_. True) ok_runner ''main'' demo_store y \<and>
    sys_gos y = [demo_goroutine\<lparr>go_pc := Ended, go_log := demo_run_ops\<rparr>] \<and>
    sys_streams y = [(0, stream_init)] \<and> sys_uploads y = [] \<and> sys_world y = demo_after"
proof -
  let ?g = demo_goroutine
  have solo: "go_solo 7 demo_codec (mem_ops demo_codec) ok_runner (go_name ?g) (go_digest ?g) (go_action ?g) (go_pc ?g)
      (sys_world demo_began) = ((Ok (), demo_run_ops), demo_after)"
    using solo_run_action [of demo_codec "mem_ops demo_codec" ok_runner "''op-1''" demo_request demo_action demo_store]
    by (simp add: demo_run_eq)
  have "sys_gos demo_began ! 0 = ?g" "go_rank (go_pc ?g) \<le> 7" by (simp_all add: go_start_rank)
  from solo_reach [OF demo_reach_began _ _ _ this(1) solo this(2)] show ?thesis
    by (auto simp: server_runs_def demo_server_def)
qed

theorem concurrent_entries_witness:
  "\<exists>y :: mem_store sys. sys_gos y = [demo_goroutine\<lparr>go_pc := Ended, go_log := demo_run_ops\<rparr>] \<and> oe_done (entry_at y 0) \<and>
    well_formed_ops ''op-1'' (Some zero_digest) demo_run_ops"
proof -
  obtain y where y: "server_runs demo_codec (mem_ops demo_codec) (\<lambda>_. True) (\<lambda>_. True) ok_runner ''main'' demo_store y"
    "sys_gos y = [demo_goroutine\<lparr>go_pc := Ended, go_log := demo_run_ops\<rparr>]"
    using demo_runs_done by blast
  from concurrent_entries [OF ok_action_runner(1) TrueI y(1) _ refl, of 0]
  have "oe_done (entry_at y 0) \<and> well_formed_ops ''op-1'' (Some zero_digest) demo_run_ops" by (simp add: y(2))
  with y(2) show ?thesis by blast
qed

theorem action_progress_witness:
  "\<exists>y'. sys_step demo_codec (\<lambda>_. True) demo_env demo_began y' \<and>
    go_rank (go_pc (sys_gos y' ! 0)) < go_rank (go_pc demo_goroutine)"
  using action_progress [OF ok_action_runner(1) TrueI demo_runs_began, of 0 demo_goroutine]
  by (simp add: go_start_def)

theorem concurrent_clients_witness:
  "\<exists>(y :: mem_store sys) ss'. sys_streams y = [(0, stream_init)] \<and> stream_step (entry_at y 0) stream_init ss'"
proof -
  obtain y where y: "server_runs demo_codec (mem_ops demo_codec) (\<lambda>_. True) (\<lambda>_. True) ok_runner ''main'' demo_store y"
    "sys_gos y = [demo_goroutine\<lparr>go_pc := Ended, go_log := demo_run_ops\<rparr>]" "sys_streams y = [(0, stream_init)]"
    using demo_runs_done by blast
  from concurrent_clients [OF ok_action_runner(1) TrueI y(1)] have "\<exists>ss'. stream_step (entry_at y 0) stream_init ss'"
    by (simp add: y(2,3)) (simp add: stream_init_def is_returned_def)
  with y(3) show ?thesis by blast
qed

theorem cache_provenance_witness:
  "\<exists>y :: mem_store sys. sys_world y = demo_after \<and> v_acs (mem_view (sys_world y)) (d_hash zero_digest) = Some [] \<and>
    (\<exists>g ar. g \<in> set (sys_gos y) \<and> marshal_ar demo_codec ar = Inr [] \<and> ar_exit_code ar = 0)"
proof -
  obtain y where y: "server_runs demo_codec (mem_ops demo_codec) (\<lambda>_. True) (\<lambda>_. True) ok_runner ''main'' demo_store y"
    "sys_uploads y = []" "sys_world y = demo_after"
    using demo_runs_done by blast
  have new: "v_acs (mem_view (sys_world y)) (d_hash zero_digest) = Some []"
    by (simp add: y(3) demo_after_def)
  have "v_acs (mem_view demo_store) (d_hash zero_digest) = None"
    by (simp add: demo_store_def new_mem_store_def)
  with cache_provenance [OF ok_action_runner(1) TrueI y(1) new] y(2)
  have "\<exists>g ar. g \<in> set (sys_gos y) \<and> marshal_ar demo_codec ar = Inr [] \<and> ar_exit_code ar = 0" by auto
  with y(3) new show ?thesis by blast
qed

end
