(* ===== verification/FarmServer.thy ===== *)
theory FarmServer
  imports ServerMain ConcurrentDemo
begin

text \<open>
  The farm's server at work: \<open>busy_server\<close> holds of the server over the bucket with the executor as its
  runner, so every statement of \<open>ConcurrentServer\<close> holds of a server started from its flags.
\<close>

lemma farm_runner:
  "action_runner (s3_ops farm_s3 cfg pb) pb (\<lambda>_. True) good_digest (s3_view farm_objs cfg)
    (runner_of pb jt (new_executor (farm_client pf (with_bucket env) n img) mv))"
  by (rule farm_world.executor.action_runner_axioms)

interpretation farm_busy: busy_server "s3_ops farm_s3 cfg pb" pb "\<lambda>_. True" good_digest "s3_view farm_objs cfg"
    "runner_of pb jt (new_executor (farm_client pf (with_bucket env) n img) mv)"
    "other_step (s3_ops farm_s3 cfg pb) good_digest (runner_of pb jt (new_executor (farm_client pf (with_bucket env) n img) mv))"
  for pf :: platform and cfg :: s3_config and pb :: codec and jt :: json_text and env :: "bucket agent_env" and n :: nat and img :: fs
    and mv :: mv_config
  by (intro busy_server.intro farm_runner busy_server_axioms.intro action_runner.other_step_law [OF farm_runner])


text \<open>
  A server started from its flags with an image, its actions with commands whose digests name blobs:
  in every state it reaches among other requests the invariant holds, so each entry shows its goroutine's
  updates and each entry of the action cache has a source.
\<close>

lemma farm_server_ok:
  assumes "run_server load farm_s3 (farm_client pf (with_bucket env) n img) pb jt fl = Inr sv" "sv_exec sv = Some run"
    and "sys_reach pb (\<lambda>_. True) (other_step (sv_store sv) good_digest run) sv w0 y"
    and "\<forall>g \<in> set (sys_gos y). good_digest (a_command_digest (go_action g))"
  shows "server_runs pb (sv_store sv) (\<lambda>_. True) good_digest run (fl_instance fl) w0 y"
    "action_runner (sv_store sv) pb (\<lambda>_. True) good_digest
      (s3_view farm_objs \<lparr>s3_bucket_name = fl_bucket fl, s3_prefix = fl_prefix fl\<rparr>) run"
proof -
  obtain region where sv: "sv = new_server (server_store farm_s3 pb fl) (Some run) (fl_instance fl)"
    and run: "run = runner_of pb jt (new_executor (farm_client pf (with_bucket env) n img) (microvm_config fl region))"
    using assms(1,2) by (auto simp: run_server_cases new_server_def split: if_splits)
  then have store: "sv_store sv = s3_ops farm_s3 \<lparr>s3_bucket_name = fl_bucket fl, s3_prefix = fl_prefix fl\<rparr> pb"
    by (simp add: new_server_def server_store_def)
  have "new_server (sv_store sv) (Some run) (fl_instance fl) = sv" by (simp add: sv new_server_def)
  then show "server_runs pb (sv_store sv) (\<lambda>_. True) good_digest run (fl_instance fl) w0 y"
    using assms(3,4) by (simp add: server_runs_def)
  show "action_runner (sv_store sv) pb (\<lambda>_. True) good_digest
      (s3_view farm_objs \<lparr>s3_bucket_name = fl_bucket fl, s3_prefix = fl_prefix fl\<rparr>) run"
    unfolding store run by (rule farm_runner)
qed

lemma farm_runner_returns:
  assumes "run_server load farm_s3 (farm_client pf (with_bucket env) n img) pb jt fl = Inr sv" "sv_exec sv = Some run"
  shows "\<exists>mv. run w command root timeout =
      the (executor_run pb jt (farm_executor pf env n img mv) w command root timeout) \<and>
    executor_run pb jt (farm_executor pf env n img mv) w command root timeout \<noteq> None"
proof -
  obtain region where run: "run = runner_of pb jt (farm_executor pf env n img (microvm_config fl region))"
    using assms by (auto simp: run_server_cases new_server_def farm_executor_def split: if_splits)
  have "executor_run pb jt (farm_executor pf env n img (microvm_config fl region)) w command root timeout \<noteq> None"
    by (rule farm_executor_returns)
  then show ?thesis by (auto simp: run runner_of_def)
qed

text \<open>
  C9.  The whole program at work: a server started from its flags over the farm's bucket, its actions run by
  the executor in MicroVMs with the agent, any number of them at once, among uploads, cancellations,
  deletions and every other request, with any faults of the store, the platform, the file systems and the
  processes.  In every state it reaches, an action that has not
  ended can go on (the executor always returns) and comes closer to its end; one that has ended
  published a complete protocol, whose last update its entry shows; and every entry of the action cache was
  there before, was uploaded, or is a result with exit code 0 that the executor gave for the
  command of the stored action.
\<close>

theorem farm_server_at_work:
  assumes "run_server load farm_s3 (farm_client pf (with_bucket env) n img) pb jt fl = Inr sv" and "sv_exec sv = Some run"
    and "sys_reach pb (\<lambda>_. True) (other_step (sv_store sv) good_digest run) sv w0 y"
    and "\<forall>g \<in> set (sys_gos y). good_digest (a_command_digest (go_action g))"
    and "i < length (sys_gos y)" and "g = sys_gos y ! i"
    and "vw = s3_view farm_objs \<lparr>s3_bucket_name = fl_bucket fl, s3_prefix = fl_prefix fl\<rparr>"
  shows "(go_pc g \<noteq> Ended \<longrightarrow>
      (\<exists>y'. sys_step pb (\<lambda>_. True) (other_step (sv_store sv) good_digest run) y y' \<and>
        go_rank (go_pc (sys_gos y' ! i)) < go_rank (go_pc g))) \<and>
    (\<forall>w command root timeout. \<exists>mv x. run w command root timeout = x \<and>
      executor_run pb jt (farm_executor pf env n img mv) w command root timeout = Some x) \<and>
    (go_pc g = Ended \<longrightarrow> well_formed_ops (go_name g) (go_digest g) (go_log g) \<and> oe_done (entry_at y i) \<and>
      map_option snd (oe_latest (entry_at y i)) = Some (last (go_log g))) \<and>
    (\<forall>h b. v_acs (vw (sys_world y)) h = Some b \<longrightarrow> entry_from pb vw (\<lambda>_. True) run w0 y h b)"
proof -
  note runs = farm_server_ok(1) [OF assms(1-4)] and runner = farm_server_ok(2) [OF assms(1-4), folded assms(7)]
  note entry = action_runner.entries_law [OF runner TrueI runs assms(5,6)]
  have "well_formed_ops (go_name g) (go_digest g) (go_log g) \<and> oe_done (entry_at y i) \<and>
      map_option snd (oe_latest (entry_at y i)) = Some (last (go_log g))" if "go_pc g = Ended"
  proof -
    obtain c where c: "entry_at y i = (published True (go_log g))\<lparr>oe_canceled := c\<rparr>" using entry by blast
    have wf: "well_formed_ops (go_name g) (go_digest g) (go_log g)" "oe_done (entry_at y i)" using entry that by blast+
    then have "go_log g \<noteq> []" by (simp add: well_formed_ops_def)
    moreover have "visible (go_log g) = go_log g" using entry by blast
    ultimately show ?thesis using wf by (simp add: c published_eq)
  qed
  moreover have "\<exists>mv x. run w command root timeout = x \<and>
      executor_run pb jt (farm_executor pf env n img mv) w command root timeout = Some x" for w command root timeout
    using farm_runner_returns [OF assms(1,2), of w command root timeout] by (metis option.collapse)
  ultimately show ?thesis
    using action_runner.can_step [OF runner TrueI runs assms(5)] action_runner.runs_cache [OF runner TrueI runs] assms(6)
    by (simp add: cache_from_def)
qed

subsection \<open>An action on the farm, from its request to the action cache\<close>

definition farm_request :: execute_request where
  "farm_request = \<lparr>xr_action_digest = Some empty_digest, xr_skip_cache = False\<rparr>"

definition farm_goroutine :: goroutine where
  "farm_goroutine = new_go ''op-1'' farm_request farm_action_msg 0"

lemma farm_execute:
  "execute agent_codec farm_server idle_farm ''op-1'' farm_request =
    ((Ok (runner_of agent_codec demo_json demo_executor, farm_action_msg, 0),
      farm_server\<lparr>sv_ops := snd (om_new new_operation_manager ''op-1'' True)\<rparr>), idle_farm)"
proof -
  have get: "s3_get farm_s3 cfg idle_farm (Some empty_digest) = (Ok [], idle_farm)" for cfg
    by (simp add: s3_get_def is_empty_eq)
  have parse: "unmarshal_action agent_codec [] = Inr farm_action_msg"
    by (simp add: agent_codec_def table_decode_def)
  have valid: "validate (Some empty_digest) = Ok ()" using validate_from_bytes_lemma [of "[]"] by (simp add: from_bytes_Nil)
  show ?thesis
    by (simp add: execute_def admit_def farm_server_def new_server_def fetch_action_def get parse valid farm_request_def
        om_new_def new_operation_manager_def)
qed


abbreviation farm_env :: "farm \<Rightarrow> farm \<Rightarrow> bool" where
  "farm_env \<equiv> other_step (sv_store farm_server) good_digest (runner_of agent_codec demo_json demo_executor)"

lemma farm_done:
  "\<exists>y. sys_reach agent_codec (\<lambda>_. True) farm_env farm_server idle_farm y \<and>
    sys_gos y = [farm_goroutine\<lparr>go_pc := Ended, go_log := farm_ops_of (Some empty_digest)\<rparr>]"
proof -
  let ?run = "runner_of agent_codec demo_json demo_executor" and ?s = "sys_start farm_server idle_farm"
  let ?y = "(moved ?s idle_farm)\<lparr>sys_server := farm_server\<lparr>sv_ops := snd (om_new new_operation_manager ''op-1'' True)\<rparr>,
      sys_gos := sys_gos ?s @ [farm_goroutine], sys_streams := sys_streams ?s @ [(0, stream_init)]\<rparr>"
  have "execute agent_codec (sys_server ?s) (sys_world ?s) ''op-1'' farm_request =
    ((Ok (?run, farm_action_msg, 0), farm_server\<lparr>sv_ops := snd (om_new new_operation_manager ''op-1'' True)\<rparr>), idle_farm)"
    using farm_execute by (simp add: sys_start_def)
  from execute_steps [OF this, folded farm_goroutine_def] obtain y1 where
    "sys_step agent_codec (\<lambda>_. True) farm_env ?s y1" "sys_step agent_codec (\<lambda>_. True) farm_env y1 ?y"
    by blast
  then have reach: "sys_reach agent_codec (\<lambda>_. True) farm_env farm_server idle_farm ?y"
    by (rule sr_step [OF sr_step [OF sr_start]])
  have store: "sv_store farm_server = s3_ops farm_s3 (server_cfg farm_config) agent_codec" "sv_exec farm_server = Some ?run"
    by (simp_all add: farm_server_def new_server_def server_cfg_def farm_config_def)
  have g: "sys_gos ?y ! 0 = farm_goroutine" "0 < length (sys_gos ?y)" "sv_store (sys_server ?y) = sv_store farm_server"
    "sv_exec (sys_server ?y) = Some ?run" "sys_world ?y = idle_farm" "sys_gos ?y = [farm_goroutine]"
    by (simp_all add: store sys_start_def)
  have sel: "go_name farm_goroutine = ''op-1''" "go_req farm_goroutine = farm_request" "go_action farm_goroutine = farm_action_msg"
    "go_pc farm_goroutine = go_start ''op-1'' farm_request farm_action_msg" "go_log farm_goroutine = []"
    by (simp_all add: farm_goroutine_def new_go_def)
  obtain w' where "run_action agent_codec (sv_store farm_server) ?run idle_farm ''op-1'' farm_request farm_action_msg =
      ((Ok (), farm_ops_of (xr_action_digest farm_request)), w')"
    using farm_run_of [of farm_request] by (auto simp: farm_request_def store)
  then have solo: "go_solo 7 agent_codec (sv_store farm_server) ?run (go_name farm_goroutine) (go_digest farm_goroutine)
      (go_action farm_goroutine) (go_pc farm_goroutine) (sys_world ?y) = ((Ok (), farm_ops_of (Some empty_digest)), w')"
    unfolding sel g(5) solo_run_action by (simp add: farm_request_def)
  have "go_rank (go_pc farm_goroutine) \<le> 7" by (simp add: sel go_start_rank)
  from solo_reach [OF reach g(2,3,4,1) solo this] show ?thesis by (auto simp: g(6) sel(5))
qed

theorem farm_server_at_work_witness:
  "\<exists>y. sys_gos y = [farm_goroutine\<lparr>go_pc := Ended, go_log := farm_ops_of (Some empty_digest)\<rparr>] \<and>
    sys_reach agent_codec (\<lambda>_. True) farm_env farm_server idle_farm y \<and>
    oe_done (entry_at y 0) \<and> well_formed_ops ''op-1'' (Some empty_digest) (farm_ops_of (Some empty_digest))"
proof -
  obtain y where reach: "sys_reach agent_codec (\<lambda>_. True) farm_env farm_server idle_farm y"
    and gos: "sys_gos y = [farm_goroutine\<lparr>go_pc := Ended, go_log := farm_ops_of (Some empty_digest)\<rparr>]"
    using farm_done by blast
  have start: "run_server demo_load farm_s3 (farm_client calm (with_bucket (demo_agent demo_json)) 1 agent_host)
      agent_codec demo_json demo_flags = Inr farm_server"
    using demo_start by (simp add: demo_client_def)
  have exec: "sv_exec farm_server = Some (runner_of agent_codec demo_json demo_executor)"
    by (simp add: farm_server_def new_server_def)
  have "good_digest (Some (from_bytes []))" by (simp add: good_digest_def valid_hash_plain valid_hash_sha256)
  then have good: "\<forall>g \<in> set (sys_gos y). good_digest (a_command_digest (go_action g))"
    by (simp add: gos farm_goroutine_def new_go_def farm_action_msg_def from_bytes_Nil)
  have "0 < length (sys_gos y)" by (simp add: gos)
  from farm_server_at_work [OF start exec reach good this refl refl] show ?thesis
    using gos reach by (intro exI [of _ y]) (simp add: farm_goroutine_def new_go_def farm_request_def)
qed

end
