(* ===== verification/ServerFlags.thy ===== *)
theory ServerFlags
  imports ServerMain
begin

text \<open>
  The command line of \<^verbatim>\<open>buildfarm-server\<close>: \<^verbatim>\<open>flag.Parse\<close> on the flags the command declares, with
  \<^verbatim>\<open>strconv.ParseInt(s, 0, 64)\<close> for the integer ones.
\<close>

subsection \<open>Integers of any base\<close>

text \<open>Base 0: the prefix tells the base, and underscores may separate digits.\<close>

definition any_digit :: "char \<Rightarrow> nat option" where
  "any_digit c =
     (let n = of_char c :: nat in
      if 48 \<le> n \<and> n < 58 then Some (n - 48)
      else if 97 \<le> n \<and> n < 123 then Some (n - 87)
      else if 65 \<le> n \<and> n < 91 then Some (n - 55)
      else None)"

definition number_base :: "string \<Rightarrow> nat \<times> string" where
  "number_base s =
     (if s \<noteq> [] \<and> hd s = CHR ''0'' then
        (if 3 \<le> length s \<and> s ! 1 \<in> {CHR ''b'', CHR ''B''} then (2, drop 2 s)
         else if 3 \<le> length s \<and> s ! 1 \<in> {CHR ''o'', CHR ''O''} then (8, drop 2 s)
         else if 3 \<le> length s \<and> s ! 1 \<in> {CHR ''x'', CHR ''X''} then (16, drop 2 s)
         else (8, tl s))
      else (10, s))"

definition bad_number :: err where
  "bad_number = Errorf ''parse error'' []"

definition number_range :: err where
  "number_range = Errorf ''value out of range'' []"

fun base_digits :: "nat \<Rightarrow> nat \<Rightarrow> string \<Rightarrow> err + nat" where
  "base_digits base n [] = Inr n"
| "base_digits base n (c # cs) =
     (if c = CHR ''_'' then base_digits base n cs
      else case any_digit c of
             None \<Rightarrow> Inl bad_number
           | Some d \<Rightarrow>
               if base \<le> d then Inl bad_number
               else if 2 ^ 64 \<le> base * n + d then Inl number_range
               else base_digits base (base * n + d) cs)"

text \<open>\<^verbatim>\<open>underscoreOK\<close>: an underscore stands between digits, or between the prefix and a digit.\<close>

fun underscores_ok :: "bool \<Rightarrow> char \<Rightarrow> string \<Rightarrow> bool" where
  "underscores_ok hex i [] = (i \<noteq> CHR ''_'')"
| "underscores_ok hex i (c # cs) =
     (if (case any_digit c of None \<Rightarrow> False | Some d \<Rightarrow> d < 10 \<or> hex \<and> d < 16)
      then underscores_ok hex (CHR ''0'') cs
      else if c = CHR ''_'' then i = CHR ''0'' \<and> underscores_ok hex c cs
      else i \<noteq> CHR ''_'' \<and> underscores_ok hex (CHR ''!'') cs)"

definition underscore_ok :: "string \<Rightarrow> bool" where
  "underscore_ok s =
     (if 2 \<le> length s \<and> hd s = CHR ''0'' \<and> s ! 1 \<in> {CHR ''b'', CHR ''B'', CHR ''o'', CHR ''O'', CHR ''x'', CHR ''X''}
      then underscores_ok (s ! 1 \<in> {CHR ''x'', CHR ''X''}) (CHR ''0'') (drop 2 s)
      else underscores_ok False (CHR ''^'') s)"

definition int_flag :: "string \<Rightarrow> err + int64" where
  "int_flag s =
     (let neg = (s \<noteq> [] \<and> hd s = CHR ''-'');
          ds = (if s \<noteq> [] \<and> hd s \<in> {CHR ''+'', CHR ''-''} then tl s else s)
      in if ds = [] then Inl bad_number
         else case number_base ds of
                (base, body) \<Rightarrow>
                  (case base_digits base 0 body of
                     Inl e \<Rightarrow> Inl e
                   | Inr n \<Rightarrow>
                       if CHR ''_'' \<in> set body \<and> \<not> underscore_ok ds then Inl bad_number
                       else if \<not> neg \<and> 2 ^ 63 \<le> n \<or> neg \<and> 2 ^ 63 < n then Inl number_range
                       else Inr (if neg then - of_nat n else of_nat n)))"

subsection \<open>Flags\<close>

definition string_flags :: "(string \<times> (string \<Rightarrow> flags \<Rightarrow> flags)) list" where
  "string_flags =
     [(''listen'', \<lambda>v. fl_listen_update (\<lambda>_. v)), (''bucket'', \<lambda>v. fl_bucket_update (\<lambda>_. v)),
      (''prefix'', \<lambda>v. fl_prefix_update (\<lambda>_. v)), (''region'', \<lambda>v. fl_region_update (\<lambda>_. v)),
      (''instance-name'', \<lambda>v. fl_instance_update (\<lambda>_. v)), (''microvm-image'', \<lambda>v. fl_image_update (\<lambda>_. v)),
      (''microvm-image-version'', \<lambda>v. fl_image_version_update (\<lambda>_. v)),
      (''execution-role-arn'', \<lambda>v. fl_role_update (\<lambda>_. v)),
      (''ingress-connectors'', \<lambda>v. fl_ingress_update (\<lambda>_. v)),
      (''egress-connectors'', \<lambda>v. fl_egress_update (\<lambda>_. v))]"

definition int_flags :: "(string \<times> (int64 \<Rightarrow> flags \<Rightarrow> flags)) list" where
  "int_flags =
     [(''max-duration-seconds'', \<lambda>v. fl_max_duration_update (\<lambda>_. v)),
      (''agent-port'', \<lambda>v. fl_agent_port_update (\<lambda>_. v))]"

text \<open>\<open>None\<close>: no such flag.\<close>

definition set_flag :: "string \<Rightarrow> (string \<Rightarrow> flags \<Rightarrow> err + flags) option" where
  "set_flag name =
     (case map_of string_flags name of
        Some f \<Rightarrow> Some (\<lambda>v fl. Inr (f v fl))
      | None \<Rightarrow>
          (case map_of int_flags name of
             Some f \<Rightarrow> Some (\<lambda>v fl. case int_flag v of Inl e \<Rightarrow> Inl e | Inr n \<Rightarrow> Inr (f n fl))
           | None \<Rightarrow> None))"

datatype parsed = ParsedFlags flags | HelpAsked | BadFlags err

definition give_flag :: "string \<Rightarrow> (string \<Rightarrow> flags \<Rightarrow> err + flags) \<Rightarrow> string \<Rightarrow> flags \<Rightarrow> err + flags" where
  "give_flag name f v fl =
     (case f v fl of
        Inl e \<Rightarrow> Inl (Wrapf ''invalid value %q for flag -%s: %v'' [v, name] e)
      | Inr fl' \<Rightarrow> Inr fl')"

text \<open>The first argument that is no flag ends the flags, and so does \<open>--\<close>.\<close>

fun parse_args :: "string list \<Rightarrow> flags \<Rightarrow> parsed" where
  "parse_args [] fl = ParsedFlags fl"
| "parse_args (s # rest) fl =
     (if length s < 2 \<or> hd s \<noteq> CHR ''-'' \<or> s = ''--'' then ParsedFlags fl
      else
        (let word = drop (if s ! 1 = CHR ''-'' then 2 else 1) s;
             name = hd word # takeWhile (\<lambda>c. c \<noteq> CHR ''='') (tl word);
             assigned = dropWhile (\<lambda>c. c \<noteq> CHR ''='') (tl word)
         in if hd word = CHR ''-'' \<or> hd word = CHR ''='' then BadFlags (Errorf ''bad flag syntax: %s'' [s])
            else case set_flag name of
                   None \<Rightarrow>
                     if name = ''help'' \<or> name = ''h'' then HelpAsked
                     else BadFlags (Errorf ''flag provided but not defined: -%s'' [name])
                 | Some f \<Rightarrow>
                     (case assigned of
                        c # v \<Rightarrow>
                          (case give_flag name f v fl of
                             Inl e \<Rightarrow> BadFlags e
                           | Inr fl' \<Rightarrow> parse_args rest fl')
                      | [] \<Rightarrow>
                          (case rest of
                             [] \<Rightarrow> BadFlags (Errorf ''flag needs an argument: -%s'' [name])
                           | v # rest' \<Rightarrow>
                               (case give_flag name f v fl of
                                  Inl e \<Rightarrow> BadFlags e
                                | Inr fl' \<Rightarrow> parse_args rest' fl')))))"

declare parse_args.simps(2) [simp del]

definition parse_flags :: "string list \<Rightarrow> parsed" where
  "parse_flags args = parse_args args default_flags"

subsection \<open>Integers printed in decimal\<close>

lemma any_digit_dec [simp]: "d < 10 \<Longrightarrow> any_digit (dec_digit d) = Some d"
  by (simp add: any_digit_def dec_digit_def Let_def)

lemma dec_digit_plain: "d < 10 \<Longrightarrow> dec_digit d \<noteq> CHR ''_''"
proof
  assume "d < 10" "dec_digit d = CHR ''_''"
  then have "(of_char (dec_digit d) :: nat) = of_char (CHR ''_'')" by simp
  with \<open>d < 10\<close> show False by (simp add: dec_digit_def)
qed

lemma base_digits_append:
  "base_digits base n (a @ b) = (case base_digits base n a of Inl e \<Rightarrow> Inl e | Inr m \<Rightarrow> base_digits base m b)"
  by (induction base n a rule: base_digits.induct) (auto split: option.split)

lemma base_digits_dec: "n < 2 ^ 64 \<Longrightarrow> base_digits 10 0 (dec n) = Inr n"
proof (induction n rule: dec.induct)
  case (1 n)
  show ?case
  proof (cases "n < 10")
    case True
    then show ?thesis by (simp add: dec.simps [of n] dec_digit_plain)
  next
    case False
    with 1 have "base_digits 10 0 (dec (n div 10)) = Inr (n div 10)" by auto
    with False "1.prems" show ?thesis
      by (simp add: dec.simps [of n] base_digits_append dec_digit_plain)
  qed
qed

lemma dec_no_underscore: "CHR ''_'' \<notin> set (dec n)"
proof (induction n rule: dec.induct)
  case (1 n)
  then show ?case
    by (cases "n < 10") (auto simp: dec.simps [of n] dec_digit_plain [symmetric])
qed

lemma hd_dec_zero: "hd (dec n) = CHR ''0'' \<Longrightarrow> n = 0"
proof (induction n rule: dec.induct)
  case (1 n)
  have digit: "d = 0" if "d < 10" "dec_digit d = CHR ''0''" for d
  proof -
    have "(of_char (dec_digit d) :: nat) = of_char (CHR ''0'')" using that by simp
    with that(1) show ?thesis by (simp add: dec_digit_def)
  qed
  show ?case
  proof (cases "n < 10")
    case True
    with 1(2) digit show ?thesis by (simp add: dec.simps [of n])
  next
    case False
    with 1 show ?thesis by (simp add: dec.simps [of n])
  qed
qed

lemma number_dec: "n < 2 ^ 64 \<Longrightarrow> (case number_base (dec n) of (base, body) \<Rightarrow> base_digits base 0 body) = Inr n \<and>
    CHR ''_'' \<notin> set (snd (number_base (dec n)))"
proof (cases "hd (dec n) = CHR ''0''")
  case True
  then have "n = 0" by (rule hd_dec_zero)
  moreover have "dec 0 = ''0''" by (simp add: dec.simps dec_digit_def char_of_def bit_0)
  ultimately show ?thesis by (simp add: number_base_def)
next
  case False
  assume "n < 2 ^ 64"
  with False show ?thesis by (simp add: number_base_def base_digits_dec dec_no_underscore)
qed

lemma int_flag_dec: "n < 2 ^ 63 \<Longrightarrow> int_flag (dec n) = Inr (of_nat n)"
  using number_dec [of n] hd_dec [of n] by (auto simp: int_flag_def Let_def split: prod.splits)

lemma int_flag_neg_dec: "n \<le> 2 ^ 63 \<Longrightarrow> int_flag (CHR ''-'' # dec n) = Inr (- of_nat n)"
  using number_dec [of n] by (auto simp: int_flag_def Let_def split: prod.splits)

lemma int_flag_show: "int_flag (show_int64 w) = Inr w"
proof (cases "sint w < 0")
  case True
  have "- (2 ^ 63) \<le> sint w" using sint_ge [of w] by simp
  with True show ?thesis by (simp add: show_int64_def show_int_def int_flag_neg_dec)
next
  case False
  have "sint w < 2 ^ 63" using sint_lt [of w] by simp
  with False show ?thesis by (simp add: show_int64_def show_int_def int_flag_dec)
qed

subsection \<open>How a flag may be written\<close>

text \<open>With one dash or two, and with the value after an equals sign or as the next argument.\<close>

datatype spelling = Joined bool | Apart bool

definition dashes :: "bool \<Rightarrow> string" where
  "dashes two = (if two then ''--'' else ''-'')"

fun spell :: "spelling \<Rightarrow> string \<Rightarrow> string \<Rightarrow> string list" where
  "spell (Joined two) name v = [dashes two @ name @ CHR ''='' # v]"
| "spell (Apart two) name v = [dashes two @ name, v]"

lemma set_flag_name:
  assumes "set_flag name = Some f"
  shows "\<exists>c cs. name = c # cs \<and> c \<noteq> CHR ''-'' \<and> c \<noteq> CHR ''='' \<and> CHR ''='' \<notin> set cs"
  using assms by (auto simp: set_flag_def string_flags_def int_flags_def split: option.splits if_splits)

lemma parse_spelled:
  assumes "set_flag name = Some f"
  shows "parse_args (spell sty name v @ rest) fl =
    (case give_flag name f v fl of Inl e \<Rightarrow> BadFlags e | Inr fl' \<Rightarrow> parse_args rest fl')"
proof -
  obtain c cs where name: "name = c # cs" "c \<noteq> CHR ''-''" "c \<noteq> CHR ''=''" "CHR ''='' \<notin> set cs"
    using set_flag_name [OF assms] by blast
  have split: "takeWhile (\<lambda>c. c \<noteq> CHR ''='') (cs @ CHR ''='' # v) = cs"
    "dropWhile (\<lambda>c. c \<noteq> CHR ''='') (cs @ CHR ''='' # v) = CHR ''='' # v"
    "takeWhile (\<lambda>c. c \<noteq> CHR ''='') cs = cs" "dropWhile (\<lambda>c. c \<noteq> CHR ''='') cs = []"
    using name(4) by (auto simp: takeWhile_append dropWhile_append takeWhile_eq_all_conv dropWhile_eq_Nil_conv)
  show ?thesis
  proof (cases sty)
    case (Joined two)
    then show ?thesis
      using assms name by (cases two) (simp_all add: parse_args.simps(2) dashes_def split Let_def)
  next
    case (Apart two)
    then show ?thesis
      using assms name by (cases two) (simp_all add: parse_args.simps(2) dashes_def split Let_def)
  qed
qed

definition settings :: "flags \<Rightarrow> (string \<times> string) list" where
  "settings fl =
     [(''listen'', fl_listen fl), (''bucket'', fl_bucket fl), (''prefix'', fl_prefix fl), (''region'', fl_region fl),
      (''instance-name'', fl_instance fl), (''microvm-image'', fl_image fl),
      (''microvm-image-version'', fl_image_version fl), (''execution-role-arn'', fl_role fl),
      (''ingress-connectors'', fl_ingress fl), (''egress-connectors'', fl_egress fl),
      (''max-duration-seconds'', show_int64 (fl_max_duration fl)), (''agent-port'', show_int64 (fl_agent_port fl))]"

lemma set_flag_eqs:
  "set_flag ''listen'' = Some (\<lambda>v fl. Inr (fl\<lparr>fl_listen := v\<rparr>))"
  "set_flag ''bucket'' = Some (\<lambda>v fl. Inr (fl\<lparr>fl_bucket := v\<rparr>))"
  "set_flag ''prefix'' = Some (\<lambda>v fl. Inr (fl\<lparr>fl_prefix := v\<rparr>))"
  "set_flag ''region'' = Some (\<lambda>v fl. Inr (fl\<lparr>fl_region := v\<rparr>))"
  "set_flag ''instance-name'' = Some (\<lambda>v fl. Inr (fl\<lparr>fl_instance := v\<rparr>))"
  "set_flag ''microvm-image'' = Some (\<lambda>v fl. Inr (fl\<lparr>fl_image := v\<rparr>))"
  "set_flag ''microvm-image-version'' = Some (\<lambda>v fl. Inr (fl\<lparr>fl_image_version := v\<rparr>))"
  "set_flag ''execution-role-arn'' = Some (\<lambda>v fl. Inr (fl\<lparr>fl_role := v\<rparr>))"
  "set_flag ''ingress-connectors'' = Some (\<lambda>v fl. Inr (fl\<lparr>fl_ingress := v\<rparr>))"
  "set_flag ''egress-connectors'' = Some (\<lambda>v fl. Inr (fl\<lparr>fl_egress := v\<rparr>))"
  "set_flag ''max-duration-seconds'' =
     Some (\<lambda>v fl. case int_flag v of Inl e \<Rightarrow> Inl e | Inr n \<Rightarrow> Inr (fl\<lparr>fl_max_duration := n\<rparr>))"
  "set_flag ''agent-port'' =
     Some (\<lambda>v fl. case int_flag v of Inl e \<Rightarrow> Inl e | Inr n \<Rightarrow> Inr (fl\<lparr>fl_agent_port := n\<rparr>))"
  by (simp_all add: set_flag_def string_flags_def int_flags_def)

text \<open>
  Any configuration, written with any mix of the spellings Go allows, with any text in the string
  flags, is read back exactly; the arguments after \<open>--\<close> are ignored.
\<close>

lemma flags_read_back:
  "parse_flags (concat (map (\<lambda>(name, v). spell (sty name) name v) (settings fl)) @ ''--'' # rest) = ParsedFlags fl"
proof -
  have give: "give_flag name (\<lambda>v fl. Inr (f v fl)) v fl1 = Inr (f v fl1)"
    "int_flag v = Inr m \<Longrightarrow> give_flag name (\<lambda>v fl. case int_flag v of Inl e \<Rightarrow> Inl e | Inr n \<Rightarrow> Inr (g n fl)) v fl1 = Inr (g m fl1)"
    for name f g v m fl1 by (simp_all add: give_flag_def)
  have stop: "parse_args (''--'' # rest) fl1 = ParsedFlags fl1" for fl1 by (simp add: parse_args.simps(2))
  have all: "default_flags\<lparr>fl_listen := fl_listen fl, fl_bucket := fl_bucket fl, fl_prefix := fl_prefix fl,
      fl_region := fl_region fl, fl_instance := fl_instance fl, fl_image := fl_image fl,
      fl_image_version := fl_image_version fl, fl_role := fl_role fl, fl_ingress := fl_ingress fl,
      fl_egress := fl_egress fl, fl_max_duration := fl_max_duration fl, fl_agent_port := fl_agent_port fl\<rparr> = fl"
    by (cases fl) (simp add: default_flags_def)
  show ?thesis
    unfolding parse_flags_def settings_def list.map concat.simps prod.case append_assoc append_Nil
    by (simp add: parse_spelled [OF set_flag_eqs(1)] parse_spelled [OF set_flag_eqs(2)]
        parse_spelled [OF set_flag_eqs(3)] parse_spelled [OF set_flag_eqs(4)] parse_spelled [OF set_flag_eqs(5)]
        parse_spelled [OF set_flag_eqs(6)] parse_spelled [OF set_flag_eqs(7)] parse_spelled [OF set_flag_eqs(8)]
        parse_spelled [OF set_flag_eqs(9)] parse_spelled [OF set_flag_eqs(10)] parse_spelled [OF set_flag_eqs(11)]
        parse_spelled [OF set_flag_eqs(12)] give int_flag_show stop all)
qed

end
