(* ===== verification/ServerRun.thy ===== *)
theory ServerRun
  imports ServerFlags
begin

text \<open>
  The commands as processes: \<^verbatim>\<open>Register\<close> of the server, the rest of \<^verbatim>\<open>run\<close> and \<^verbatim>\<open>main\<close> of
  \<^verbatim>\<open>cmd/buildfarm-server\<close>, and \<^verbatim>\<open>main\<close> of \<^verbatim>\<open>cmd/executor-agent\<close>.  The gRPC library, the network and the
  HTTP library's loop are parameters.
\<close>

subsection \<open>Registration\<close>

datatype service =
    CapabilitiesSvc
  | StorageSvc
  | ActionCacheSvc
  | ExecutionSvc
  | ByteStreamSvc
  | OperationsSvc

text \<open>The generated \<^verbatim>\<open>Register...Server\<close> functions are \<open>reg\<close>, on the gRPC server \<open>g\<close>.\<close>

definition register_all :: "(service \<Rightarrow> 'w server \<Rightarrow> 'g \<Rightarrow> 'g) \<Rightarrow> 'w server \<Rightarrow> 'g \<Rightarrow> 'g" where
  "register_all reg sv g =
     (let g = reg CapabilitiesSvc sv g;
          g = reg StorageSvc sv g;
          g = reg ActionCacheSvc sv g;
          g = reg ExecutionSvc sv g;
          g = reg ByteStreamSvc sv g
      in reg OperationsSvc sv g)"

subsection \<open>The server's process\<close>

text \<open>
  The calls of the gRPC library and the network: a server with its limits on the messages it receives
  and sends, registration, reflection, listening, and serving until it ends.
\<close>

record ('w, 'g, 'l) grpc_lib =
  gl_new :: "int64 \<Rightarrow> int64 \<Rightarrow> 'g"
  gl_register :: "service \<Rightarrow> 'w server \<Rightarrow> 'g \<Rightarrow> 'g"
  gl_reflection :: "'g \<Rightarrow> 'g"
  gl_listen :: "string \<Rightarrow> err + 'l"
  gl_serve :: "'g \<Rightarrow> 'l \<Rightarrow> err + unit"

definition message_limit :: int64 where
  "message_limit = 16 * 1024 * 1024"

definition run_mode :: "'w server \<Rightarrow> string" where
  "run_mode sv =
     (if sv_exec sv \<noteq> None then ''full remote execution via Lambda MicroVMs''
      else ''CAS + ActionCache only (remote execution disabled)'')"

text \<open>The lines it logs, and how it ends.\<close>

definition run_command_line ::
    "(string option \<Rightarrow> err + string) \<Rightarrow> 'w s3_client \<Rightarrow> 'w mv_client \<Rightarrow> codec \<Rightarrow> json_text \<Rightarrow>
      ('w, 'g, 'l) grpc_lib \<Rightarrow> flags \<Rightarrow> string list \<times> (err + unit)" where
  "run_command_line load cl mvc pb jt lib fl =
     (case start_server load cl mvc pb jt fl of
        Inl e \<Rightarrow> ([], Inl e)
      | Inr (region, sv) \<Rightarrow>
          (let g = gl_reflection lib (register_all (gl_register lib) sv (gl_new lib message_limit message_limit))
           in case gl_listen lib (fl_listen fl) of
                Inl e \<Rightarrow> ([], Inl (Wrapf ''listen on %s: %w'' [fl_listen fl] e))
              | Inr lis \<Rightarrow>
                  ([''buildfarm-server listening on '' @ fl_listen fl @ '' (region='' @ region @ '' bucket='' @
                     fl_bucket fl @ ''): '' @ run_mode sv],
                   gl_serve lib g lis)))"

text \<open>
  The lines on standard error and the exit code.  \<^verbatim>\<open>flag.Parse\<close> exits by itself: with 0 when help is
  asked for and with 2 for a command line it refuses; \<^verbatim>\<open>log.Fatal\<close> exits with 1.  The
  usage text is left out.
\<close>

definition server_main ::
    "(string option \<Rightarrow> err + string) \<Rightarrow> 'w s3_client \<Rightarrow> 'w mv_client \<Rightarrow> codec \<Rightarrow> json_text \<Rightarrow>
      ('w, 'g, 'l) grpc_lib \<Rightarrow> string list \<Rightarrow> string list \<times> nat" where
  "server_main load cl mvc pb jt lib args =
     (case parse_flags args of
        HelpAsked \<Rightarrow> ([], 0)
      | BadFlags e \<Rightarrow> ([error_text e], 2)
      | ParsedFlags fl \<Rightarrow>
          (case run_command_line load cl mvc pb jt lib fl of
             (log, Inl e) \<Rightarrow> (log @ [error_text e], 1)
           | (log, Inr _) \<Rightarrow> (log, 0)))"

subsection \<open>The agent's process\<close>

text \<open>\<open>serve\<close> is \<^verbatim>\<open>http.ListenAndServe\<close> with the routes of \<open>agent_serve\<close>; it returns only an error, if at all.\<close>

definition agent_main :: "(string \<Rightarrow> string) \<Rightarrow> (string \<Rightarrow> err option) \<Rightarrow> string list \<times> nat" where
  "agent_main getenv serve =
     (let port = main_port (getenv ''PORT'');
          log = ''executor-agent listening on :'' @ port
      in case serve (CHR '':'' # port) of
           None \<Rightarrow> ([log], 0)
         | Some e \<Rightarrow> ([log, error_text e], 1))"


subsection \<open>From the command line to a serving server\<close>

text \<open>
  Documented behaviour of the gRPC library: a registered service is answered by what was registered, and
  registering another, or reflection, leaves it.
\<close>

definition registry :: "('w, 'g, 'l) grpc_lib \<Rightarrow> ('g \<Rightarrow> service \<Rightarrow> 'w server option) \<Rightarrow> bool" where
  "registry lib handler \<longleftrightarrow>
     (\<forall>s sv g x. handler (gl_register lib s sv g) x = (if x = s then Some sv else handler g x)) \<and>
     (\<forall>g x. handler (gl_reflection lib g) x = handler g x)"

lemma registry_all:
  "registry lib handler \<Longrightarrow> handler (gl_reflection lib (register_all (gl_register lib) sv g)) s = Some sv"
  by (cases s) (simp_all add: registry_def register_all_def)

lemma start_server_cases:
  "start_server load cl mvc pb jt fl = Inr (region, sv) \<longleftrightarrow>
    fl_bucket fl \<noteq> '''' \<and> load (asked_region fl) = Inr region \<and> region \<noteq> '''' \<and>
    sv = new_server (server_store cl pb fl)
      (if fl_image fl \<noteq> '''' then Some (runner_of pb jt (new_executor mvc (microvm_config fl region))) else None)
      (fl_instance fl)"
  by (auto simp: start_server_def asked_region_def Let_def split: sum.splits if_splits)

lemma start_server_fails:
  "start_server load cl mvc pb jt fl = Inl e \<longleftrightarrow>
    fl_bucket fl = '''' \<and> e = Errorf ''-bucket is required'' [] \<or>
    fl_bucket fl \<noteq> '''' \<and> (\<exists>x. load (asked_region fl) = Inl x \<and> e = Wrapf ''load AWS config: %w'' [] x) \<or>
    fl_bucket fl \<noteq> '''' \<and> load (asked_region fl) = Inr '''' \<and>
      e = Errorf ''no AWS region resolved; set -region or AWS_REGION'' []"
  by (auto simp: start_server_def asked_region_def Let_def split: sum.splits if_splits)

text \<open>Once the server is built, only the address can fail.\<close>

definition run_line :: "flags \<Rightarrow> string \<Rightarrow> string" where
  "run_line fl region = ''buildfarm-server listening on '' @ fl_listen fl @ '' (region='' @ region @ '' bucket='' @ fl_bucket fl @
     (if fl_image fl \<noteq> '''' then ''): full remote execution via Lambda MicroVMs''
      else ''): CAS + ActionCache only (remote execution disabled)'')"

lemma command_line_serves:
  assumes "registry lib handler" "start_server load cl mvc pb jt fl = Inr (region, sv)" "gl_listen lib (fl_listen fl) = Inr lis"
  shows "\<exists>g. (\<forall>s. handler g s = Some sv) \<and> run_command_line load cl mvc pb jt lib fl = ([run_line fl region], gl_serve lib g lis)"
    "run_server load cl mvc pb jt fl = Inr sv" "execution_enabled sv = (fl_image fl \<noteq> '''')"
proof -
  let ?g = "gl_reflection lib (register_all (gl_register lib) sv (gl_new lib message_limit message_limit))"
  have image: "sv_exec sv = None \<longleftrightarrow> fl_image fl = ''''"
    using assms(2) unfolding start_server_cases by (auto simp: new_server_def)
  then have mode: "run_mode sv = (if fl_image fl \<noteq> '''' then ''full remote execution via Lambda MicroVMs''
      else ''CAS + ActionCache only (remote execution disabled)'')"
    unfolding run_mode_def by argo
  have "run_command_line load cl mvc pb jt lib fl = ([run_line fl region], gl_serve lib ?g lis)"
    by (simp add: run_command_line_def run_line_def assms(2,3) mode)
  then show "\<exists>g. (\<forall>s. handler g s = Some sv) \<and>
      run_command_line load cl mvc pb jt lib fl = ([run_line fl region], gl_serve lib g lis)"
    using registry_all [OF assms(1), of sv] by blast
  show "run_server load cl mvc pb jt fl = Inr sv" by (simp add: run_server_def assms(2))
  show "execution_enabled sv = (fl_image fl \<noteq> '''')" using image by (simp add: execution_enabled_def)
qed

text \<open>
  C15.  The command as a whole: started with any configuration, in any of the spellings Go allows, it fails
  with exit code 1 and one line for a missing bucket, an AWS configuration that does not load, no
  region, or an address it cannot listen on; otherwise it serves, on that address, a gRPC server on
  which each of the six services is answered by the server the flags describe, and says in its log
  whether that server runs actions, which it does exactly when an image was given.
\<close>

theorem server_command:
  assumes "registry lib handler"
    and "out = server_main load cl mvc pb jt lib
      (concat (map (\<lambda>(name, v). spell (sty name) name v) (settings fl)) @ ''--'' # rest)"
  shows "(fl_bucket fl = '''' \<longrightarrow> out = ([error_text (Errorf ''-bucket is required'' [])], 1)) \<and>
    (\<forall>e. fl_bucket fl \<noteq> '''' \<and> load (asked_region fl) = Inl e \<longrightarrow>
      out = ([error_text (Wrapf ''load AWS config: %w'' [] e)], 1)) \<and>
    (fl_bucket fl \<noteq> '''' \<and> load (asked_region fl) = Inr '''' \<longrightarrow>
      out = ([error_text (Errorf ''no AWS region resolved; set -region or AWS_REGION'' [])], 1)) \<and>
    (\<forall>region. fl_bucket fl \<noteq> '''' \<and> load (asked_region fl) = Inr region \<and> region \<noteq> '''' \<longrightarrow>
      (\<forall>e. gl_listen lib (fl_listen fl) = Inl e \<longrightarrow>
        out = ([error_text (Wrapf ''listen on %s: %w'' [fl_listen fl] e)], 1)) \<and>
      (\<forall>lis. gl_listen lib (fl_listen fl) = Inr lis \<longrightarrow>
        (\<exists>g sv line. run_server load cl mvc pb jt fl = Inr sv \<and> (\<forall>s. handler g s = Some sv) \<and>
          out = (case gl_serve lib g lis of Inl e \<Rightarrow> ([line, error_text e], 1) | Inr _ \<Rightarrow> ([line], 0)) \<and>
          execution_enabled sv = (fl_image fl \<noteq> '''') \<and> line = run_line fl region)))"
proof -
  have out: "out = (case run_command_line load cl mvc pb jt lib fl of
      (log, Inl e) \<Rightarrow> (log @ [error_text e], 1) | (log, Inr _) \<Rightarrow> (log, 0))"
    unfolding assms(2) server_main_def flags_read_back parsed.case ..
  have fails: "out = ([error_text e], 1)" if "start_server load cl mvc pb jt fl = Inl e" for e
    by (simp add: out run_command_line_def that)
  have started: "\<exists>sv. start_server load cl mvc pb jt fl = Inr (region, sv)"
    if "fl_bucket fl \<noteq> ''''" "load (asked_region fl) = Inr region" "region \<noteq> ''''" for region
    using that start_server_cases by metis
  have deaf: "out = ([error_text (Wrapf ''listen on %s: %w'' [fl_listen fl] e)], 1)"
    if "start_server load cl mvc pb jt fl = Inr (region, sv)" "gl_listen lib (fl_listen fl) = Inl e" for region sv e
    by (simp add: out run_command_line_def that)
  have serves: "\<exists>g sv line. run_server load cl mvc pb jt fl = Inr sv \<and> (\<forall>s. handler g s = Some sv) \<and>
      out = (case gl_serve lib g lis of Inl e \<Rightarrow> ([line, error_text e], 1) | Inr _ \<Rightarrow> ([line], 0)) \<and>
      execution_enabled sv = (fl_image fl \<noteq> '''') \<and> line = run_line fl region"
    if start: "start_server load cl mvc pb jt fl = Inr (region, sv)" "gl_listen lib (fl_listen fl) = Inr lis" for region sv lis
  proof -
    note law = command_line_serves [OF assms(1) start]
    obtain g where g: "\<forall>s. handler g s = Some sv"
      "run_command_line load cl mvc pb jt lib fl = ([run_line fl region], gl_serve lib g lis)"
      using law(1) by blast
    have "out = (case gl_serve lib g lis of Inl e \<Rightarrow> ([run_line fl region, error_text e], 1) | Inr _ \<Rightarrow> ([run_line fl region], 0))"
      by (simp add: out g(2) split: sum.split)
    with g(1) law(2,3) show ?thesis by blast
  qed
  show ?thesis
    using fails started deaf serves by (auto simp: start_server_fails)
qed

text \<open>A gRPC server that is its table of services and serves until it is stopped.\<close>

definition table_lib :: "('w, service \<Rightarrow> 'w server option, unit) grpc_lib" where
  "table_lib =
     \<lparr>gl_new = (\<lambda>r s x. None), gl_register = (\<lambda>s sv g. g(s := Some sv)), gl_reflection = (\<lambda>g. g),
      gl_listen = (\<lambda>addr. Inr ()), gl_serve = (\<lambda>g l. Inr ())\<rparr>"

lemma table_registry: "registry table_lib (\<lambda>g s. g s)"
  by (simp add: registry_def table_lib_def)

theorem server_command_witness:
  "\<exists>line. server_main demo_load farm_s3 demo_client agent_codec demo_json table_lib
      (concat (map (\<lambda>(name, v). spell (Joined False) name v) (settings demo_flags)) @ [''--'']) = ([line], 0) \<and>
    execution_enabled farm_server"
proof -
  have flags: "fl_bucket demo_flags \<noteq> ''''" "demo_load (asked_region demo_flags) = Inr ''us-east-1''"
      "''us-east-1'' \<noteq> ''''" "fl_image demo_flags \<noteq> ''''"
    by (simp_all add: demo_flags_def default_flags_def demo_load_def asked_region_def)
  have listen: "gl_listen table_lib (fl_listen demo_flags) = Inr ()" "gl_serve table_lib g l = Inr ()"
    for g :: "service \<Rightarrow> farm server option" and l
    by (simp_all add: table_lib_def)
  have prems: "registry table_lib (\<lambda>g s. (g :: service \<Rightarrow> farm server option) s)"
    "server_main demo_load farm_s3 demo_client agent_codec demo_json table_lib
      (concat (map (\<lambda>(name, v). spell (Joined False) name v) (settings demo_flags)) @ [''--'']) =
     server_main demo_load farm_s3 demo_client agent_codec demo_json table_lib
      (concat (map (\<lambda>(name, v). spell ((\<lambda>_. Joined False) name) name v) (settings demo_flags)) @ ''--'' # [])"
    by (rule table_registry) simp
  from server_command [OF prems] show ?thesis
    using flags listen demo_start by auto
qed


text \<open>The port the executor asks for by default is the one the agent listens on by default.\<close>

lemma default_ports:
  "mc_agent_port cfg = 0 \<Longrightarrow> show_int64 (mc_agent_port (ex_cfg (new_executor cl cfg))) = main_port ''''"
  "main_port '''' = show_int64 (fl_agent_port default_flags)"
  by (simp_all add: new_executor_def Let_def main_port_def show_int64_def show_int_def default_flags_def dec.simps dec_digit_def
      char_of_def bit_0)

end
