(* ===== verification/Spec2Isabelle.thy ===== *)
theory Spec2Isabelle
  imports GetTree FarmServer ServerRun
begin

text \<open>
  A model of aws-build-farm: a server of the Bazel Remote Execution API (REAPI v2) that keeps its
  content-addressable storage (CAS) and action cache in an S3 bucket and runs each action in a fresh
  AWS Lambda MicroVM.

  \<^bold>\<open>The program and how its parts interact.\<close>  A client uploads blobs (ByteStream \<^verbatim>\<open>Write\<close>,
  \<^verbatim>\<open>BatchUpdateBlobs\<close>) and asks for an action to be executed.  The server (\<^verbatim>\<open>internal/server\<close>) registers
  an operation, starts a goroutine for the action and streams its updates.  The goroutine looks in the
  action cache, fetches the command from the store (\<^verbatim>\<open>internal/cas\<close>) and calls the runner, which is the
  executor (\<^verbatim>\<open>internal/microvm\<close>): it launches a MicroVM, waits until the agent in it is ready, posts a
  task (\<^verbatim>\<open>internal/task\<close>) and decodes the answer; the MicroVM is terminated however this ends.  The
  agent (\<^verbatim>\<open>cmd/executor-agent\<close>) materializes the inputs from the same bucket (\<^verbatim>\<open>internal/casfs\<close>), runs
  the command, uploads streams and outputs, and answers with an action result, which the server stores
  when it may be cached.  \<^verbatim>\<open>cmd/buildfarm-server\<close> wires store, executor and server from its flags.

  \<^bold>\<open>Theories and the code they model.\<close>
  \<^item> \<open>Prelude\<close>: Go integers at their width, error values, results with a panic branch, the combinators
    for early returns; \<open>GoStd\<close>: the parts of \<^verbatim>\<open>strings\<close>, \<^verbatim>\<open>strconv\<close>, \<^verbatim>\<open>path\<close>, \<^verbatim>\<open>encoding/hex\<close> and \<^verbatim>\<open>io\<close>
    the code calls; \<open>Sha256\<close>: \<^verbatim>\<open>crypto/sha256\<close>, executable; \<open>Messages\<close>: the REAPI messages as records,
    their wire format being a parameter \<open>codec\<close>.
  \<^item> \<open>Digest\<close>: \<^verbatim>\<open>internal/digest/digest.go\<close>.
  \<^item> \<open>Cas\<close>: the interface \<^verbatim>\<open>Store\<close> as a record of operations and its contract, the locales \<open>blob_store\<close> and
    \<open>reliable_store\<close>; \<open>MemStore\<close>: \<^verbatim>\<open>internal/cas/memstore.go\<close>; \<open>S3Store\<close>: \<^verbatim>\<open>internal/cas/cas.go\<close> over an S3
    client, a parameter with the documented behaviour of S3 as the locale \<open>s3_bucket\<close>.
  \<^item> \<open>Resource\<close>, \<open>CasService\<close>, \<open>FindMissing\<close>, \<open>ByteStream\<close>, \<open>GetTree\<close>: the handlers of
    \<^verbatim>\<open>internal/server/cas_service.go\<close>; \<open>ActionCache\<close>: \<^verbatim>\<open>actioncache.go\<close>; \<open>Operations\<close>: \<^verbatim>\<open>operations.go\<close>, entries,
    manager, streams and the Operations service; \<open>Server\<close>: \<^verbatim>\<open>server.go\<close>; \<open>Execution\<close>: \<^verbatim>\<open>execution.go\<close>, with the
    runner as the locale \<open>action_runner\<close>, an action being one function.
  \<^item> \<open>Goroutine\<close>: \<^verbatim>\<open>runAction\<close> again, one access to shared state at a time, and its equality with that function;
    \<open>Concurrent\<close>: the server at work, the goroutines of all actions, the streams and waits of all clients, uploads,
    cancellations, deletions and every other request interleaved (\<open>sys_step\<close>); \<open>ConcurrentLaws\<close>: the invariant of
    every state it reaches; \<open>ConcurrentServer\<close>: what that means for clients and for the action cache;
    \<open>ConcurrentDemo\<close>: one action on the in-memory server.
  \<^item> \<open>Filesystem\<close>: paths, links and the \<^verbatim>\<open>os\<close> calls on a tree; \<open>FsNames\<close>: they keep it well formed;
    \<open>Casfs\<close>: \<^verbatim>\<open>internal/casfs/casfs.go\<close>; \<open>CasTree\<close>, \<open>CasCapture\<close>: what a digest denotes and what a tree is
    captured as, the specifications of its two directions.
  \<^item> \<open>Task\<close>: \<^verbatim>\<open>internal/task/task.go\<close> and the JSON its tags give; \<open>Agent\<close>: \<^verbatim>\<open>cmd/executor-agent/main.go\<close>;
    \<open>AgentLaws\<close>, \<open>AgentEffects\<close>, \<open>AgentReport\<close>, \<open>AgentReturns\<close>: what it does to the bucket and to the file
    system, what it reports, and that it answers; \<open>AgentDemo\<close>: one run of it on concrete values.
  \<^item> \<open>Microvm\<close>, \<open>MicrovmCalls\<close>: \<^verbatim>\<open>internal/microvm/executor.go\<close> over the platform, a parameter with the locale
    \<open>microvm_client\<close>; \<open>Remote\<close>: executor and agent together.
  \<^item> \<open>Farm\<close>: server, executor, platform, agents and bucket together, the platform following any schedule of
    faults and delays; \<open>FarmRun\<close>: one action from request to
    action cache; \<open>ServerMain\<close>: \<^verbatim>\<open>cmd/buildfarm-server/main.go\<close>, from the flags to that server; \<open>FarmServer\<close>: that
    server at work.
  \<^item> \<open>ServerFlags\<close>: the command line of \<^verbatim>\<open>buildfarm-server\<close> as \<^verbatim>\<open>flag.Parse\<close> reads it; \<open>ServerRun\<close>: \<^verbatim>\<open>Register\<close>, the
    rest of \<^verbatim>\<open>run\<close>, and the \<^verbatim>\<open>main\<close> of both commands.

  \<^bold>\<open>State.\<close>  A component's operation takes the state it works on and returns it: the store's world \<open>'s\<close>
  (the \<open>mem_store\<close> record, the bucket, or the whole \<open>farm\<close>), the file system \<open>fs\<close> of a MicroVM, the
  \<open>op_manager\<close>.  An operation that fails returns \<open>Err\<close>, a run-time panic is \<open>Panic\<close>.  What runs
  concurrently in the code and shares state is a step relation: the goroutines of \<^verbatim>\<open>FindMissingBlobs\<close>
  with the requests beside them (\<open>fm_step\<close>), the streams over an operation against its publisher
  (\<open>stream_step\<close>, \<open>wait_step\<close>, \<open>watching\<close>), and the whole server (\<open>sys_step\<close> on \<open>sys\<close>: the server and its
  operations, the world, the goroutines with the point each has reached, the streams and waits with the
  entry each watches; what was published, the worlds so far and the uploads are kept as history for the
  statements).  A step is one call of the store, one publication, one answer of the runner, or one step of a
  stream or a wait; the runner works on a world of its own, any that the invariant admits, and what it
  does to the shared one is a step of the others (\<open>other_step\<close>).  Everything else is a function.

  \<^bold>\<open>Contracts and where they are discharged.\<close>  \<open>blob_store\<close> says what a store's calls return and keep of
  its view, a map of blobs and one of action results, for any failures; it is interpreted by \<open>MemStore\<close>
  (\<open>mem\<close>, even \<open>reliable_store\<close>) and follows from \<open>s3_bucket\<close> for the S3 store (\<open>s3_blobs\<close>), which
  a bucket with an arbitrary schedule of connection failures interprets (\<open>ref_s3\<close>), and the bucket inside the
  farm again (\<open>farm_bucket\<close>).  The handlers are proved inside \<open>blob_store\<close>.  \<open>action_runner\<close> adds what the
  server expects of a runner; \<open>busy_server\<close> asks of everything that happens beside the goroutines that it keeps the
  invariant and the action cache, which every \<open>action_runner\<close> gives for the calls of the store and for
  runs (sublocale \<open>busy\<close>), the farm's server among them (\<open>farm_busy\<close>); \<open>microvm_world\<close> gives it for the executor from \<open>microvm_client\<close>, what the
  executor expects of the platform; \<open>farm_platform\<close> and \<open>farm_world\<close> interpret these on a platform
  whose MicroVMs run the modelled agent and whose calls fail, lose or cut their answers, report any state and
  take any time as a schedule says (\<open>platform\<close>), an arbitrary parameter of every statement about the farm.  \<open>agent_bucket\<close> and \<open>agent_uploads\<close> say what the agent's calls keep
  of a bucket; \<open>bucket_agent\<close> and \<open>bucket_uploads\<close> interpret them.

  \<^bold>\<open>What the lemmas show.\<close>
  \<^item> Storage: what is put is got, keys separate valid digests, windows of a blob, content addressing kept by
    every verified upload (and not by \<^verbatim>\<open>Write\<close>, which checks the size alone).
  \<^item> CAS services: \<^verbatim>\<open>FindMissingBlobs\<close> sound and terminating under every interleaving; uploads committed
    exactly when contiguous and complete, and downloaded as the same bytes; \<^verbatim>\<open>GetTree\<close> in level order, and not
    returning on any cycle that is reached; the parsers of resource names.
  \<^item> Operations and execution: streams send a subsequence of the updates, end with the final one and
    miss no wake-up; a request is admitted exactly when its action can be run; every action publishes a
    well-formed sequence of stages whatever fails, its response says what happened (\<open>uncached_truth\<close>), and a
    success is answered from the cache later; the action cache
    changes at most at the action and only to a cacheable success.
  \<^item> The server at work: in every reachable state each entry is one goroutine's and shows what it published, each
    name finds its own entry, streams and waits end only with the final update and cannot block after it, every
    entry of the action cache was there, uploaded, or earned by a run of the stored action, and every
    action can go on and ends within seven steps of its own.
  \<^item> Inputs and outputs: \<^verbatim>\<open>Materialize\<close> builds the tree the digest denotes, \<^verbatim>\<open>CaptureDirectory\<close> uploads the
    reference messages of a tree, and the two are inverse.
  \<^item> Agent and executor: the result describes the file system the process left, everything it names is stored, only blobs
    under their own digest are added, the work directory is removed, every request is answered; the
    executor decodes what the agent's \<^verbatim>\<open>runTask\<close> returned, returns within a bounded number of calls and always terminates
    its MicroVM.
  \<^item> The whole: a server started from its flags finds every blob of a result of its runner in its own store; an
    action on the farm returns, follows the protocol and keeps the cache law, and so do any number of them at once,
    among all other requests (\<open>farm_server_at_work\<close>); the command serves what its
    command line says, in any spelling, or fails with one line.
  \<^item> Defects: properties that state a behaviour nobody wants prove it on the model as it is on the code
    (an unchecked hash, an unchecked offset, keys that climb out of their prefix, a link that is followed
    out of the work directory, a timeout rounded to none).

  \<^bold>\<open>Bounds and fuel.\<close>  Constants are the code's (pages of 100 directories, chunks of 1 MiB, 32 goroutines,
  64 MiB of response, 16 MiB of gRPC message, 15 minutes); a path crosses at most 40 links, as on Linux.  The recursions over
  directories (\<open>materialize\<close>, \<open>build_directory\<close>, and through them the agent) take a fuel that
  counts nesting, \<open>None\<close> being a deeper tree; \<open>agent_returns\<close> shows that every request has one answer for
  all sufficient fuel, and \<open>capture_refines_reference\<close> that the depth of a tree is enough for it.  \<open>tree_loop\<close>
  of \<^verbatim>\<open>GetTree\<close> and the waiting loops of the executor are partial functions, \<open>None\<close> being a loop that does
  not end: \<open>get_tree_level_order\<close> and \<open>executor_returns\<close> show when they do end,
  \<open>get_tree_cycle_diverges\<close> when the first does not.  \<open>go_solo\<close> counts steps: seven are enough for any
  goroutine (\<open>solo_run_action\<close>, and \<open>go_rank\<close>, which each of its steps lowers).

  \<^bold>\<open>Parameters.\<close>  Code outside the repository: the S3 and MicroVM clients, loading of the AWS
  configuration, the wire format of messages (\<open>codec\<close>) and the text of JSON (\<open>json_text\<close>), the gRPC streams,
  the gRPC server and its loop (\<open>grpc_lib\<close>), UUIDs and clocks, the HTTP transport, the process of an action, faults of the file system, and the name a
  temporary directory gets.  What is relied on is a locale or a named hypothesis, and the witnesses instantiate
  it.  Of the text of JSON that is, for the two structs that travel, that a text reads back as the struct with
  what is no UTF-8 in its strings replaced (\<open>json_sound\<close>), also when it is cut short, or that a value
  reads back (\<open>json_text_ok\<close>).

  \<^bold>\<open>Not modelled.\<close>  The usage text of the flags, the time stamps of the log, and the loops of the gRPC and HTTP libraries
  (pure calls of libraries); the tests; \<^verbatim>\<open>http.ServeMux\<close> beyond exact paths (it also cleans paths
  and redirects); ownership, times and other permission bits than the executable ones of files;
  \<^verbatim>\<open>strings.TrimSpace\<close> outside ASCII; a panic of a handler inside \<open>sys_step\<close>, which would end the process (the
  steps exclude the arguments that cause it, see \<open>other_step\<close>); concurrent requests of one MicroVM (the executor sends them one after the
  other); the cancellation of a context inside a single call, which is one of the errors the call may return.
\<close>

end
